(* ===== verification/Prelude.thy ===== *)
theory Prelude
  imports
    Main
    "HOL-Library.Word"
    "HOL-Library.AList"
    "HOL-Library.Multiset"
begin

text \<open>
  What every component shares: the machine integers of the program, the outcomes of a
  Rust function (a value, a panic or undefined behaviour), checked arithmetic, slices and
  indexing, hash maps, and the arithmetic of 4096-byte pages.

  The program targets 64-bit Windows, so \<open>usize\<close> is 64 bits wide. A hash map is an
  association list with distinct keys whose order is the (unspecified) iteration order:
  a theorem about every such list holds for every iteration order.
\<close>

unbundle bit_operations_syntax

section \<open>Machine integers\<close>

type_synonym u8 = "8 word"
type_synonym u16 = "16 word"
type_synonym u32 = "32 word"
type_synonym u64 = "64 word"
type_synonym usize = "64 word"
type_synonym bytes = "8 word list"

section \<open>Outcomes\<close>

text \<open>
  \<open>Overflow\<close> to \<open>Unimplemented\<close> are panics; \<open>NullDeref\<close>, \<open>DanglingDeref\<close> and
  \<open>BufferOverrun\<close> are undefined behaviour of \<open>unsafe\<close> code, which the model reports and
  does not run past.
\<close>

datatype fault =
    Overflow
  | RemByZero
  | OutOfBounds
  | LengthMismatch
  | UnwrapNone
  | UnwrapErr
  | Expect string
  | Unimplemented
  | NullDeref
  | DanglingDeref
  | BufferOverrun

type_synonym 'a res = "fault + 'a"

fun res_bind :: "'a res \<Rightarrow> ('a \<Rightarrow> 'b res) \<Rightarrow> 'b res" where
  "res_bind (Inl e) f = Inl e"
| "res_bind (Inr x) f = f x"

fun res_fold :: "('a \<Rightarrow> 's \<Rightarrow> 's res) \<Rightarrow> 'a list \<Rightarrow> 's \<Rightarrow> 's res" where
  "res_fold f [] s = Inr s"
| "res_fold f (x # xs) s = res_bind (f x s) (res_fold f xs)"

named_theorems res_simps

lemma res_bind_Inr_iff [res_simps]:
  "res_bind m f = Inr y \<longleftrightarrow> (\<exists>x. m = Inr x \<and> f x = Inr y)"
  by (cases m) auto

lemma res_bind_Inl_iff [res_simps]:
  "res_bind m f = Inl e \<longleftrightarrow> m = Inl e \<or> (\<exists>x. m = Inr x \<and> f x = Inl e)"
  by (cases m) auto

lemma map_sum_Inr_iff: "map_sum f g r = Inr y \<longleftrightarrow> (\<exists>x. r = Inr x \<and> y = g x)"
  by (cases r) auto

lemma res_bind_cong [fundef_cong]:
  "m = m' \<Longrightarrow> (\<And>x. m' = Inr x \<Longrightarrow> f x = g x) \<Longrightarrow> res_bind m f = res_bind m' g"
  by (cases m') auto

lemma res_bind_assoc: "res_bind (res_bind m f) g = res_bind m (\<lambda>x. res_bind (f x) g)"
  by (cases m) auto

lemma res_fold_append:
  "res_fold f (xs @ ys) s = res_bind (res_fold f xs s) (res_fold f ys)"
proof (induction xs arbitrary: s)
  case (Cons x xs)
  then show ?case by (cases "f x s") auto
qed simp

lemma res_fold_invariant:
  assumes "res_fold f xs s = Inr s'" and "I s"
    and "\<And>x t t'. x \<in> set xs \<Longrightarrow> I t \<Longrightarrow> f x t = Inr t' \<Longrightarrow> I t'"
  shows "I s'"
  using assms
proof (induction xs arbitrary: s)
  case Nil
  then show ?case by simp
next
  case (Cons x xs)
  from Cons.prems(1) obtain t where t: "f x s = Inr t" "res_fold f xs t = Inr s'"
    by (auto simp: res_simps)
  have "I t" using Cons.prems(2,3) t(1) by auto
  then show ?case using Cons.IH [OF t(2)] Cons.prems(3) by auto
qed

section \<open>Arithmetic\<close>

lemma u64_less: "unat (x :: 64 word) < 2 ^ 64"
  using unsigned_less [of x, where ?'a = nat] by simp

text \<open>
  Rust's \<open>+\<close>, \<open>-\<close> and \<open>*\<close> panic on overflow in a build with overflow checks (the
  default of \<open>cargo build\<close>) and wrap in a release build. The operations take the kind of
  build.
\<close>

datatype build = Debug | Release

definition uadd :: "build \<Rightarrow> 'a::len word \<Rightarrow> 'a word \<Rightarrow> 'a word res" where
  "uadd b x y = (if b = Debug \<and> unat x + unat y \<ge> 2 ^ LENGTH('a) then Inl Overflow
                 else Inr (x + y))"

definition usub :: "build \<Rightarrow> 'a::len word \<Rightarrow> 'a word \<Rightarrow> 'a word res" where
  "usub b x y = (if b = Debug \<and> x < y then Inl Overflow else Inr (x - y))"

definition umul :: "build \<Rightarrow> 'a::len word \<Rightarrow> 'a word \<Rightarrow> 'a word res" where
  "umul b x y = (if b = Debug \<and> unat x * unat y \<ge> 2 ^ LENGTH('a) then Inl Overflow
                 else Inr (x * y))"

lemma uadd_value: "uadd b x y = Inr z \<Longrightarrow> z = x + y"
  by (auto simp: uadd_def split: if_splits)

lemma uadd_ok: "unat x + unat y < 2 ^ LENGTH('a) \<Longrightarrow> uadd b x (y :: 'a::len word) = Inr (x + y)"
  by (auto simp: uadd_def)

lemma uadd_Release [simp]: "uadd Release x y = Inr (x + y)"
  by (simp add: uadd_def)

lemma usub_value: "usub b x y = Inr z \<Longrightarrow> z = x - y"
  by (auto simp: usub_def split: if_splits)

lemma usub_ok: "y \<le> x \<Longrightarrow> usub b x y = Inr (x - y)"
  by (auto simp: usub_def)

lemma usub_Release [simp]: "usub Release x y = Inr (x - y)"
  by (simp add: usub_def)

lemma umul_value: "umul b x y = Inr z \<Longrightarrow> z = x * y"
  by (auto simp: umul_def split: if_splits)

lemma umul_ok: "unat x * unat y < 2 ^ LENGTH('a) \<Longrightarrow> umul b x (y :: 'a::len word) = Inr (x * y)"
  by (auto simp: umul_def)

lemma uadd_Debug_iff:
  "uadd Debug x y = Inr z \<longleftrightarrow> unat x + unat y < 2 ^ LENGTH('a) \<and> z = x + (y :: 'a::len word)"
  by (auto simp: uadd_def)

section \<open>Slices and indexing\<close>

definition index_at :: "'a list \<Rightarrow> nat \<Rightarrow> 'a res" where
  "index_at xs i = (if i < length xs then Inr (xs ! i) else Inl OutOfBounds)"

definition update_at :: "'a list \<Rightarrow> nat \<Rightarrow> 'a \<Rightarrow> 'a list res" where
  "update_at xs i x = (if i < length xs then Inr (xs[i := x]) else Inl OutOfBounds)"

definition slice :: "'a list \<Rightarrow> nat \<Rightarrow> nat \<Rightarrow> 'a list res" where
  "slice xs b e = (if b \<le> e \<and> e \<le> length xs then Inr (take (e - b) (drop b xs))
                   else Inl OutOfBounds)"

lemma index_at_Inr_iff [res_simps]: "index_at xs i = Inr x \<longleftrightarrow> i < length xs \<and> x = xs ! i"
  by (auto simp: index_at_def)

lemma update_at_Inr_iff [res_simps]:
  "update_at xs i x = Inr ys \<longleftrightarrow> i < length xs \<and> ys = xs[i := x]"
  by (auto simp: update_at_def)

lemma slice_Inr_iff [res_simps]:
  "slice xs b e = Inr ys \<longleftrightarrow> b \<le> e \<and> e \<le> length xs \<and> ys = take (e - b) (drop b xs)"
  by (auto simp: slice_def)

lemma slice_length: "slice xs b e = Inr ys \<Longrightarrow> length ys = e - b"
  by (auto simp: slice_def split: if_splits)

section \<open>Hash maps\<close>

type_synonym ('k, 'v) hash_map = "('k \<times> 'v) list"

abbreviation hm_get :: "('k, 'v) hash_map \<Rightarrow> 'k \<Rightarrow> 'v option" where
  "hm_get m k \<equiv> map_of m k"

abbreviation hm_insert :: "('k, 'v) hash_map \<Rightarrow> 'k \<Rightarrow> 'v \<Rightarrow> ('k, 'v) hash_map" where
  "hm_insert m k v \<equiv> AList.update k v m"

abbreviation hm_wf :: "('k, 'v) hash_map \<Rightarrow> bool" where
  "hm_wf m \<equiv> distinct (map fst m)"

lemma hm_insert_get [simp]: "hm_get (hm_insert m k v) j = (if j = k then Some v else hm_get m j)"
  by (simp add: update_conv')

lemma hm_insert_wf [simp]: "hm_wf m \<Longrightarrow> hm_wf (hm_insert m k v)"
  by (rule distinct_update)

lemma hm_insert_set:
  "hm_wf m \<Longrightarrow> set (hm_insert m k v) = insert (k, v) {x \<in> set m. fst x \<noteq> k}"
  by (induction m) (auto simp: rev_image_eqI)

text \<open>Facts about hash maps are kept in lookup form.\<close>

declare map_of_eq_Some_iff [simp del] Some_eq_map_of_iff [simp del] map_of_is_SomeI [simp del]

lemma hm_wf_map_of: "hm_wf m \<Longrightarrow> (k, v) \<in> set m \<longleftrightarrow> hm_get m k = Some v"
  by (rule map_of_eq_Some_iff [symmetric])

section \<open>Pages\<close>

definition page_off :: "u64 \<Rightarrow> u64" where
  "page_off a = a AND 0xfff"

definition page_of :: "u64 \<Rightarrow> u64" where
  "page_of a = a AND NOT 0xfff"

lemma page_off_mod: "unat (page_off a) = unat a mod 4096"
proof -
  have "(0xfff :: u64) = mask 12" by (simp add: mask_eq_exp_minus_1)
  then have "page_off a = take_bit 12 a"
    by (simp add: page_off_def take_bit_eq_mask)
  then show ?thesis by (simp add: take_bit_eq_mod unat_mod_distrib)
qed

lemma page_off_less [simp]: "unat (page_off a) < 4096"
  by (simp add: page_off_mod)

lemma page_split: "page_of a + page_off a = a"
proof -
  let ?x = "a AND NOT 0xfff" and ?y = "a AND 0xfff"
  have "?x AND ?y = 0" and "?x OR ?y = a" by (rule bit_word_eqI; auto simp: bit_simps)+
  then show ?thesis
    using word_plus_and_or [of ?x ?y] by (simp only: page_of_def page_off_def) simp
qed

lemma page_of_le: "page_of a \<le> a"
  unfolding page_of_def by (simp add: word_and_le2 word_and_le1)

lemma unat_page_split: "unat a = unat (page_of a) + unat (page_off a)"
proof -
  have "page_of a = a - page_off a" using page_split [of a] by (simp add: algebra_simps)
  moreover have "page_off a \<le> a" unfolding page_off_def by (simp only: and.commute [of a] word_and_le1)
  ultimately show ?thesis by (simp add: unat_sub word_le_nat_alt)
qed

lemma page_of_div: "unat (page_of a) = (unat a div 4096) * 4096"
  using unat_page_split [of a] page_off_mod [of a] by (simp add: minus_mod_eq_div_mult [symmetric])

lemma page_eqI: "page_of a = page_of b \<Longrightarrow> page_off a = page_off b \<Longrightarrow> a = b"
  using page_split by metis

lemma page_eq_iff: "a = b \<longleftrightarrow> page_of a = page_of b \<and> unat (page_off a) = unat (page_off b)"
  by (auto intro: page_eqI unsigned_word_eqI)

lemma page_of_idem [simp]: "page_of (page_of a) = page_of a"
  by (simp add: page_of_def and.assoc)

lemma page_of_add:
  assumes "page_of p = p" and "i < 4096"
  shows "page_of (p + of_nat i) = p" and "unat (page_off (p + of_nat i)) = i"
    and "unat (p + of_nat i) = unat p + i"
proof -
  have pm: "unat p mod 4096 = 0"
    using assms(1) page_of_div [of p] by (metis mod_mult_self2_is_0)
  have lt: "unat p < 2 ^ 64" using unsigned_less [of p] by simp
  have bound: "unat p + i < 2 ^ 64"
  proof -
    from pm obtain q where q: "unat p = 4096 * q" by auto
    with lt have "q < 2 ^ 52" by simp
    then have "4096 * q + 4096 \<le> 2 ^ 64" by simp
    with q assms(2) show ?thesis by linarith
  qed
  have i64: "unat (of_nat i :: u64) = i" using assms(2) by (simp add: unat_of_nat)
  show un: "unat (p + of_nat i) = unat p + i"
    using bound i64 by (simp add: unat_word_ariths)
  show off: "unat (page_off (p + of_nat i)) = i"
    using un pm assms(2) by (simp add: page_off_mod mod_add_left_eq [symmetric])
  have "unat (page_of (p + of_nat i)) = unat p"
    using unat_page_split [of "p + of_nat i"] un off by linarith
  then show "page_of (p + of_nat i) = p" by (simp add: word_eq_iff_unsigned [where ?'a = nat])
qed

text \<open>Runs of a terminating relation come to rest.\<close>

lemma wf_rests:
  assumes "wf {(s', s). R s s'}"
  shows "\<exists>s'. R\<^sup>*\<^sup>* s s' \<and> (\<nexists>s''. R s' s'')"
proof (induction s rule: wf_induct_rule [OF assms])
  case (1 s)
  show ?case
  proof (cases "\<exists>s1. R s s1")
    case True
    then obtain s1 where "R s s1" by blast
    with 1 [of s1] show ?thesis by (auto intro: converse_rtranclp_into_rtranclp)
  qed blast
qed

end
