(* ===== verification/ExecCounts.thy ===== *)
theory ExecCounts
  imports Prelude
begin

text \<open>
  Execution counts (\<open>src/src/post_proc/mod.rs\<close>): how often the instruction at each address
  was executed, kept as a hash map from a page address to 4096 counters, and the ways the
  program builds and combines such tables: one hit at a time (the post thread and both
  decoders), table by table (\<open>ClientPool::get_result\<close>, \<open>collect_all_data\<close>), and through
  the sparse form that a decoding client sends to the server.

  The interface \<open>addr_histogram\<close> is what all of them promise; it is interpreted on the
  tables of the code, for both kinds of build.
\<close>

section \<open>Data\<close>

record InsInfo =
  exec_cnt :: usize

type_synonym page_counts = "InsInfo list"
type_synonym page_table = "(usize, InsInfo list) hash_map"
type_synonym sparse_table = "(usize, (u16, InsInfo) hash_map) hash_map"

definition default_InsInfo :: InsInfo where
  "default_InsInfo = \<lparr>exec_cnt = 0\<rparr>"

definition zero_page :: page_counts where
  "zero_page = replicate 4096 default_InsInfo"

section \<open>Operations\<close>

text \<open>\<open>p[i].exec_cnt += n\<close>\<close>

definition bump :: "build \<Rightarrow> nat \<Rightarrow> usize \<Rightarrow> page_counts \<Rightarrow> page_counts res" where
  "bump b i n p =
     res_bind (index_at p i) (\<lambda>c.
     res_bind (uadd b (exec_cnt c) n) (\<lambda>v.
     update_at p i (c\<lparr>exec_cnt := v\<rparr>)))"

definition record_hit :: "build \<Rightarrow> u64 \<Rightarrow> page_table \<Rightarrow> page_table res" where
  "record_hit b addr data =
     (let off = page_off addr; page = page_of addr in
      case hm_get data page of
        Some it \<Rightarrow> res_bind (bump b (unat off) 1 it) (\<lambda>it'. Inr (hm_insert data page it'))
      | None \<Rightarrow> res_bind (bump b (unat off) 1 zero_page) (\<lambda>tmp. Inr (hm_insert data page tmp)))"

text \<open>The post thread: every message is a block of decoded instructions, here their addresses.\<close>

definition post_thread :: "build \<Rightarrow> u64 list list \<Rightarrow> page_table \<Rightarrow> page_table res" where
  "post_thread b msgs data = res_fold (\<lambda>d. res_fold (record_hit b) d) msgs data"

definition add_dense :: "build \<Rightarrow> page_counts \<Rightarrow> page_counts \<Rightarrow> page_counts res" where
  "add_dense b insn p =
     res_fold (\<lambda>(i, cur). bump b i (exec_cnt cur)) (List.enumerate 0 insn) p"

definition merge_page :: "build \<Rightarrow> usize \<times> page_counts \<Rightarrow> page_table \<Rightarrow> page_table res" where
  "merge_page b = (\<lambda>(page, insn) rst.
     case hm_get rst page of
       Some p \<Rightarrow> res_bind (add_dense b insn p) (\<lambda>p'. Inr (hm_insert rst page p'))
     | None \<Rightarrow> Inr (hm_insert rst page insn))"

definition merge_table :: "build \<Rightarrow> page_table \<Rightarrow> page_table \<Rightarrow> page_table res" where
  "merge_table b r rst = res_fold (merge_page b) r rst"

text \<open>The sparse form of a table: the offsets with a positive count, by page.\<close>

definition sparse_page :: "page_counts \<Rightarrow> (u16, InsInfo) hash_map" where
  "sparse_page x = fold (\<lambda>(idx, ins) tmp_page.
     if exec_cnt ins > 0 then hm_insert tmp_page (of_nat idx) ins else tmp_page)
     (List.enumerate 0 x) []"

definition to_sparse :: "page_table \<Rightarrow> sparse_table" where
  "to_sparse data_rst_tmp =
     fold (\<lambda>(addr, x) data_rst. hm_insert data_rst addr (sparse_page x)) data_rst_tmp []"

definition add_sparse :: "build \<Rightarrow> (u16, InsInfo) hash_map \<Rightarrow> page_counts \<Rightarrow> page_counts res" where
  "add_sparse b insn p = res_fold (\<lambda>(i, cur). bump b (unat i) (exec_cnt cur)) insn p"

definition merge_sparse_page ::
    "build \<Rightarrow> usize \<times> (u16, InsInfo) hash_map \<Rightarrow> page_table \<Rightarrow> page_table res" where
  "merge_sparse_page b = (\<lambda>(page, insn) rst_data.
     case hm_get rst_data page of
       Some p \<Rightarrow> res_bind (add_sparse b insn p) (\<lambda>p'. Inr (hm_insert rst_data page p'))
     | None \<Rightarrow> res_bind (add_sparse b insn zero_page) (\<lambda>tmp. Inr (hm_insert rst_data page tmp)))"

definition merge_sparse :: "build \<Rightarrow> sparse_table \<Rightarrow> page_table \<Rightarrow> page_table res" where
  "merge_sparse b data rst_data = res_fold (merge_sparse_page b) data rst_data"

section \<open>What a table means\<close>

definition wf_table :: "page_table \<Rightarrow> bool" where
  "wf_table t \<longleftrightarrow> hm_wf t \<and> (\<forall>(k, p) \<in> set t. page_of k = k \<and> length p = 4096)"

definition count_at :: "page_table \<Rightarrow> u64 \<Rightarrow> usize" where
  "count_at t a = (case hm_get t (page_of a) of
     None \<Rightarrow> 0 | Some p \<Rightarrow> exec_cnt (p ! unat (page_off a)))"

definition wf_sparse :: "sparse_table \<Rightarrow> bool" where
  "wf_sparse w \<longleftrightarrow> hm_wf w \<and> (\<forall>(k, s) \<in> set w.
     page_of k = k \<and> hm_wf s \<and> (\<forall>(i, c) \<in> set s. unat i < 4096))"

definition sparse_count_at :: "sparse_table \<Rightarrow> u64 \<Rightarrow> usize" where
  "sparse_count_at w a = (case hm_get w (page_of a) of
     None \<Rightarrow> 0
   | Some s \<Rightarrow> (case hm_get s (ucast (page_off a)) of None \<Rightarrow> 0 | Some c \<Rightarrow> exec_cnt c))"

section \<open>Counters of one page\<close>

text \<open>\<open>gain xs j\<close> is what a list of increments \<open>xs\<close> adds to counter \<open>j\<close>.\<close>

definition gain :: "(nat \<times> usize) list \<Rightarrow> nat \<Rightarrow> usize" where
  "gain xs j = (\<Sum>(i, n) \<leftarrow> xs. if i = j then n else 0)"

definition ugain :: "(nat \<times> usize) list \<Rightarrow> nat \<Rightarrow> nat" where
  "ugain xs j = (\<Sum>(i, n) \<leftarrow> xs. if i = j then unat n else 0)"

lemma gain_simps [simp]:
  "gain [] j = 0" "gain ((i, n) # xs) j = (if i = j then n else 0) + gain xs j"
  "ugain [] j = 0" "ugain ((i, n) # xs) j = (if i = j then unat n else 0) + ugain xs j"
  by (simp_all add: gain_def ugain_def)

lemma gain_none: "j \<notin> fst ` set xs \<Longrightarrow> gain xs j = 0"
  by (induction xs) auto

lemma ugain_none: "j \<notin> fst ` set xs \<Longrightarrow> ugain xs j = 0"
  by (induction xs) auto

lemma gain_distinct: "hm_wf xs \<Longrightarrow> gain xs j = (case hm_get xs j of None \<Rightarrow> 0 | Some n \<Rightarrow> n)"
  by (induction xs) (auto simp: gain_none)

lemma ugain_distinct: "hm_wf xs \<Longrightarrow> ugain xs j = unat (gain xs j)"
  by (induction xs) (auto simp: gain_none ugain_none)

definition counters :: "page_counts \<Rightarrow> usize list" where
  "counters p = map exec_cnt p"

lemma bump_iff:
  "bump b i n p = Inr q \<longleftrightarrow> i < length p \<and> uadd b (exec_cnt (p ! i)) n = Inr (exec_cnt (p ! i) + n)
     \<and> q = p[i := (p ! i)\<lparr>exec_cnt := exec_cnt (p ! i) + n\<rparr>]"
  by (auto simp: bump_def res_simps dest: uadd_value)

lemma bump_Inr:
  assumes "bump b i n p = Inr q"
  shows "i < length p" and "length q = length p"
    and "\<And>j. j < length p \<Longrightarrow> exec_cnt (q ! j) = exec_cnt (p ! j) + (if i = j then n else 0)"
  using assms by (auto simp: bump_iff nth_list_update)

lemma bump_ok:
  "i < length p \<Longrightarrow> unat (exec_cnt (p ! i)) + unat n < 2 ^ 64 \<Longrightarrow> \<exists>q. bump b i n p = Inr q"
  by (simp add: bump_iff uadd_ok)

definition bumps :: "build \<Rightarrow> (nat \<times> usize) list \<Rightarrow> page_counts \<Rightarrow> page_counts res" where
  "bumps b xs p = res_fold (\<lambda>(i, n). bump b i n) xs p"

lemma bumps_Inr:
  assumes "bumps b xs p = Inr q"
  shows "length q = length p"
    and "\<And>j. j < length p \<Longrightarrow> exec_cnt (q ! j) = exec_cnt (p ! j) + gain xs j"
proof -
  have "length q = length p \<and>
        (\<forall>j < length p. exec_cnt (q ! j) = exec_cnt (p ! j) + gain xs j)"
    using assms
  proof (induction xs arbitrary: p)
    case Nil
    then show ?case by (simp add: bumps_def)
  next
    case (Cons x xs)
    obtain i n where x: "x = (i, n)" by (cases x)
    from Cons.prems x obtain r where r: "bump b i n p = Inr r" "bumps b xs r = Inr q"
      by (auto simp: bumps_def res_simps)
    from Cons.IH [OF r(2)] bump_Inr [OF r(1)] x show ?case by auto
  qed
  then show "length q = length p"
    and "\<And>j. j < length p \<Longrightarrow> exec_cnt (q ! j) = exec_cnt (p ! j) + gain xs j" by auto
qed

lemma bumps_ok:
  assumes "\<forall>(i, n) \<in> set xs. i < length p"
    and "\<forall>j < length p. unat (exec_cnt (p ! j)) + ugain xs j < 2 ^ 64"
  shows "\<exists>q. bumps b xs p = Inr q"
  using assms
proof (induction xs arbitrary: p)
  case Nil
  then show ?case by (simp add: bumps_def)
next
  case (Cons x xs)
  obtain i n where x: "x = (i, n)" by (cases x)
  with Cons.prems have i: "i < length p" "unat (exec_cnt (p ! i)) + (unat n + ugain xs i) < 2 ^ 64"
    by auto
  then obtain r where r: "bump b i n p = Inr r" using bump_ok [of i p n b] by auto
  have "unat (exec_cnt (r ! j)) + ugain xs j < 2 ^ 64" if j: "j < length r" for j
  proof (cases "i = j")
    case True
    with i bump_Inr [OF r] show ?thesis by (simp add: unat_word_ariths)
  next
    case False
    with Cons.prems(2) x j bump_Inr [OF r] show ?thesis by auto
  qed
  moreover have "\<forall>(i, n) \<in> set xs. i < length r" using Cons.prems(1) bump_Inr(2) [OF r] by auto
  ultimately obtain q where "bumps b xs r = Inr q" using Cons.IH by blast
  with r x show ?case by (auto simp: bumps_def)
qed

subsection \<open>Dense and sparse pages\<close>

definition dense_incs :: "page_counts \<Rightarrow> (nat \<times> usize) list" where
  "dense_incs insn = map (\<lambda>(i, c). (i, exec_cnt c)) (List.enumerate 0 insn)"

definition sparse_incs :: "(u16, InsInfo) hash_map \<Rightarrow> (nat \<times> usize) list" where
  "sparse_incs insn = map (\<lambda>(i, c). (unat i, exec_cnt c)) insn"

lemma res_fold_map: "res_fold f (map g xs) s = res_fold (\<lambda>x. f (g x)) xs s"
proof (induction xs arbitrary: s)
  case (Cons x xs)
  then show ?case by (cases "f (g x) s") auto
qed simp

lemma add_dense_bumps: "add_dense b insn p = bumps b (dense_incs insn) p"
  by (simp add: add_dense_def bumps_def dense_incs_def res_fold_map case_prod_unfold)

lemma add_sparse_bumps: "add_sparse b insn p = bumps b (sparse_incs insn) p"
  by (simp add: add_sparse_def bumps_def sparse_incs_def res_fold_map case_prod_unfold)

lemma dense_incs_zip: "dense_incs insn = zip [0..<length insn] (map exec_cnt insn)"
  by (simp add: dense_incs_def enumerate_eq_zip zip_map2 case_prod_unfold)

lemma dense_incs_wf [simp]: "hm_wf (dense_incs insn)"
  by (simp add: dense_incs_zip)

lemma dense_incs_range: "(i, n) \<in> set (dense_incs insn) \<Longrightarrow> i < length insn"
  by (auto simp: dense_incs_zip dest: set_zip_leftD)

lemma gain_dense: "j < length insn \<Longrightarrow> gain (dense_incs insn) j = exec_cnt (insn ! j)"
  using map_of_zip_nth [of "[0..<length insn]" "map exec_cnt insn" j]
  by (simp add: gain_distinct) (simp add: dense_incs_zip)

lemma sparse_incs_wf: "hm_wf s \<Longrightarrow> hm_wf (sparse_incs s)"
  by (induction s) (force simp: sparse_incs_def dest: unsigned_word_eqI)+

lemma sparse_incs_get:
  "j < 65536 \<Longrightarrow> hm_get (sparse_incs s) j = map_option exec_cnt (hm_get s (of_nat j))"
  by (induction s) (auto simp: sparse_incs_def unat_of_nat word_eq_iff_unsigned [where ?'a = nat])

lemma gain_sparse:
  "hm_wf s \<Longrightarrow> j < 65536 \<Longrightarrow> gain (sparse_incs s) j =
     (case hm_get s (of_nat j) of None \<Rightarrow> 0 | Some c \<Rightarrow> exec_cnt c)"
  by (auto simp: gain_distinct sparse_incs_wf sparse_incs_get split: option.splits)

lemma off_u16: "of_nat (unat (page_off a)) = (ucast (page_off a) :: u16)"
  by (simp add: word_eq_iff_unsigned [where ?'a = nat] unsigned_ucast_eq unat_of_nat take_bit_eq_mod)

section \<open>Tables\<close>

lemma zero_page_length [simp]: "length zero_page = 4096"
  by (simp add: zero_page_def)

lemma zero_page_nth [simp]: "i < 4096 \<Longrightarrow> exec_cnt (zero_page ! i) = 0"
  by (simp add: zero_page_def default_InsInfo_def)

lemma wf_table_Nil [simp]: "wf_table []"
  by (simp add: wf_table_def)

lemma count_at_Nil [simp]: "count_at [] a = 0"
  by (simp add: count_at_def)

lemma wf_tableD:
  "wf_table t \<Longrightarrow> hm_get t k = Some p \<Longrightarrow> page_of k = k \<and> length p = 4096"
  by (auto simp: wf_table_def dest: map_of_SomeD)

lemma wf_table_insert:
  "wf_table t \<Longrightarrow> page_of k = k \<Longrightarrow> length q = 4096 \<Longrightarrow> wf_table (hm_insert t k q)"
  by (auto simp: wf_table_def hm_insert_set)

lemma count_at_insert:
  "count_at (hm_insert t k q) a =
     (if page_of a = k then exec_cnt (q ! unat (page_off a)) else count_at t a)"
  by (simp add: count_at_def)

lemma wf_table_Cons:
  "wf_table ((k, p) # t) \<longleftrightarrow> wf_table t \<and> k \<notin> fst ` set t \<and> page_of k = k \<and> length p = 4096"
  by (auto simp: wf_table_def)

lemma count_at_Cons:
  "k \<notin> fst ` set t \<Longrightarrow> count_at ((k, p) # t) a =
     (if page_of a = k then exec_cnt (p ! unat (page_off a)) else 0) + count_at t a"
  using map_of_eq_None_iff [of t k] by (auto simp: count_at_def)

lemma wf_sparse_Cons:
  "wf_sparse ((k, s) # w) \<longleftrightarrow> wf_sparse w \<and> k \<notin> fst ` set w \<and> page_of k = k \<and> hm_wf s
     \<and> (\<forall>(i, c) \<in> set s. unat i < 4096)"
  by (auto simp: wf_sparse_def)

lemma sparse_count_at_Cons:
  "k \<notin> fst ` set w \<Longrightarrow> sparse_count_at ((k, s) # w) a =
     (if page_of a = k
      then (case hm_get s (ucast (page_off a)) of None \<Rightarrow> 0 | Some c \<Rightarrow> exec_cnt c) else 0)
     + sparse_count_at w a"
  using map_of_eq_None_iff [of w k] by (auto simp: sparse_count_at_def)

text \<open>
  Every operation changes one page: the page it finds, or a page of zeros, takes a list of
  increments. \<open>page_at\<close> is that page.
\<close>

definition page_at :: "page_table \<Rightarrow> usize \<Rightarrow> page_counts" where
  "page_at t k = (case hm_get t k of None \<Rightarrow> zero_page | Some p \<Rightarrow> p)"

lemma page_at_length: "wf_table t \<Longrightarrow> length (page_at t k) = 4096"
  by (auto simp: page_at_def dest: wf_tableD split: option.splits)

lemma page_at_count:
  "wf_table t \<Longrightarrow> exec_cnt (page_at t (page_of a) ! unat (page_off a)) = count_at t a"
  by (auto simp: page_at_def count_at_def split: option.splits)

lemma page_at_count_off:
  assumes "page_of k = k" and "j < 4096" and "wf_table t"
  shows "exec_cnt (page_at t k ! j) = count_at t (k + of_nat j)"
  using page_at_count [OF assms(3), of "k + of_nat j"] page_of_add [OF assms(1,2)] by simp

definition add_to_page :: "build \<Rightarrow> usize \<Rightarrow> (nat \<times> usize) list \<Rightarrow> page_table \<Rightarrow> page_table res" where
  "add_to_page b k xs t = res_bind (bumps b xs (page_at t k)) (\<lambda>q. Inr (hm_insert t k q))"

lemma add_to_page_Inr:
  assumes "add_to_page b k xs t = Inr t'" and "wf_table t" and "page_of k = k"
  shows "wf_table t'"
    and "count_at t' a = count_at t a + (if page_of a = k then gain xs (unat (page_off a)) else 0)"
proof -
  from assms(1) obtain q where q: "bumps b xs (page_at t k) = Inr q" and t': "t' = hm_insert t k q"
    by (auto simp: add_to_page_def res_simps)
  have len: "length q = 4096" using bumps_Inr(1) [OF q] page_at_length [OF assms(2)] by simp
  then show "wf_table t'" using assms(2,3) t' by (simp add: wf_table_insert)
  show "count_at t' a = count_at t a + (if page_of a = k then gain xs (unat (page_off a)) else 0)"
    using bumps_Inr(2) [OF q] page_at_length [OF assms(2)] page_at_count [OF assms(2)] t'
    by (auto simp: count_at_insert)
qed

lemma add_to_page_ok:
  assumes "wf_table t" and "page_of k = k" and "\<forall>(i, n) \<in> set xs. i < 4096"
    and "\<And>j. j < 4096 \<Longrightarrow> unat (count_at t (k + of_nat j)) + ugain xs j < 2 ^ 64"
  shows "\<exists>t'. add_to_page b k xs t = Inr t'"
proof -
  have "\<exists>q. bumps b xs (page_at t k) = Inr q"
    using assms by (intro bumps_ok) (auto simp: page_at_length page_at_count_off)
  then show ?thesis by (auto simp: add_to_page_def)
qed

lemma record_hit_add: "record_hit b a t = add_to_page b (page_of a) [(unat (page_off a), 1)] t"
  by (auto simp: record_hit_def add_to_page_def bumps_def page_at_def res_bind_assoc Let_def
      split: option.splits)

lemma merge_sparse_page_add:
  "merge_sparse_page b (k, s) t = add_to_page b k (sparse_incs s) t"
  by (auto simp: merge_sparse_page_def add_to_page_def add_sparse_bumps page_at_def
      split: option.splits)

section \<open>The histogram interface\<close>

text \<open>
  What the clients of a table rely on: an abstract histogram \<open>cnt\<close>, updated by a hit and
  added up by a merge, in 64-bit arithmetic, without a panic while the true counts fit.
\<close>

locale addr_histogram =
  fixes inv :: "'t \<Rightarrow> bool"
    and cnt :: "'t \<Rightarrow> u64 \<Rightarrow> usize"
    and new :: 't
    and hit :: "u64 \<Rightarrow> 't \<Rightarrow> 't res"
    and merge :: "'t \<Rightarrow> 't \<Rightarrow> 't res"
  assumes inv_new: "inv new"
    and cnt_new: "cnt new a = 0"
    and inv_hit: "inv t \<Longrightarrow> hit a t = Inr t' \<Longrightarrow> inv t'"
    and cnt_hit: "inv t \<Longrightarrow> hit a t = Inr t' \<Longrightarrow> cnt t' x = cnt t x + (if a = x then 1 else 0)"
    and hit_total: "inv t \<Longrightarrow> unat (cnt t a) + 1 < 2 ^ 64 \<Longrightarrow> \<exists>t'. hit a t = Inr t'"
    and inv_merge: "inv s \<Longrightarrow> inv t \<Longrightarrow> merge s t = Inr t' \<Longrightarrow> inv t'"
    and cnt_merge: "inv s \<Longrightarrow> inv t \<Longrightarrow> merge s t = Inr t' \<Longrightarrow> cnt t' x = cnt t x + cnt s x"
    and merge_total: "inv s \<Longrightarrow> inv t \<Longrightarrow> (\<forall>x. unat (cnt t x) + unat (cnt s x) < 2 ^ 64)
      \<Longrightarrow> \<exists>t'. merge s t = Inr t'"
begin

text \<open>A run of hits counts exactly, and cannot panic while the counts fit.\<close>

lemma hits_exact:
  assumes "inv t" and "\<forall>x. unat (cnt t x) + count_list as x < 2 ^ 64"
  shows "\<exists>t'. res_fold hit as t = Inr t' \<and> inv t'
     \<and> (\<forall>x. unat (cnt t' x) = unat (cnt t x) + count_list as x)"
  using assms
proof (induction as arbitrary: t)
  case Nil
  then show ?case by simp
next
  case (Cons a as)
  have "unat (cnt t a) + 1 < 2 ^ 64" using Cons.prems(2) [rule_format, of a] by simp
  then obtain s where s: "hit a t = Inr s" using hit_total Cons.prems(1) by blast
  have step: "unat (cnt s x) = unat (cnt t x) + (if a = x then 1 else 0)" for x
    using cnt_hit [OF Cons.prems(1) s, of x] Cons.prems(2) [rule_format, of x]
    by (cases "a = x") (simp_all add: unat_word_ariths)
  have "\<forall>x. unat (cnt s x) + count_list as x < 2 ^ 64"
    using Cons.prems(2) by (auto simp: step split: if_splits)
  from Cons.IH [OF inv_hit [OF Cons.prems(1) s] this] s step show ?case by auto
qed

text \<open>The same in 64-bit arithmetic, for any run that returns.\<close>

lemma hits_count:
  assumes "res_fold hit as t = Inr t'" and "inv t"
  shows "inv t' \<and> cnt t' x = cnt t x + of_nat (count_list as x)"
  using assms
proof (induction as arbitrary: t)
  case Nil
  then show ?case by simp
next
  case (Cons a as)
  from Cons.prems(1) obtain s where s: "hit a t = Inr s" "res_fold hit as s = Inr t'"
    by (auto simp: res_simps)
  from Cons.IH [OF s(2) inv_hit [OF Cons.prems(2) s(1)]] cnt_hit [OF Cons.prems(2) s(1), of x]
  show ?case by (auto simp: algebra_simps)
qed

text \<open>Merging any list of tables into a new one adds their counts.\<close>

lemma merges_exact:
  assumes "inv t" and "\<forall>s \<in> set ss. inv s"
    and "\<forall>x. unat (cnt t x) + (\<Sum>s \<leftarrow> ss. unat (cnt s x)) < 2 ^ 64"
  shows "\<exists>t'. res_fold merge ss t = Inr t' \<and> inv t'
     \<and> (\<forall>x. unat (cnt t' x) = unat (cnt t x) + (\<Sum>s \<leftarrow> ss. unat (cnt s x)))"
  using assms
proof (induction ss arbitrary: t)
  case Nil
  then show ?case by simp
next
  case (Cons s ss)
  have fits: "unat (cnt t x) + unat (cnt s x) < 2 ^ 64" for x
    using Cons.prems(3) [rule_format, of x] by simp
  then obtain r where r: "merge s t = Inr r" using merge_total Cons.prems(1,2) by force
  have step: "unat (cnt r x) = unat (cnt t x) + unat (cnt s x)" for x
    using cnt_merge [OF _ Cons.prems(1) r, of x] Cons.prems(2) fits [of x]
    by (simp add: unat_word_ariths)
  have r_inv: "inv r" using inv_merge [OF _ Cons.prems(1) r] Cons.prems(2) by simp
  have "\<forall>x. unat (cnt r x) + (\<Sum>s \<leftarrow> ss. unat (cnt s x)) < 2 ^ 64"
    using Cons.prems(3) by (simp only: step list.map sum_list.Cons add.assoc simp_thms)
  then obtain t' where "res_fold merge ss r = Inr t'" "inv t'"
    "\<forall>x. unat (cnt t' x) = unat (cnt r x) + (\<Sum>s \<leftarrow> ss. unat (cnt s x))"
    using Cons.IH [OF r_inv] Cons.prems(2) by auto
  with r show ?case by (simp add: step)
qed

text \<open>
  Workers that each count their own blocks, merged afterwards, give the counts of all
  blocks together: how blocks are distributed over workers does not matter.
\<close>

lemma workers_exact:
  assumes fits: "length (concat bs) < 2 ^ 64"
    and ts: "list_all2 (\<lambda>as t. res_fold hit as new = Inr t) bs ts"
  shows "\<exists>t'. res_fold merge ts new = Inr t' \<and> inv t'
     \<and> (\<forall>x. unat (cnt t' x) = count_list (concat bs) x)"
proof -
  have len: "length (concat ds) < 2 ^ 64 \<Longrightarrow> list_all2 (\<lambda>as t. res_fold hit as new = Inr t) ds us
    \<Longrightarrow> (\<forall>u \<in> set us. inv u) \<and> (\<forall>x. (\<Sum>u \<leftarrow> us. unat (cnt u x)) = count_list (concat ds) x)" for ds us
  proof (induction ds arbitrary: us)
    case Nil
    then show ?case by simp
  next
    case (Cons d ds)
    then obtain v vs where us: "us = v # vs" "res_fold hit d new = Inr v"
      "list_all2 (\<lambda>as t. res_fold hit as new = Inr t) ds vs"
      by (auto simp: list_all2_Cons1)
    have "unat (cnt new x) + count_list d x < 2 ^ 64" for x
      using Cons.prems(1) count_le_length [of d x] by (simp add: cnt_new)
    then have "inv v \<and> (\<forall>x. unat (cnt v x) = count_list d x)"
      using hits_exact [OF inv_new, of d] us(2) by (auto simp: cnt_new)
    with Cons.IH [OF _ us(3)] Cons.prems(1) us(1) show ?case by simp
  qed
  have "\<forall>x. unat (cnt new x) + (\<Sum>u \<leftarrow> ts. unat (cnt u x)) < 2 ^ 64"
    using len [OF fits ts] fits count_le_length [of "concat bs"]
    by (auto simp: cnt_new intro: le_less_trans)
  from merges_exact [OF inv_new _ this] len [OF fits ts] show ?thesis by (simp add: cnt_new)
qed

end

section \<open>The tables of the code are histograms\<close>

lemma record_hit_Inr:
  assumes "wf_table t" and "record_hit b a t = Inr t'"
  shows "wf_table t'" and "count_at t' x = count_at t x + (if a = x then 1 else 0)"
  using add_to_page_Inr [of b "page_of a" "[(unat (page_off a), 1)]" t t'] assms
  by (auto simp: record_hit_add page_eq_iff [of a x])

lemma record_hit_ok:
  assumes "wf_table t" and "unat (count_at t a) + 1 < 2 ^ 64"
  shows "\<exists>t'. record_hit b a t = Inr t'"
proof -
  have "unat (count_at t (page_of a + of_nat j)) + ugain [(unat (page_off a), 1)] j < 2 ^ 64"
    if "j < 4096" for j
  proof (cases "j = unat (page_off a)")
    case True
    then show ?thesis using assms(2) by (simp add: page_split)
  next
    case False
    then show ?thesis using unsigned_less [of "count_at t (page_of a + of_nat j)"] by simp
  qed
  then show ?thesis
    unfolding record_hit_add using assms(1) by (intro add_to_page_ok) auto
qed

lemma merge_page_Inr:
  assumes "merge_page b (k, p) t = Inr t'" and "wf_table t" and "page_of k = k" and "length p = 4096"
  shows "wf_table t'"
    and "count_at t' a =
      count_at t a + (if page_of a = k then exec_cnt (p ! unat (page_off a)) else 0)"
proof -
  have "wf_table t' \<and> count_at t' a =
      count_at t a + (if page_of a = k then exec_cnt (p ! unat (page_off a)) else 0)"
  proof (cases "hm_get t k")
    case None
    with assms show ?thesis
      by (auto simp: merge_page_def wf_table_insert count_at_insert) (simp add: count_at_def)
  next
    case (Some q)
    with assms(1) have "add_to_page b k (dense_incs p) t = Inr t'"
      by (simp add: merge_page_def add_to_page_def add_dense_bumps page_at_def)
    from add_to_page_Inr [OF this assms(2,3)] assms(4) show ?thesis by (auto simp: gain_dense)
  qed
  then show "wf_table t'"
    and "count_at t' a =
      count_at t a + (if page_of a = k then exec_cnt (p ! unat (page_off a)) else 0)" by auto
qed

lemma merge_page_ok:
  assumes "wf_table t" and "page_of k = k" and "length p = 4096"
    and "\<And>a. page_of a = k \<Longrightarrow>
      unat (count_at t a) + unat (exec_cnt (p ! unat (page_off a))) < 2 ^ 64"
  shows "\<exists>t'. merge_page b (k, p) t = Inr t'"
proof (cases "hm_get t k")
  case None
  then show ?thesis by (simp add: merge_page_def)
next
  case (Some q)
  have "unat (count_at t (k + of_nat j)) + ugain (dense_incs p) j < 2 ^ 64" if "j < 4096" for j
    using assms(4) [of "k + of_nat j"] page_of_add [OF assms(2) that] that assms(3)
    by (simp add: ugain_distinct gain_dense)
  then have "\<exists>t'. add_to_page b k (dense_incs p) t = Inr t'"
    using assms(1-3) by (intro add_to_page_ok) (auto dest: dense_incs_range)
  with Some show ?thesis
    by (simp add: merge_page_def add_to_page_def add_dense_bumps page_at_def)
qed

lemma merge_table_Inr:
  assumes "merge_table b s t = Inr t'" and "wf_table s" and "wf_table t"
  shows "wf_table t' \<and> (\<forall>a. count_at t' a = count_at t a + count_at s a)"
  using assms
proof (induction s arbitrary: t)
  case Nil
  then show ?case by (simp add: merge_table_def)
next
  case (Cons x s)
  obtain k p where x: "x = (k, p)" by (cases x)
  with Cons.prems(2) have kp: "wf_table s" "k \<notin> fst ` set s" "page_of k = k" "length p = 4096"
    by (simp_all add: wf_table_Cons)
  from Cons.prems(1) x obtain u where u: "merge_page b (k, p) t = Inr u" "merge_table b s u = Inr t'"
    by (auto simp: merge_table_def res_simps)
  note step = merge_page_Inr [OF u(1) Cons.prems(3) kp(3,4)]
  from Cons.IH [OF u(2) kp(1) step(1)] step(2) show ?case
    by (simp add: x count_at_Cons [OF kp(2)] add.assoc)
qed

lemma merge_table_ok:
  assumes "wf_table s" and "wf_table t" and "\<forall>a. unat (count_at t a) + unat (count_at s a) < 2 ^ 64"
  shows "\<exists>t'. merge_table b s t = Inr t'"
  using assms
proof (induction s arbitrary: t)
  case Nil
  then show ?case by (simp add: merge_table_def)
next
  case (Cons x s)
  obtain k p where x: "x = (k, p)" by (cases x)
  with Cons.prems(1) have kp: "wf_table s" "k \<notin> fst ` set s" "page_of k = k" "length p = 4096"
    by (simp_all add: wf_table_Cons)
  have zero: "count_at s a = 0" if "page_of a = k" for a
    using kp(2) that map_of_eq_None_iff [of s k] by (simp add: count_at_def)
  have fits: "unat (count_at t a) + unat (exec_cnt (p ! unat (page_off a))) < 2 ^ 64"
    if "page_of a = k" for a
    using Cons.prems(3) [rule_format, of a] that zero [OF that]
    by (simp add: x count_at_Cons [OF kp(2)])
  then obtain u where u: "merge_page b (k, p) t = Inr u"
    using merge_page_ok [OF Cons.prems(2) kp(3,4)] by blast
  note step = merge_page_Inr [OF u Cons.prems(2) kp(3,4)]
  have "unat (count_at u a) + unat (count_at s a) < 2 ^ 64" for a
  proof (cases "page_of a = k")
    case True
    then show ?thesis using unsigned_less [of "count_at u a"] by (simp add: zero)
  next
    case False
    then show ?thesis using Cons.prems(3) [rule_format, of a]
      by (simp add: step(2) x count_at_Cons [OF kp(2)])
  qed
  from Cons.IH [OF kp(1) step(1)] this u show ?case by (auto simp: merge_table_def x)
qed

interpretation table: addr_histogram wf_table count_at "[]" "record_hit b" "merge_table b" for b
proof unfold_locales
  show "wf_table t \<Longrightarrow> record_hit b a t = Inr t' \<Longrightarrow> wf_table t'" for t a t'
    by (rule record_hit_Inr)
  show "wf_table t \<Longrightarrow> record_hit b a t = Inr t'
      \<Longrightarrow> count_at t' x = count_at t x + (if a = x then 1 else 0)" for t a t' x
    by (rule record_hit_Inr)
  show "wf_table t \<Longrightarrow> unat (count_at t a) + 1 < 2 ^ 64 \<Longrightarrow> \<exists>t'. record_hit b a t = Inr t'" for t a
    by (rule record_hit_ok)
  show "wf_table s \<Longrightarrow> wf_table t \<Longrightarrow> merge_table b s t = Inr t' \<Longrightarrow> wf_table t'" for s t t'
    using merge_table_Inr by blast
  show "wf_table s \<Longrightarrow> wf_table t \<Longrightarrow> merge_table b s t = Inr t'
      \<Longrightarrow> count_at t' x = count_at t x + count_at s x" for s t t' x
    using merge_table_Inr by blast
  show "wf_table s \<Longrightarrow> wf_table t \<Longrightarrow> (\<forall>x. unat (count_at t x) + unat (count_at s x) < 2 ^ 64)
      \<Longrightarrow> \<exists>t'. merge_table b s t = Inr t'" for s t
    by (rule merge_table_ok)
qed simp_all

section \<open>The sparse form\<close>

lemma sparse_page_snoc:
  "sparse_page (xs @ [x]) = (if exec_cnt x > 0
     then hm_insert (sparse_page xs) (of_nat (length xs)) x else sparse_page xs)"
  by (simp add: sparse_page_def enumerate_append_eq)

lemma sparse_page_get:
  "length xs \<le> 65536 \<Longrightarrow> hm_get (sparse_page xs) j =
     (if unat j < length xs \<and> exec_cnt (xs ! unat j) > 0 then Some (xs ! unat j) else None)"
proof (induction xs rule: rev_induct)
  case Nil
  then show ?case by (simp add: sparse_page_def)
next
  case (snoc x xs)
  have "j = of_nat (length xs) \<longleftrightarrow> unat j = length xs"
    using snoc.prems by (auto simp: unat_of_nat word_eq_iff_unsigned [where ?'a = nat])
  with snoc show ?case by (auto simp: sparse_page_snoc nth_append less_Suc_eq)
qed

lemma sparse_page_wf: "hm_wf (sparse_page xs)"
  by (induction xs rule: rev_induct) (auto simp: sparse_page_snoc, simp add: sparse_page_def)

lemma sparse_page_range:
  "length xs = 4096 \<Longrightarrow> (i, c) \<in> set (sparse_page xs) \<Longrightarrow> unat i < 4096 \<and> 0 < exec_cnt c"
  by (auto simp: hm_wf_map_of sparse_page_wf sparse_page_get split: if_splits)

definition insert_sparse :: "usize \<times> page_counts \<Rightarrow> sparse_table \<Rightarrow> sparse_table" where
  "insert_sparse = (\<lambda>(addr, x) d. hm_insert d addr (sparse_page x))"

lemma to_sparse_fold: "to_sparse t = fold insert_sparse t []"
  by (simp add: to_sparse_def insert_sparse_def)

lemma insert_sparse_fold_get:
  "hm_wf t \<Longrightarrow> hm_get (fold insert_sparse t d) k =
     (case hm_get t k of None \<Rightarrow> hm_get d k | Some x \<Rightarrow> Some (sparse_page x))"
  by (induction t arbitrary: d)
    (auto simp: insert_sparse_def map_of_eq_None_iff [symmetric] split: option.splits)

lemma insert_sparse_fold_wf: "hm_wf d \<Longrightarrow> hm_wf (fold insert_sparse t d)"
  by (induction t arbitrary: d) (auto simp: insert_sparse_def)

lemma to_sparse_wf:
  assumes wf: "wf_table t"
  shows "wf_sparse (to_sparse t)"
proof -
  have keys: "hm_wf (to_sparse t)"
    by (simp add: to_sparse_fold insert_sparse_fold_wf)
  have "page_of k = k \<and> hm_wf s \<and> (\<forall>(i, c) \<in> set s. unat i < 4096)"
    if "(k, s) \<in> set (to_sparse t)" for k s
  proof -
    have "hm_get (to_sparse t) k = Some s" by (rule map_of_is_SomeI [OF keys that])
    moreover have "hm_wf t" using wf by (simp add: wf_table_def)
    ultimately obtain x where x: "hm_get t k = Some x" "s = sparse_page x"
      using insert_sparse_fold_get [of t "[]" k]
      by (auto simp: to_sparse_fold split: option.splits)
    from wf_tableD [OF wf x(1)] x(2) show ?thesis
      by (auto simp: sparse_page_wf dest: sparse_page_range)
  qed
  with keys show ?thesis by (force simp: wf_sparse_def)
qed

lemma to_sparse_count: "wf_table t \<Longrightarrow> sparse_count_at (to_sparse t) a = count_at t a"
proof -
  assume wf: "wf_table t"
  have "unat (page_off a) < 65536" using page_off_less [of a] by linarith
  then have u: "unat (ucast (page_off a) :: u16) = unat (page_off a)"
    by (simp add: unsigned_ucast_eq take_bit_eq_mod)
  have get: "hm_get (to_sparse t) (page_of a) = map_option sparse_page (hm_get t (page_of a))"
    using insert_sparse_fold_get [of t "[]" "page_of a"] wf
    by (simp add: to_sparse_fold wf_table_def split: option.splits)
  show ?thesis
  proof (cases "hm_get t (page_of a)")
    case None
    with get show ?thesis by (simp add: sparse_count_at_def count_at_def)
  next
    case (Some x)
    with wf_tableD [OF wf Some] get show ?thesis
      by (auto simp: sparse_count_at_def count_at_def sparse_page_get u word_gt_0)
  qed
qed

lemma merge_sparse_Inr:
  assumes "merge_sparse b w t = Inr t'" and "wf_sparse w" and "wf_table t"
  shows "wf_table t' \<and> (\<forall>a. count_at t' a = count_at t a + sparse_count_at w a)"
  using assms
proof (induction w arbitrary: t)
  case Nil
  then show ?case by (simp add: merge_sparse_def sparse_count_at_def)
next
  case (Cons x w)
  obtain k s where x: "x = (k, s)" by (cases x)
  with Cons.prems(2) have ks: "wf_sparse w" "k \<notin> fst ` set w" "page_of k = k" "hm_wf s"
    by (simp_all add: wf_sparse_Cons)
  from Cons.prems(1) x obtain u
    where u: "add_to_page b k (sparse_incs s) t = Inr u" "merge_sparse b w u = Inr t'"
    by (auto simp: merge_sparse_def res_simps merge_sparse_page_add)
  note step = add_to_page_Inr [OF u(1) Cons.prems(3) ks(3)]
  have "gain (sparse_incs s) (unat (page_off a)) =
      (case hm_get s (ucast (page_off a)) of None \<Rightarrow> 0 | Some c \<Rightarrow> exec_cnt c)" for a
    using gain_sparse [OF ks(4), of "unat (page_off a)"] page_off_less [of a] by (simp add: off_u16)
  with Cons.IH [OF u(2) ks(1) step(1)] step(2) show ?case
    by (simp add: x sparse_count_at_Cons [OF ks(2)] add.assoc)
qed

lemma merge_sparse_ok:
  assumes "wf_sparse w" and "wf_table t"
    and "\<forall>a. unat (count_at t a) + unat (sparse_count_at w a) < 2 ^ 64"
  shows "\<exists>t'. merge_sparse b w t = Inr t'"
  using assms
proof (induction w arbitrary: t)
  case Nil
  then show ?case by (simp add: merge_sparse_def)
next
  case (Cons x w)
  obtain k s where x: "x = (k, s)" by (cases x)
  with Cons.prems(1) have ks: "wf_sparse w" "k \<notin> fst ` set w" "page_of k = k" "hm_wf s"
      "\<forall>(i, c) \<in> set s. unat i < 4096"
    by (simp_all add: wf_sparse_Cons)
  have zero: "sparse_count_at w a = 0" if "page_of a = k" for a
    using ks(2) that map_of_eq_None_iff [of w k] by (simp add: sparse_count_at_def)
  have g: "gain (sparse_incs s) (unat (page_off a)) = sparse_count_at (x # w) a" if "page_of a = k" for a
    using gain_sparse [OF ks(4), of "unat (page_off a)"] page_off_less [of a] that zero [OF that]
    by (simp add: off_u16 x sparse_count_at_Cons [OF ks(2)])
  have "unat (count_at t (k + of_nat j)) + ugain (sparse_incs s) j < 2 ^ 64" if j: "j < 4096" for j
    using Cons.prems(3) [rule_format, of "k + of_nat j"] page_of_add [OF ks(3) j] g [of "k + of_nat j"]
    by (simp add: ugain_distinct sparse_incs_wf ks(4))
  moreover have "\<forall>(i, n) \<in> set (sparse_incs s). i < 4096" using ks(5) by (auto simp: sparse_incs_def)
  ultimately obtain u where u: "add_to_page b k (sparse_incs s) t = Inr u"
    using add_to_page_ok [OF Cons.prems(2) ks(3)] by blast
  note step = add_to_page_Inr [OF u Cons.prems(2) ks(3)]
  have "unat (count_at u a) + unat (sparse_count_at w a) < 2 ^ 64" for a
  proof (cases "page_of a = k")
    case True
    then show ?thesis using unsigned_less [of "count_at u a"] by (simp add: zero)
  next
    case False
    then show ?thesis using Cons.prems(3) [rule_format, of a]
      by (simp add: step(2) x sparse_count_at_Cons [OF ks(2)])
  qed
  with Cons.IH [OF ks(1) step(1)] u show ?case
    by (auto simp: merge_sparse_def x merge_sparse_page_add)
qed

lemma bumps_out_of_bounds:
  "(\<exists>(i, n) \<in> set xs. length p \<le> i) \<Longrightarrow> bumps Release xs p = Inl OutOfBounds"
proof (induction xs arbitrary: p)
  case Nil
  then show ?case by simp
next
  case (Cons x xs)
  obtain i n where x: "x = (i, n)" by (cases x)
  show ?case
  proof (cases "i < length p")
    case True
    then obtain r where r: "bump Release i n p = Inr r" by (simp add: bump_def index_at_def update_at_def)
    with Cons x True bump_Inr(2) [OF r] show ?thesis by (auto simp: bumps_def)
  next
    case False
    with x show ?thesis by (simp add: bumps_def bump_def index_at_def)
  qed
qed

section \<open>Properties\<close>

lemma post_thread_concat: "post_thread b msgs t = res_fold (record_hit b) (concat msgs) t"
proof (induction msgs arbitrary: t)
  case (Cons m ms)
  then show ?case
    by (cases "res_fold (record_hit b) m t") (auto simp: post_thread_def res_fold_append)
qed (simp add: post_thread_def)

text \<open>
  C12: started on an empty table, the post thread ends without a panic in
  either build, and its table holds for every address how often that address occurs in the
  instruction blocks it received, in whatever blocks they came.
\<close>

theorem post_thread_exact:
  assumes "length (concat msgs) < 2 ^ 64"
  shows "\<exists>t. post_thread b msgs [] = Inr t \<and> wf_table t
     \<and> (\<forall>a. unat (count_at t a) = count_list (concat msgs) a)"
proof -
  have "\<forall>x. unat (count_at [] x) + count_list (concat msgs) x < 2 ^ 64"
    using assms count_le_length [of "concat msgs"] by (auto intro: le_less_trans)
  from table.hits_exact [OF wf_table_Nil this] show ?thesis by (simp add: post_thread_concat)
qed

theorem post_thread_exact_witness:
  "\<exists>t. post_thread Debug [[0x401003, 0x402000], [0x401003]] [] = Inr t
     \<and> unat (count_at t 0x401003) = 2 \<and> unat (count_at t 0x402000) = 1 \<and> count_at t 0x401004 = 0"
proof -
  have "length (concat [[0x401003, 0x402000], [0x401003 :: u64]]) < 2 ^ 64" by simp
  from post_thread_exact [OF this, of Debug] obtain t where
    "post_thread Debug [[0x401003, 0x402000], [0x401003]] [] = Inr t"
    "\<forall>a. unat (count_at t a) = count_list [0x401003, 0x402000, 0x401003] a" by auto
  moreover from this(2) [rule_format, of "0x401004"] have "count_at t 0x401004 = 0"
    by (simp add: word_eq_iff_unsigned [where ?'a = nat])
  ultimately show ?thesis by auto
qed

text \<open>
  Also: merging a table into another adds their counts at every address and
  keeps the pages aligned and complete; it cannot panic while every sum fits 64 bits.
\<close>

theorem merge_table_exact:
  assumes "wf_table s" and "wf_table t"
    and "\<forall>a. unat (count_at t a) + unat (count_at s a) < 2 ^ 64"
  shows "\<exists>t'. merge_table b s t = Inr t' \<and> wf_table t'
     \<and> (\<forall>a. unat (count_at t' a) = unat (count_at t a) + unat (count_at s a))"
  using table.merges_exact [of t "[s]" b] assms by (auto simp: res_simps)

theorem merge_table_exact_witness:
  "\<exists>t'. merge_table Debug [(0x1000, zero_page)] [] = Inr t' \<and> count_at t' 0x1008 = 0"
proof -
  have s: "wf_table [(0x1000, zero_page)]" by (simp add: wf_table_def page_of_def)
  have z: "count_at [(0x1000, zero_page)] a = 0" for a by (simp add: count_at_def)
  from merge_table_exact [OF s wf_table_Nil, of Debug] show ?thesis
    by (auto simp: z word_eq_iff_unsigned [where ?'a = nat])
qed

text \<open>
  C13: the sparse form that a decoding client sends loses nothing: merged
  into an empty table it gives back the count of every address, without a panic.
\<close>

theorem sparse_roundtrip:
  assumes "wf_table t"
  shows "\<exists>t'. merge_sparse b (to_sparse t) [] = Inr t' \<and> wf_table t'
     \<and> (\<forall>a. count_at t' a = count_at t a)"
proof -
  have "\<forall>a. unat (count_at [] a) + unat (sparse_count_at (to_sparse t) a) < 2 ^ 64"
    by (auto simp: unsigned_less [where ?'b = 64, simplified])
  then obtain t' where t': "merge_sparse b (to_sparse t) [] = Inr t'"
    using merge_sparse_ok [OF to_sparse_wf [OF assms] wf_table_Nil] by blast
  with merge_sparse_Inr [OF t' to_sparse_wf [OF assms] wf_table_Nil] to_sparse_count [OF assms]
  show ?thesis by simp
qed

theorem sparse_roundtrip_witness:
  "\<exists>t'. merge_sparse Debug (to_sparse [(0x1000, zero_page)]) [] = Inr t' \<and> count_at t' 0x1008 = 0"
proof -
  have s: "wf_table [(0x1000, zero_page)]" by (simp add: wf_table_def page_of_def)
  from sparse_roundtrip [OF s, of Debug] show ?thesis by (auto simp: count_at_def)
qed

text \<open>
  Also: the server trusts the offsets of a client's result: a page with an
  offset of 4096 or more, which the wire type admits, panics with an index out of bounds.
\<close>

theorem sparse_bad_index:
  assumes "wf_table t" and "(i, c) \<in> set insn" and "4096 \<le> unat i"
  shows "merge_sparse_page Release (page, insn) t = Inl OutOfBounds"
proof -
  have "\<exists>(i, n) \<in> set (sparse_incs insn). length (page_at t page) \<le> i"
    using assms by (force simp: sparse_incs_def page_at_length)
  from bumps_out_of_bounds [OF this] show ?thesis
    by (simp add: merge_sparse_page_add add_to_page_def)
qed

theorem sparse_bad_index_witness:
  "merge_sparse_page Release (0x1000, [(4096, \<lparr>exec_cnt = 1\<rparr>)]) [] = Inl OutOfBounds"
  by (rule sparse_bad_index [where i = 4096 and c = "\<lparr>exec_cnt = 1\<rparr>"]) simp_all

end
