(* ===== verification/PtCtrl.thy ===== *)
theory PtCtrl
  imports Prelude
begin

text \<open>
  The requests to the trace driver (\<open>src/src/pt_ctrl/mod.rs\<close>): reading and writing another
  process's memory, announcing the host process and starting the trace. The structures that
  cross the boundary are records in the order of the code's \<open>repr(C)\<close> declarations.

  The driver and the Windows API are not part of the repository: \<open>DeviceIoControl\<close> and the
  \<open>CTL_CODE\<close> macro of the \<open>winapi\<close> crate are parameters of the model. A call of the driver
  changes a world \<open>'w\<close> and answers with the API's return value, the bytes it stored through
  the request's buffer pointer, its response structure and the number of bytes returned.
\<close>

definition MAX_CPU_NUM :: nat where
  "MAX_CPU_NUM = 32"

section \<open>Structures\<close>

record PtCopyMemReq =
  localbuf :: u64
  target_ptr :: u64
  req_len :: u64
  req_pid :: u64
  write_op :: u64

record EnventInfo =
  event_idx :: u64
  event_handle :: u64

record AddrRange =
  addr_n_a :: u64
  addr_n_b :: u64
  cfg_mode :: u64

definition AddrRange_new :: AddrRange where
  "AddrRange_new = \<lparr>addr_n_a = 0, addr_n_b = 0, cfg_mode = 0\<rparr>"

record PtSetupInfo =
  setup_pid :: u32
  buff_size :: u32
  mtc_freq :: u32
  ret_compress :: u32
  cyc_thld :: u32
  psb_freq :: u32
  event_num :: u32
  no_pmi :: u32
  event_info :: "EnventInfo list"
  addrs_cfg :: "AddrRange list"

record PtSetupRst =
  setup_rst :: u32
  record_num :: u32
  record_info :: "u64 list"
  out_buff_num :: u32
  out_buffer_info :: "u64 list"
  out_buffer_len :: u32

definition PtSetupRst_default :: PtSetupRst where
  "PtSetupRst_default = \<lparr>setup_rst = 0, record_num = 0, record_info = replicate MAX_CPU_NUM 0,
     out_buff_num = 0, out_buffer_info = replicate MAX_CPU_NUM 0, out_buffer_len = 0\<rparr>"

text \<open>
  \<open>size_of\<close> of a \<open>repr(C)\<close> structure: each field, given by its size and alignment, at the
  next multiple of its alignment, the whole rounded up to the largest alignment.
\<close>

definition round_up :: "nat \<Rightarrow> nat \<Rightarrow> nat" where
  "round_up n a = (n + a - 1) div a * a"

definition size_of :: "(nat \<times> nat) list \<Rightarrow> nat" where
  "size_of fs = round_up (foldl (\<lambda>off (s, a). round_up off a + s) 0 fs)
     (foldl max 1 (map snd fs))"

abbreviation c_u32 :: "nat \<times> nat" where "c_u32 \<equiv> (4, 4)"
abbreviation c_u64 :: "nat \<times> nat" where "c_u64 \<equiv> (8, 8)"
abbreviation c_array :: "nat \<Rightarrow> nat \<Rightarrow> nat \<Rightarrow> nat \<times> nat" where "c_array n s a \<equiv> (n * s, a)"

definition size_PtCopyMemReq :: nat where
  "size_PtCopyMemReq = size_of [c_u64, c_u64, c_u64, c_u64, c_u64]"

definition size_PtSetupServerPid :: nat where
  "size_PtSetupServerPid = size_of [c_u32]"

definition size_PtSetupServerPidRsp :: nat where
  "size_PtSetupServerPidRsp = size_of [c_u32]"

definition size_EnventInfo :: nat where
  "size_EnventInfo = size_of [c_u64, c_u64]"

definition size_AddrRange :: nat where
  "size_AddrRange = size_of [c_u64, c_u64, c_u64]"

definition size_PtSetupInfo :: nat where
  "size_PtSetupInfo = size_of (replicate 8 c_u32 @
     [c_array MAX_CPU_NUM size_EnventInfo 8, c_array 4 size_AddrRange 8])"

definition size_PtSetupRst :: nat where
  "size_PtSetupRst = size_of [c_u32, c_u32, c_array MAX_CPU_NUM 8 8, c_u32,
     c_array MAX_CPU_NUM 8 8, c_u32]"

section \<open>The driver\<close>

datatype drv_req =
    CopyMem PtCopyMemReq
  | ServerPid u32
  | Setup PtSetupInfo

datatype drv_rsp =
    NoRsp
  | PidRsp u32
  | SetupRsp PtSetupRst

record ioctl_out =
  io_ret :: "32 word"
  io_mem :: bytes
  io_rsp :: drv_rsp
  io_len :: u32

text \<open>Arguments: handle, control code, request, its size, the size of the response buffer.\<close>

type_synonym 'w ioctl = "u64 \<Rightarrow> u32 \<Rightarrow> drv_req \<Rightarrow> nat \<Rightarrow> nat \<Rightarrow> 'w \<Rightarrow> ioctl_out \<times> 'w"

text \<open>What the driver stored at the start of a buffer; past its end it corrupts memory.\<close>

definition store :: "bytes \<Rightarrow> bytes \<Rightarrow> bytes res" where
  "store xs buf = (if length xs \<le> length buf then Inr (xs @ drop (length xs) buf)
                   else Inl BufferOverrun)"

section \<open>Operations\<close>

text \<open>
  The results are \<open>Err\<close>'s code or \<open>Ok\<close>, the buffer after the call and the world. The code
  passes the buffer as a pointer \<open>buf_ptr\<close> in the request.
\<close>

definition read_process_memory_drv ::
    "(u32 \<Rightarrow> u32) \<Rightarrow> 'w ioctl \<Rightarrow> u64 \<Rightarrow> u32 \<Rightarrow> u64 \<Rightarrow> u16 \<Rightarrow> u64 \<times> bytes \<Rightarrow> 'w
     \<Rightarrow> ((u32 + unit) \<times> bytes \<times> 'w) res" where
  "read_process_memory_drv ctl_code ioctl h pid address len = (\<lambda>(buf_ptr, ouput_buff) w.
     let code = ctl_code 0x1002;
         read_req = \<lparr>localbuf = buf_ptr, target_ptr = address, req_len = ucast len,
                     req_pid = ucast pid, write_op = 0\<rparr>;
         (out, w') = ioctl h code (CopyMem read_req) size_PtCopyMemReq 0 w
     in res_bind (store (io_mem out) ouput_buff) (\<lambda>buf'.
        Inr (if io_ret out \<noteq> 0 then Inr () else Inl (io_len out), buf', w')))"

definition write_process_memory_drv ::
    "(u32 \<Rightarrow> u32) \<Rightarrow> 'w ioctl \<Rightarrow> u64 \<Rightarrow> u32 \<Rightarrow> u64 \<Rightarrow> u64 \<times> bytes \<Rightarrow> 'w
     \<Rightarrow> (u32 + unit) \<times> 'w" where
  "write_process_memory_drv ctl_code ioctl h pid address = (\<lambda>(buf_ptr, buff) w.
     let code = ctl_code 0x1002;
         read_req = \<lparr>localbuf = buf_ptr, target_ptr = address, req_len = of_nat (length buff),
                     req_pid = ucast pid, write_op = 1\<rparr>;
         (out, w') = ioctl h code (CopyMem read_req) size_PtCopyMemReq 0 w
     in (if io_ret out \<noteq> 0 then Inr () else Inl (io_len out), w'))"

definition setup_host_pid ::
    "(u32 \<Rightarrow> u32) \<Rightarrow> 'w ioctl \<Rightarrow> u64 \<Rightarrow> u32 \<Rightarrow> 'w \<Rightarrow> (u32 + unit) \<times> 'w" where
  "setup_host_pid ctl_code ioctl h pid w =
     (let code = ctl_code 0x1000;
          (out, w') = ioctl h code (ServerPid pid) size_PtSetupServerPid size_PtSetupServerPidRsp w;
          rsp_rst = (case io_rsp out of PidRsp r \<Rightarrow> r | _ \<Rightarrow> 0)
      in (if io_ret out \<noteq> 0 \<and> of_nat size_PtSetupServerPidRsp = io_len out \<and> rsp_rst = 0
          then Inr () else Inl (io_len out), w'))"

definition setup_pt_no_pmi_start ::
    "(u32 \<Rightarrow> u32) \<Rightarrow> 'w ioctl \<Rightarrow> u64 \<Rightarrow> u32 \<Rightarrow> u32 \<Rightarrow> u32 \<Rightarrow> u32 \<Rightarrow> u32 \<Rightarrow> u32 \<Rightarrow> u32 \<Rightarrow> u32
     \<Rightarrow> PtSetupRst \<Rightarrow> 'w \<Rightarrow> (u32 + unit) \<times> PtSetupRst \<times> 'w" where
  "setup_pt_no_pmi_start ctl_code ioctl h pid buff_sz mtc psb cyc addr_cfg addr_start addr_end rsp w =
     (let setup_info = \<lparr>setup_pid = pid, buff_size = buff_sz, mtc_freq = mtc, ret_compress = 0,
            cyc_thld = cyc, psb_freq = psb, event_num = 16, no_pmi = 1,
            event_info = replicate MAX_CPU_NUM \<lparr>event_idx = 0, event_handle = 0\<rparr>,
            addrs_cfg = [\<lparr>addr_n_a = ucast addr_start, addr_n_b = ucast addr_end,
                          cfg_mode = ucast addr_cfg\<rparr>,
                         AddrRange_new, AddrRange_new, AddrRange_new]\<rparr>;
          code = ctl_code 0x999;
          (out, w') = ioctl h code (Setup setup_info) size_PtSetupInfo size_PtSetupRst w;
          rsp' = (case io_rsp out of SetupRsp r \<Rightarrow> r | _ \<Rightarrow> rsp)
      in (if io_ret out \<noteq> 0 \<and> unat (io_len out) = size_PtSetupRst then Inr ()
          else Inl (io_len out), rsp', w'))"

text \<open>
  Opening and closing the device; \<open>MultiByteToWideChar\<close> (from the name and the size of the
  output, the number of characters and the characters), \<open>CreateFileW\<close>, \<open>CloseHandle\<close> and
  \<open>GetLastError\<close> are parameters.
\<close>

definition get_pt_handle ::
    "(string \<Rightarrow> nat \<Rightarrow> nat \<times> u16 list) \<Rightarrow> (u16 list \<Rightarrow> u64) \<Rightarrow> u32 \<Rightarrow> u64 \<Rightarrow> string
     \<Rightarrow> (u32 + u64) res" where
  "get_pt_handle multi_byte_to_wide_char create_file last_error INVALID_HANDLE_VALUE pt_device =
     (let len = fst (multi_byte_to_wide_char pt_device 0);
          tmp = replicate (len + 1) 0;
          chars = snd (multi_byte_to_wide_char pt_device len)
      in if length chars > length tmp then Inl BufferOverrun
         else let r = create_file (chars @ drop (length chars) tmp)
              in Inr (if r = INVALID_HANDLE_VALUE then Inl last_error else Inr r))"

definition close_pt_handle :: "(u64 \<Rightarrow> 32 word) \<Rightarrow> u32 \<Rightarrow> u64 \<Rightarrow> u32 + unit" where
  "close_pt_handle close_handle last_error handle =
     (let r = close_handle handle in if r \<noteq> 0 then Inr () else Inl last_error)"

section \<open>What a driver promises\<close>

text \<open>
  \<open>drv_reads ioctl mem\<close>: a successful read request stores exactly the requested bytes of
  the process's memory, and an unsuccessful one stores nothing. \<open>mem\<close> maps a process and an
  address to a byte.
\<close>

definition mem_bytes :: "(u64 \<Rightarrow> u8) \<Rightarrow> u64 \<Rightarrow> nat \<Rightarrow> bytes" where
  "mem_bytes mem a n = map (\<lambda>i. mem (a + of_nat i)) [0..<n]"

definition drv_reads :: "(u32 \<Rightarrow> u32) \<Rightarrow> 'w ioctl \<Rightarrow> (u64 \<Rightarrow> u64 \<Rightarrow> u8) \<Rightarrow> bool" where
  "drv_reads ctl_code ioctl mem \<longleftrightarrow> (\<forall>h req isz osz w out w'.
     write_op req = 0 \<longrightarrow> ioctl h (ctl_code 0x1002) (CopyMem req) isz osz w = (out, w') \<longrightarrow>
     (if io_ret out \<noteq> 0
      then io_mem out = mem_bytes (mem (req_pid req)) (target_ptr req) (unat (req_len req))
      else io_mem out = []))"

lemma mem_bytes_length [simp]: "length (mem_bytes mem a n) = n"
  by (simp add: mem_bytes_def)

lemma mem_bytes_nth [simp]: "i < n \<Longrightarrow> mem_bytes mem a n ! i = mem (a + of_nat i)"
  by (simp add: mem_bytes_def)

lemma mem_bytes_0 [simp]: "mem_bytes mem a 0 = []"
  by (simp add: mem_bytes_def)

lemma mem_bytes_append: "mem_bytes mem a m @ mem_bytes mem (a + of_nat m) n = mem_bytes mem a (m + n)"
  by (rule nth_equalityI) (auto simp: nth_append add.assoc of_nat_add [symmetric] simp del: of_nat_add)

lemma mem_bytes_take_drop:
  "i + n \<le> m \<Longrightarrow> take n (drop i (mem_bytes mem a m)) = mem_bytes mem (a + of_nat i) n"
  by (rule nth_equalityI) (auto simp: add.assoc)

lemma drv_readsD:
  assumes "drv_reads ctl_code ioctl mem" and "write_op req = 0"
    and "ioctl h (ctl_code 0x1002) (CopyMem req) isz osz w = (out, w')"
  shows "if io_ret out \<noteq> 0
      then io_mem out = mem_bytes (mem (req_pid req)) (target_ptr req) (unat (req_len req))
      else io_mem out = []"
  using assms unfolding drv_reads_def by blast

text \<open>A read request never gives a buffer more bytes than the length it asked for.\<close>

lemma read_process_memory_drv_Inr:
  assumes "drv_reads ctl_code ioctl mem"
    and "read_process_memory_drv ctl_code ioctl h pid address len (ptr, buf) w = Inr (r, buf', w')"
  shows "r = Inr () \<Longrightarrow> buf' = mem_bytes (mem (ucast pid)) address (unat len) @ drop (unat len) buf"
    and "r = Inl e \<Longrightarrow> buf' = buf"
    and "length buf' = length buf"
proof -
  define req where "req = \<lparr>localbuf = ptr, target_ptr = address, req_len = ucast len,
    req_pid = ucast pid, write_op = 0\<rparr>"
  obtain out w2 where io: "ioctl h (ctl_code 0x1002) (CopyMem req) size_PtCopyMemReq 0 w = (out, w2)"
    by fastforce
  have "unat len < 65536" using unsigned_less [of len] by simp
  then have len: "unat (ucast len :: u64) = unat len"
    by (simp add: unsigned_ucast_eq take_bit_eq_mod)
  have "write_op req = 0" by (simp add: req_def)
  from drv_readsD [OF assms(1) this io] have mem: "if io_ret out \<noteq> 0
      then io_mem out = mem_bytes (mem (ucast pid)) address (unat len) else io_mem out = []"
    by (simp add: req_def len)
  from assms(2) io have b: "store (io_mem out) buf = Inr buf'"
    and r: "r = (if io_ret out \<noteq> 0 then Inr () else Inl (io_len out))"
    by (auto simp: read_process_memory_drv_def req_def Let_def res_simps)
  show "r = Inr () \<Longrightarrow> buf' = mem_bytes (mem (ucast pid)) address (unat len) @ drop (unat len) buf"
    and "r = Inl e \<Longrightarrow> buf' = buf" and "length buf' = length buf"
    using mem b r by (auto simp: store_def split: if_splits)
qed

lemma read_process_memory_drv_ok:
  assumes "drv_reads ctl_code ioctl mem" and "unat len \<le> length buf"
  shows "\<exists>x. read_process_memory_drv ctl_code ioctl h pid address len (ptr, buf) w = Inr x"
proof -
  define req where "req = \<lparr>localbuf = ptr, target_ptr = address, req_len = ucast len,
    req_pid = ucast pid, write_op = 0\<rparr>"
  obtain out w2 where io: "ioctl h (ctl_code 0x1002) (CopyMem req) size_PtCopyMemReq 0 w = (out, w2)"
    by fastforce
  have "unat len < 65536" using unsigned_less [of len] by simp
  then have len: "unat (ucast len :: u64) = unat len"
    by (simp add: unsigned_ucast_eq take_bit_eq_mod)
  have "write_op req = 0" by (simp add: req_def)
  from drv_readsD [OF assms(1) this io] have "length (io_mem out) \<le> unat len"
    by (auto simp: req_def len split: if_splits)
  with assms(2) io show ?thesis
    by (simp add: read_process_memory_drv_def req_def Let_def store_def)
qed

section \<open>Properties\<close>

text \<open>
  Also: the structures sent to the driver have the sizes of their C layout: 40
  bytes for a memory request, 640 for a setup request, and 536 for its response, which the
  start of the trace insists on (four bytes of padding precede the buffer addresses, and four
  more follow the length).
\<close>

theorem request_layout:
  "size_PtCopyMemReq = 40 \<and> size_PtSetupServerPid = 4 \<and> size_PtSetupServerPidRsp = 4
   \<and> size_PtSetupInfo = 640 \<and> size_PtSetupRst = 536"
  by code_simp

end
