(* ===== verification/Capture.thy ===== *)
theory Capture
  imports PtCtrl
begin

text \<open>
  Reading the trace buffers (\<open>fetch_data\<close> and the loop of \<open>setup_pt_no_pmi\<close> in
  \<open>src/src/pt_ctrl/mod.rs\<close>). The driver maps one ring of bytes per CPU; the hardware
  writes it, the reader marks what it has read with \<open>0xFF\<close> and takes ten bytes of
  \<open>0xFF\<close> in a row for the end of the data.

  A mapped buffer is the list of its bytes, as long as the length the driver reported.
  Positions and lengths are natural numbers: they stay below \<open>2 ^ 33\<close> (a ring has a 32-bit
  length, the scratch buffer 819200 bytes), so no \<open>usize\<close> operation here overflows. The
  hardware writes while the reader reads; the model lets it write between two calls of
  \<open>fetch_data\<close>, and takes one call as a step of its own.
\<close>

section \<open>Reading one ring\<close>

fun scan_valid :: "bytes \<Rightarrow> nat \<Rightarrow> nat list \<Rightarrow> bool res" where
  "scan_valid buff p [] = Inr False"
| "scan_valid buff p (j # js) =
     (if length buff = 0 then Inl RemByZero
      else if buff ! ((p + j) mod length buff) \<noteq> 0xFF then Inr True
      else scan_valid buff p js)"

text \<open>
  The loop over \<open>i\<close>; the second number is how many iterations are left. The result is the
  number of bytes read, the output buffer and the ring.
\<close>

fun fetch_loop :: "nat \<Rightarrow> nat \<Rightarrow> nat \<Rightarrow> bytes \<Rightarrow> bytes \<Rightarrow> nat \<Rightarrow> (nat \<times> bytes \<times> bytes) res" where
  "fetch_loop pos i 0 buff out_buff rst_size = Inr (rst_size, out_buff, buff)"
| "fetch_loop pos i (Suc n) buff out_buff rst_size =
     res_bind (scan_valid buff (pos + i) [0..<10]) (\<lambda>is_valid.
     if \<not> is_valid then Inr (rst_size, out_buff, buff)
     else let offset = (i + pos) mod length buff in
       res_bind (update_at out_buff i (buff ! offset)) (\<lambda>out_buff'.
       fetch_loop pos (Suc i) n (buff[offset := 0xFF]) out_buff' (rst_size + 1)))"

definition fetch_data :: "bytes \<Rightarrow> nat \<Rightarrow> bytes \<Rightarrow> (nat \<times> bytes \<times> bytes) res" where
  "fetch_data buff pos out_buff = fetch_loop pos 0 (length out_buff) buff out_buff 0"

section \<open>The reference: bytes in ring order\<close>

text \<open>
  \<open>avail v\<close> is how many bytes of \<open>v\<close>, the ring read from the current position, come before
  the first ten bytes (or the rest, if shorter) that are all \<open>0xFF\<close>.
\<close>

fun avail :: "bytes \<Rightarrow> nat" where
  "avail [] = 0"
| "avail (x # xs) = (if list_all (\<lambda>y. y = 0xFF) (take 10 (x # xs)) then 0 else Suc (avail xs))"

lemma avail_length: "avail v \<le> length v"
  by (induction v) auto

lemma avail_all_blank: "\<forall>y \<in> set v. y = 0xFF \<Longrightarrow> avail v = 0"
  by (cases v) (auto simp: list_all_iff dest: in_set_takeD)

lemma avail_append_blank: "avail (xs @ replicate k 0xFF) \<le> length xs"
proof (induction xs)
  case Nil
  then show ?case by (simp add: avail_all_blank)
qed simp

text \<open>A stream is readable when no ten bytes of it in a row are blank and it ends in a byte
  that is not; then all of it is available.\<close>

fun readable :: "bytes \<Rightarrow> bool" where
  "readable [] = True"
| "readable (x # xs) \<longleftrightarrow> \<not> list_all (\<lambda>y. y = 0xFF) (take 10 (x # xs)) \<and> readable xs"

lemma avail_readable:
  "readable xs \<Longrightarrow> avail (xs @ replicate k 0xFF) = length xs"
proof (induction xs)
  case Nil
  then show ?case by (simp add: avail_all_blank)
next
  case (Cons x xs)
  have "\<not> list_all (\<lambda>y. y = 0xFF) (take 10 ((x # xs) @ replicate k 0xFF))"
    using Cons.prems by (auto simp: list_all_iff take_append simp del: append_Cons take_Cons_numeral)
  with Cons show ?case by (simp del: take_Cons_numeral)
qed

section \<open>Rotated rings\<close>

lemma rotate_nth_mod:
  "k < length xs \<Longrightarrow> rotate p xs ! k = xs ! ((p + k) mod length xs)"
  by (simp add: nth_rotate)

lemma mod_add_cancel_less:
  fixes p i k n :: nat
  assumes "(p + i) mod n = (p + k) mod n" and "i < n" and "k < n"
  shows "i = k"
proof -
  have half: "i = k" if "(p + i) mod n = (p + k) mod n" "i < n" "k < n" "i \<le> k" for i k
  proof -
    from that have "n dvd (p + k) - (p + i)" by (subst mod_eq_dvd_iff_nat [symmetric]) auto
    then have "n dvd k - i" by simp
    with that show ?thesis using nat_dvd_not_less [of "k - i" n] by linarith
  qed
  show ?thesis using half [of i k] half [of k i] assms by (cases "i \<le> k") auto
qed

lemma rotate_update:
  assumes "i < length xs"
  shows "rotate p (xs[(p + i) mod length xs := x]) = (rotate p xs)[i := x]"
proof (rule nth_equalityI)
  fix k assume "k < length (rotate p (xs[(p + i) mod length xs := x]))"
  then have k: "k < length xs" by simp
  then have "(p + k) mod length xs < length xs" by (intro mod_less_divisor) linarith
  moreover have "(p + i) mod length xs = (p + k) mod length xs \<longleftrightarrow> i = k"
    using mod_add_cancel_less [OF _ assms k] by auto
  ultimately show "rotate p (xs[(p + i) mod length xs := x]) ! k = (rotate p xs)[i := x] ! k"
    using assms k by (simp add: nth_rotate nth_list_update)
qed simp

lemma ring_nth:
  assumes "length buff > 0"
  shows "buff ! ((p + x) mod length buff) = rotate p buff ! (x mod length buff)"
proof -
  have "x mod length buff < length buff" using assms by (rule mod_less_divisor)
  then show ?thesis by (simp add: nth_rotate mod_add_right_eq)
qed

section \<open>\<open>fetch_data\<close> against the reference\<close>

lemma scan_valid_iff:
  "length buff > 0 \<Longrightarrow>
     scan_valid buff p js = Inr (\<exists>j \<in> set js. buff ! ((p + j) mod length buff) \<noteq> 0xFF)"
  by (induction js) auto

lemma blank_prefix_window:
  assumes v: "v = replicate i 0xFF @ w" and pos: "length v > 0" and i: "i \<le> length v"
  shows "(\<exists>j \<in> set [0..<10]. v ! ((i + j) mod length v) \<noteq> 0xFF)
     \<longleftrightarrow> \<not> list_all (\<lambda>y. y = (0xFF :: u8)) (take 10 w)"
proof
  assume "\<exists>j \<in> set [0..<10]. v ! ((i + j) mod length v) \<noteq> 0xFF"
  then obtain j where j: "j < 10" "v ! ((i + j) mod length v) \<noteq> 0xFF" by auto
  define k where "k = (i + j) mod length v"
  have k: "k < length v" "k \<le> i + j" using pos by (simp_all add: k_def)
  have vk: "v ! k \<noteq> 0xFF" using j(2) by (simp only: k_def not_False_eq_True)
  have "i \<le> k"
  proof (rule ccontr)
    assume "\<not> i \<le> k"
    with vk v show False by (simp add: nth_append)
  qed
  with vk v have "w ! (k - i) \<noteq> 0xFF" by (simp add: nth_append)
  moreover have "k - i < 10" "k - i < length w" using k j(1) v \<open>i \<le> k\<close> by auto
  ultimately show "\<not> list_all (\<lambda>y. y = (0xFF :: u8)) (take 10 w)"
    by (auto simp: list_all_length)
next
  assume "\<not> list_all (\<lambda>y. y = (0xFF :: u8)) (take 10 w)"
  then obtain j where j: "j < 10" "j < length w" "w ! j \<noteq> 0xFF" by (auto simp: list_all_length)
  with v have "v ! ((i + j) mod length v) \<noteq> 0xFF" by (simp add: nth_append)
  with j(1) show "\<exists>j \<in> set [0..<10]. v ! ((i + j) mod length v) \<noteq> 0xFF" by force
qed

lemma scan_valid_window:
  assumes "rotate pos buff = replicate i 0xFF @ w" and "length buff > 0"
  shows "scan_valid buff (pos + i) [0..<10] = Inr (\<not> list_all (\<lambda>y. y = 0xFF) (take 10 w))"
proof -
  have "i \<le> length (rotate pos buff)" by (simp add: assms(1))
  from blank_prefix_window [OF assms(1) _ this] show ?thesis
    using assms(2) ring_nth [OF assms(2), of pos] by (simp add: scan_valid_iff add.assoc)
qed

lemma fetch_loop_spec:
  assumes "rotate pos buff = replicate i 0xFF @ w" and "length out = i + n" and "length buff > 0"
  shows "\<exists>buff'. fetch_loop pos i n buff out i =
        Inr (i + min (avail w) n, take i out @ take (min (avail w) n) w
               @ drop (i + min (avail w) n) out, buff')
     \<and> length buff' = length buff
     \<and> rotate pos buff' = replicate (i + min (avail w) n) 0xFF @ drop (min (avail w) n) w"
  using assms
proof (induction n arbitrary: i buff out w)
  case 0
  then show ?case by simp
next
  case (Suc n)
  note scan = scan_valid_window [OF Suc.prems(1,3)]
  show ?case
  proof (cases "list_all (\<lambda>y. y = 0xFF) (take 10 w)")
    case True
    then have "avail w = 0" by (cases w) auto
    with True scan Suc.prems show ?thesis by simp
  next
    case False
    then obtain x w' where w: "w = x # w'" by (cases w) auto
    with False have av: "avail w = Suc (avail w')" by simp
    have len: "length buff = i + Suc (length w')"
      using Suc.prems(1) w by (metis length_append length_replicate length_rotate length_Cons)
    have off: "(i + pos) mod length buff = (pos + i) mod length buff" by (simp add: add.commute)
    have x: "buff ! ((pos + i) mod length buff) = x"
      using ring_nth [OF Suc.prems(3), of pos i] Suc.prems(1) w len by (simp add: nth_append)
    have "rotate pos (buff[(pos + i) mod length buff := 0xFF]) = (replicate i 0xFF @ w)[i := 0xFF]"
      using rotate_update [of i buff pos "0xFF"] len Suc.prems(1) by simp
    then have rot: "rotate pos (buff[(pos + i) mod length buff := 0xFF]) = replicate (Suc i) 0xFF @ w'"
      by (simp add: w list_update_append replicate_append_same [symmetric])
    have "i < length out" using Suc.prems(2) by simp
    then have out: "take (Suc i) (out[i := x]) = take i out @ [x]"
      "\<And>m. drop (Suc i + m) (out[i := x]) = drop (Suc i + m) out"
      by (simp_all add: take_Suc_conv_app_nth)
    from Suc.IH [OF rot, of "out[i := x]"] Suc.prems(2,3) obtain buff' where
      "fetch_loop pos (Suc i) n (buff[(pos + i) mod length buff := 0xFF]) (out[i := x]) (Suc i) =
        Inr (Suc i + min (avail w') n, take (Suc i) (out[i := x]) @ take (min (avail w') n) w'
               @ drop (Suc i + min (avail w') n) (out[i := x]), buff')"
      "length buff' = length buff"
      "rotate pos buff' = replicate (Suc i + min (avail w') n) 0xFF @ drop (min (avail w') n) w'"
      by auto
    with scan False x \<open>i < length out\<close> show ?thesis
      by (simp add: off update_at_def av out) (simp add: w)
  qed
qed

text \<open>The ring read from the current position: what a fetch delivers and what it leaves.\<close>

lemma fetch_data_spec:
  assumes "length buff > 0"
  shows "\<exists>buff'. fetch_data buff pos out =
        (let v = rotate pos buff; m = min (avail v) (length out) in
           Inr (m, take m v @ drop m out, buff'))
     \<and> length buff' = length buff
     \<and> rotate pos buff' = (let v = rotate pos buff; m = min (avail v) (length out) in
          replicate m 0xFF @ drop m v)"
  using fetch_loop_spec [of pos buff 0 "rotate pos buff" out "length out"] assms
  by (simp add: fetch_data_def Let_def)

lemma fetch_data_empty_ring: "out \<noteq> [] \<Longrightarrow> fetch_data [] pos out = Inl RemByZero"
  by (cases out) (simp_all add: fetch_data_def upt_rec)

section \<open>A ring as a byte channel\<close>

text \<open>
  The interface between the tracing hardware and the reader: bytes are put at one end and
  taken at the other, \<open>pending\<close> is what is in between.
\<close>

datatype chan_event = Put u8 | Get

fun chan_run :: "(u8 \<Rightarrow> 's \<Rightarrow> 's) \<Rightarrow> ('s \<Rightarrow> (bytes \<times> 's) res) \<Rightarrow> chan_event list \<Rightarrow> 's
    \<Rightarrow> (bytes \<times> 's) res" where
  "chan_run put get [] s = Inr ([], s)"
| "chan_run put get (Put x # es) s = chan_run put get es (put x s)"
| "chan_run put get (Get # es) s =
     res_bind (get s) (\<lambda>(xs, s'). res_bind (chan_run put get es s') (\<lambda>(ys, t). Inr (xs @ ys, t)))"

fun written :: "chan_event list \<Rightarrow> bytes" where
  "written [] = []"
| "written (Put x # es) = x # written es"
| "written (Get # es) = written es"

text \<open>No write finds the channel full.\<close>

fun no_overrun :: "(u8 \<Rightarrow> 's \<Rightarrow> 's) \<Rightarrow> ('s \<Rightarrow> (bytes \<times> 's) res) \<Rightarrow> ('s \<Rightarrow> nat) \<Rightarrow> chan_event list \<Rightarrow> 's
    \<Rightarrow> bool" where
  "no_overrun put get room [] s = True"
| "no_overrun put get room (Put x # es) s \<longleftrightarrow> room s > 0 \<and> no_overrun put get room es (put x s)"
| "no_overrun put get room (Get # es) s =
     (case get s of Inl e \<Rightarrow> True | Inr (xs, s') \<Rightarrow> no_overrun put get room es s')"

locale byte_channel =
  fixes inv :: "'s \<Rightarrow> bool"
    and pending :: "'s \<Rightarrow> bytes"
    and room :: "'s \<Rightarrow> nat"
    and put :: "u8 \<Rightarrow> 's \<Rightarrow> 's"
    and get :: "'s \<Rightarrow> (bytes \<times> 's) res"
  assumes put_inv: "inv s \<Longrightarrow> room s > 0 \<Longrightarrow> inv (put x s)"
    and put_pending: "inv s \<Longrightarrow> room s > 0 \<Longrightarrow> pending (put x s) = pending s @ [x]"
    and get_law: "inv s \<Longrightarrow> \<exists>xs s'. get s = Inr (xs, s') \<and> inv s' \<and> pending s = xs @ pending s'"
begin

lemma fifo:
  assumes "inv s" and "no_overrun put get room es s"
  shows "\<exists>out s'. chan_run put get es s = Inr (out, s') \<and> inv s'
     \<and> out @ pending s' = pending s @ written es"
  using assms
proof (induction es arbitrary: s)
  case Nil
  then show ?case by simp
next
  case (Cons e es)
  show ?case
  proof (cases e)
    case (Put x)
    with Cons.prems Cons.IH [of "put x s"] put_inv put_pending show ?thesis by force
  next
    case Get
    from get_law [OF Cons.prems(1)] obtain xs s' where
      g: "get s = Inr (xs, s')" "inv s'" "pending s = xs @ pending s'" by blast
    with Cons.prems(2) Get have "no_overrun put get room es s'" by simp
    from Cons.IH [OF g(2) this] Get g show ?thesis by force
  qed
qed

end

text \<open>
  A mapped ring with the reader's position. \<open>unread\<close> is how many bytes the hardware has
  written and the reader has not taken; the code does not have it, the hardware's write
  position follows from it.
\<close>

record ring =
  cells :: bytes
  ring_pos :: nat
  unread :: nat

definition ring_inv :: "ring \<Rightarrow> bool" where
  "ring_inv r \<longleftrightarrow> cells r \<noteq> [] \<and> unread r \<le> length (cells r)
     \<and> (\<exists>xs. length xs = unread r \<and>
           rotate (ring_pos r) (cells r) = xs @ replicate (length (cells r) - unread r) 0xFF)"

definition ring_pending :: "ring \<Rightarrow> bytes" where
  "ring_pending r = take (unread r) (rotate (ring_pos r) (cells r))"

definition ring_room :: "ring \<Rightarrow> nat" where
  "ring_room r = length (cells r) - unread r"

definition ring_put :: "u8 \<Rightarrow> ring \<Rightarrow> ring" where
  "ring_put x r = r\<lparr>cells := (cells r)[(ring_pos r + unread r) mod length (cells r) := x],
     unread := unread r + 1\<rparr>"

text \<open>One visit of the capture loop: fetch into the scratch buffer, advance the position.\<close>

definition ring_get :: "bytes \<Rightarrow> ring \<Rightarrow> (bytes \<times> ring) res" where
  "ring_get tmp_buff r =
     res_bind (fetch_data (cells r) (ring_pos r) tmp_buff) (\<lambda>(read_size, tmp, buff).
     Inr (take read_size tmp, r\<lparr>cells := buff,
       ring_pos := (ring_pos r + read_size) mod length (cells r), unread := unread r - read_size\<rparr>))"

lemma ring_get_spec:
  assumes "ring_inv r"
  shows "\<exists>r'. ring_get tmp r =
      Inr (take (min (avail (rotate (ring_pos r) (cells r))) (length tmp)) (ring_pending r), r')
    \<and> ring_inv r' \<and> ring_pending r' =
        drop (min (avail (rotate (ring_pos r) (cells r))) (length tmp)) (ring_pending r)
    \<and> length (cells r') = length (cells r)"
proof -
  let ?L = "length (cells r)" and ?p = "ring_pos r" and ?v = "rotate (ring_pos r) (cells r)"
  define n where "n = min (avail ?v) (length tmp)"
  from assms obtain xs where xs: "length xs = unread r" "?v = xs @ replicate (?L - unread r) 0xFF"
    and pos: "?L > 0" and ul: "unread r \<le> ?L" by (auto simp: ring_inv_def)
  have pend: "ring_pending r = xs" using xs by (simp add: ring_pending_def)
  have n: "n \<le> unread r" using avail_append_blank [of xs "?L - unread r"] xs by (simp add: n_def)
  from fetch_data_spec [OF pos, of ?p tmp] obtain buff where
    f: "fetch_data (cells r) ?p tmp = Inr (n, take n ?v @ drop n tmp, buff)"
    and len: "length buff = ?L" and rot: "rotate ?p buff = replicate n 0xFF @ drop n ?v"
    by (auto simp: Let_def n_def)
  define r' where "r' = r\<lparr>cells := buff, ring_pos := (?p + n) mod ?L, unread := unread r - n\<rparr>"
  have "rotate ((?p + n) mod ?L) buff = rotate n (rotate ?p buff)"
    using len by (metis rotate_conv_mod rotate_rotate add.commute)
  also have "\<dots> = drop n ?v @ replicate n 0xFF"
    unfolding rot using rotate_append [of "replicate n 0xFF" "drop n ?v"] by simp
  also have "\<dots> = drop n xs @ replicate (?L - (unread r - n)) 0xFF"
    using n xs(1) ul by (simp add: xs(2) replicate_add [symmetric])
  finally have rot': "rotate (ring_pos r') (cells r') = drop n xs @ replicate (?L - unread r') 0xFF"
    by (simp add: r'_def)
  have "take n (take n ?v @ drop n tmp) = take n xs"
    using n xs by simp
  with f have "ring_get tmp r = Inr (take n xs, r')" by (simp add: ring_get_def r'_def)
  moreover have "ring_inv r'"
    unfolding ring_inv_def using rot' n xs(1) len pos ul
    by (auto simp: r'_def intro!: exI [of _ "drop n xs"])
  moreover have "ring_pending r' = drop n xs"
    using rot' n xs(1) by (simp add: ring_pending_def) (simp add: r'_def)
  ultimately show ?thesis using len pend by (auto simp: n_def [symmetric]) (simp add: r'_def)
qed

lemma ring_put_spec:
  assumes "ring_inv r" and "ring_room r > 0"
  shows "ring_inv (ring_put x r)" and "ring_pending (ring_put x r) = ring_pending r @ [x]"
proof -
  let ?L = "length (cells r)"
  from assms obtain xs where xs: "length xs = unread r"
    "rotate (ring_pos r) (cells r) = xs @ replicate (?L - unread r) 0xFF" and less: "unread r < ?L"
    by (auto simp: ring_inv_def ring_room_def)
  have "rotate (ring_pos r) (cells (ring_put x r)) = (rotate (ring_pos r) (cells r))[unread r := x]"
    using rotate_update [OF less] by (simp add: ring_put_def)
  also have "\<dots> = (xs @ [x]) @ replicate (?L - Suc (unread r)) 0xFF"
    using xs less by (simp add: list_update_append Suc_diff_Suc [symmetric])
  finally have rot: "rotate (ring_pos r) (cells (ring_put x r)) =
    (xs @ [x]) @ replicate (?L - Suc (unread r)) 0xFF" .
  then show "ring_inv (ring_put x r)"
    unfolding ring_inv_def using xs less
    by (auto simp: ring_put_def intro!: exI [of _ "xs @ [x]"])
  show "ring_pending (ring_put x r) = ring_pending r @ [x]"
    using rot xs by (simp add: ring_pending_def) (simp add: ring_put_def)
qed

interpretation trace_ring: byte_channel ring_inv ring_pending ring_room ring_put "ring_get tmp" for tmp
proof unfold_locales
  show "ring_inv r \<Longrightarrow> ring_room r > 0 \<Longrightarrow> ring_inv (ring_put x r)" for r x
    by (rule ring_put_spec)
  show "ring_inv r \<Longrightarrow> ring_room r > 0 \<Longrightarrow> ring_pending (ring_put x r) = ring_pending r @ [x]" for r x
    by (rule ring_put_spec)
  show "ring_inv r \<Longrightarrow> \<exists>xs r'. ring_get tmp r = Inr (xs, r') \<and> ring_inv r'
      \<and> ring_pending r = xs @ ring_pending r'" for r
    using ring_get_spec [of r tmp] by (metis append_take_drop_id)
qed

section \<open>The capture loop\<close>

text \<open>
  The state of the loop of \<open>setup_pt_no_pmi\<close>: a read position per ring, the scratch buffer,
  the mapped memory by address, the state of the processor callback, and a count of the
  visits so far. Between visits the hardware changes the mapped memory and other threads the
  statics the callback reads, so both the hardware \<open>hw\<close> and the callback take the count.
\<close>

record 'p capture =
  read_pos :: "nat list"
  tmp_buff :: bytes
  mapped :: "u64 \<Rightarrow> bytes"
  proc_st :: 'p
  tick :: nat

type_synonym hardware = "nat \<Rightarrow> (u64 \<Rightarrow> bytes) \<Rightarrow> (u64 \<Rightarrow> bytes)"
type_synonym 'p processor = "nat \<Rightarrow> nat \<Rightarrow> bytes \<Rightarrow> nat \<Rightarrow> 'p \<Rightarrow> bool \<times> 'p"

text \<open>The body of the inner loop for ring \<open>i\<close>; the result tells whether to go on.\<close>

definition visit :: "hardware \<Rightarrow> 'p processor \<Rightarrow> PtSetupRst \<Rightarrow> nat \<Rightarrow> 'p capture
    \<Rightarrow> (bool \<times> 'p capture) res" where
  "visit hw processor rsp i c =
     (let mem = hw (tick c) (mapped c) in
      res_bind (index_at (read_pos c) i) (\<lambda>pos.
      res_bind (index_at (out_buffer_info rsp) i) (\<lambda>buff.
      let len = unat (out_buffer_len rsp) in
      if length (mem buff) < len then Inl DanglingDeref else
      res_bind (fetch_data (take len (mem buff)) pos (tmp_buff c)) (\<lambda>(read_size, tmp, data).
      if len = 0 then Inl RemByZero else
      res_bind (update_at (read_pos c) i ((pos + read_size) mod len)) (\<lambda>read_pos'.
      let (go_on, st) = processor (tick c) i tmp read_size (proc_st c) in
      Inr (go_on, \<lparr>read_pos = read_pos', tmp_buff = tmp,
             mapped = mem(buff := data @ drop len (mem buff)), proc_st = st, tick = tick c + 1\<rparr>))))))"

fun sweep :: "hardware \<Rightarrow> 'p processor \<Rightarrow> PtSetupRst \<Rightarrow> nat list \<Rightarrow> bool list \<Rightarrow> 'p capture
    \<Rightarrow> (bool \<times> 'p capture) res" where
  "sweep hw processor rsp [] flags c = Inr (False, c)"
| "sweep hw processor rsp (i # is) flags c =
     res_bind (visit hw processor rsp i c) (\<lambda>(go_on, c').
     if \<not> go_on then
       let flags' = flags[i := True] in
       if list_all (\<lambda>d. d = True) flags' then Inr (True, c')
       else sweep hw processor rsp is flags' c'
     else sweep hw processor rsp is flags c')"

text \<open>
  The outer \<open>loop\<close>. Each round takes a unit of fuel; \<open>None\<close> is "still running".
\<close>

fun capture_loop :: "nat \<Rightarrow> hardware \<Rightarrow> 'p processor \<Rightarrow> PtSetupRst \<Rightarrow> 'p capture
    \<Rightarrow> ('p capture res) option" where
  "capture_loop 0 hw processor rsp c = None"
| "capture_loop (Suc fuel) hw processor rsp c =
     (let flags = replicate (unat (out_buff_num rsp)) False in
      case sweep hw processor rsp [0..<unat (out_buff_num rsp)] flags c of
        Inl e \<Rightarrow> Some (Inl e)
      | Inr (True, c') \<Rightarrow> Some (Inr c')
      | Inr (False, c') \<Rightarrow> capture_loop fuel hw processor rsp c')"

text \<open>
  The rings the driver reported are mapped at \<open>mapping w\<close>. What the callback works on may
  include the driver's world, so its state \<open>st\<close> is taken when the trace has been started.
\<close>

definition setup_pt_no_pmi ::
    "nat \<Rightarrow> (u32 \<Rightarrow> u32) \<Rightarrow> 'w ioctl \<Rightarrow> u64 \<Rightarrow> u32 \<Rightarrow> u32 \<Rightarrow> u32 \<Rightarrow> u32 \<Rightarrow> u32 \<Rightarrow> u32 \<Rightarrow> u32 \<Rightarrow> u32
     \<Rightarrow> hardware \<Rightarrow> ('w \<Rightarrow> u64 \<Rightarrow> bytes) \<Rightarrow> 'p processor \<Rightarrow> ('w \<Rightarrow> 'p) \<Rightarrow> 'w \<Rightarrow> ('p capture res) option" where
  "setup_pt_no_pmi fuel ctl_code ioctl h pid buff_sz mtc psb cyc addr_cfg addr_start addr_end
       hw mapping processor st w =
     (case setup_pt_no_pmi_start ctl_code ioctl h pid buff_sz mtc psb cyc addr_cfg addr_start
             addr_end PtSetupRst_default w of
        (Inl e, rsp, w') \<Rightarrow> Some (Inl (Expect ''Setup pt faile''))
      | (Inr _, rsp, w') \<Rightarrow> capture_loop fuel hw processor rsp
          \<lparr>read_pos = replicate (unat (out_buff_num rsp)) 0,
           tmp_buff = replicate (1024 * 800) 0,
           mapped = mapping w', proc_st = st w', tick = 0\<rparr>)"

section \<open>Sweeps\<close>

text \<open>The visits of a sweep alone, with the callback's answers.\<close>

fun visits :: "hardware \<Rightarrow> 'p processor \<Rightarrow> PtSetupRst \<Rightarrow> nat list \<Rightarrow> 'p capture
    \<Rightarrow> (bool list \<times> 'p capture) res" where
  "visits hw processor rsp [] c = Inr ([], c)"
| "visits hw processor rsp (i # is) c =
     res_bind (visit hw processor rsp i c) (\<lambda>(a, c').
     res_bind (visits hw processor rsp is c') (\<lambda>(as, c''). Inr (a # as, c'')))"

lemma visits_length: "visits hw pr rsp idxs c = Inr (as, c') \<Longrightarrow> length as = length idxs"
  by (induction idxs arbitrary: c as) (auto simp: res_simps)

lemma sweep_visits_gen:
  assumes "flags = map Not answers @ replicate (n - k) False" and "length answers = k" and "k \<le> n"
  shows "sweep hw pr rsp [k..<n] flags c = res_bind (visits hw pr rsp [k..<n] c) (\<lambda>(as, c').
     Inr (k < n \<and> (\<forall>a \<in> set (answers @ as). \<not> a), c'))"
  using assms
proof (induction "n - k" arbitrary: k flags answers c)
  case 0
  then show ?case by simp
next
  case (Suc m)
  then have upt: "[k..<n] = k # [Suc k..<n]" and kn: "k < n" by (simp_all add: upt_rec)
  have split: "replicate (n - k) False = False # replicate (n - Suc k) False"
    using kn by (simp add: Suc_diff_Suc [symmetric])
  show ?case
  proof (cases "visit hw pr rsp k c")
    case (Inl e)
    then show ?thesis by (simp add: upt)
  next
    case (Inr r)
    obtain a c' where r: "r = (a, c')" by (cases r)
    have flags': "flags[k := \<not> a] = map Not (answers @ [a]) @ replicate (n - Suc k) False"
      and flags_a: "a \<Longrightarrow> flags = map Not (answers @ [a]) @ replicate (n - Suc k) False"
      using Suc.prems(1,2) by (simp_all add: split list_update_append)
    have IH: "sweep hw pr rsp [Suc k..<n] (map Not (answers @ [a]) @ replicate (n - Suc k) False) c' =
      res_bind (visits hw pr rsp [Suc k..<n] c') (\<lambda>(as, c'').
        Inr (Suc k < n \<and> (\<forall>x \<in> set ((answers @ [a]) @ as). \<not> x), c''))"
      using Suc kn by (intro Suc.hyps(1)) auto
    show ?thesis
    proof (cases "Suc k < n")
      case True
      then have "\<not> list_all (\<lambda>d. d = True) (map Not (answers @ [a]) @ replicate (n - Suc k) False)"
        by (cases "n - Suc k") auto
      with Inr r flags' flags_a IH True kn show ?thesis
        by (cases a) (auto simp: upt res_bind_assoc case_prod_unfold intro!: res_bind_cong)
    next
      case False
      with kn have n: "n = Suc k" by simp
      with Inr r flags' flags_a kn show ?thesis
        by (cases a) (auto simp: upt list_all_iff)
    qed
  qed
qed

lemma sweep_visits:
  "sweep hw pr rsp [0..<n] (replicate n False) c = res_bind (visits hw pr rsp [0..<n] c)
     (\<lambda>(as, c'). Inr (as \<noteq> [] \<and> (\<forall>a \<in> set as. \<not> a), c'))"
proof -
  have "sweep hw pr rsp [0..<n] (replicate n False) c = res_bind (visits hw pr rsp [0..<n] c)
     (\<lambda>(as, c'). Inr (0 < n \<and> (\<forall>a \<in> set as. \<not> a), c'))"
    using sweep_visits_gen [of "replicate n False" "[]" n 0] by simp
  also have "\<dots> = res_bind (visits hw pr rsp [0..<n] c)
     (\<lambda>(as, c'). Inr (as \<noteq> [] \<and> (\<forall>a \<in> set as. \<not> a), c'))"
    by (rule res_bind_cong) (auto dest: visits_length)
  finally show ?thesis .
qed

section \<open>Well-formed captures\<close>

text \<open>
  What the driver's answer and the mapping must satisfy for the first \<open>n\<close> rings: an address
  and a position for each, each mapped over its whole, positive length.
\<close>

definition capture_wf :: "nat \<Rightarrow> PtSetupRst \<Rightarrow> 'p capture \<Rightarrow> bool" where
  "capture_wf n rsp c \<longleftrightarrow> n \<le> length (out_buffer_info rsp) \<and> n \<le> length (read_pos c)
     \<and> 0 < unat (out_buffer_len rsp)
     \<and> (\<forall>i < n. unat (out_buffer_len rsp) \<le> length (mapped c (out_buffer_info rsp ! i)))"

definition hw_keeps_maps :: "hardware \<Rightarrow> bool" where
  "hw_keeps_maps hw \<longleftrightarrow> (\<forall>t m a. length (hw t m a) = length (m a))"

lemma visit_ok:
  assumes wf: "capture_wf n rsp c" and hw: "hw_keeps_maps hw" and i: "i < n"
  shows "\<exists>a c'. visit hw pr rsp i c = Inr (a, c') \<and> capture_wf n rsp c' \<and> tick c' = Suc (tick c)
     \<and> length (read_pos c') = length (read_pos c)
     \<and> (\<exists>d n. (a, proc_st c') = pr (tick c) i d n (proc_st c))"
proof -
  let ?mem = "hw (tick c) (mapped c)" and ?buff = "out_buffer_info rsp ! i"
    and ?len = "unat (out_buffer_len rsp)" and ?pos = "read_pos c ! i"
  from wf i have len: "0 < ?len" "?len \<le> length (?mem ?buff)" "i < length (out_buffer_info rsp)"
    "i < length (read_pos c)" using hw by (auto simp: capture_wf_def hw_keeps_maps_def)
  have ring: "length (take ?len (?mem ?buff)) = ?len" using len(2) by simp
  then obtain m tmp data where f: "fetch_data (take ?len (?mem ?buff)) ?pos (tmp_buff c) = Inr (m, tmp, data)"
    and dl: "length data = ?len"
    using fetch_data_spec [of "take ?len (?mem ?buff)" ?pos "tmp_buff c"] len(1)
    by (auto simp: Let_def)
  obtain a st where p: "pr (tick c) i tmp m (proc_st c) = (a, st)" by fastforce
  define c' where "c' = \<lparr>read_pos = (read_pos c)[i := (?pos + m) mod ?len], tmp_buff = tmp,
    mapped = ?mem(?buff := data @ drop ?len (?mem ?buff)), proc_st = st, tick = tick c + 1\<rparr>"
  have "visit hw pr rsp i c = Inr (a, c')"
    using len f p by (simp add: visit_def Let_def index_at_def update_at_def c'_def)
  moreover have "capture_wf n rsp c'"
    using wf hw dl len by (auto simp: capture_wf_def hw_keeps_maps_def c'_def)
  moreover have "tick c' = Suc (tick c)" "length (read_pos c') = length (read_pos c)" by (simp_all add: c'_def)
  moreover have "(a, proc_st c') = pr (tick c) i tmp m (proc_st c)" using p by (simp add: c'_def)
  ultimately show ?thesis by blast
qed

text \<open>
  A callback that refuses from time \<open>T\<close> on, in the states \<open>S t\<close> it can be in at time \<open>t\<close>.
\<close>

definition refuses_from :: "nat \<Rightarrow> (nat \<Rightarrow> 'p \<Rightarrow> bool) \<Rightarrow> 'p processor \<Rightarrow> bool" where
  "refuses_from T S pr \<longleftrightarrow> (\<forall>t i d n p. S t p \<longrightarrow>
     S (Suc t) (snd (pr t i d n p)) \<and> (T \<le> t \<longrightarrow> \<not> fst (pr t i d n p)))"

lemma visits_ok:
  assumes "capture_wf n rsp c" and "hw_keeps_maps hw" and "\<forall>i \<in> set idxs. i < n"
  shows "\<exists>as c'. visits hw pr rsp idxs c = Inr (as, c') \<and> capture_wf n rsp c'
     \<and> tick c' = tick c + length idxs \<and> length (read_pos c') = length (read_pos c)
     \<and> (refuses_from T S pr \<longrightarrow> S (tick c) (proc_st c) \<longrightarrow>
          S (tick c') (proc_st c') \<and> (T \<le> tick c \<longrightarrow> (\<forall>a \<in> set as. \<not> a)))"
  using assms
proof (induction idxs arbitrary: c)
  case Nil
  then show ?case by simp
next
  case (Cons i idxs)
  from visit_ok [OF Cons.prems(1,2), of i pr] Cons.prems(3) obtain a c1 where
    v: "visit hw pr rsp i c = Inr (a, c1)" "capture_wf n rsp c1" "tick c1 = Suc (tick c)"
    "length (read_pos c1) = length (read_pos c)"
    and a: "\<exists>d n. (a, proc_st c1) = pr (tick c) i d n (proc_st c)" by auto
  have "\<forall>i \<in> set idxs. i < n" using Cons.prems(3) by simp
  from Cons.IH [OF v(2) Cons.prems(2) this] obtain as c2 where
    vs: "visits hw pr rsp idxs c1 = Inr (as, c2)" "capture_wf n rsp c2" "tick c2 = tick c1 + length idxs"
    "length (read_pos c2) = length (read_pos c1)"
    "refuses_from T S pr \<longrightarrow> S (tick c1) (proc_st c1) \<longrightarrow>
       S (tick c2) (proc_st c2) \<and> (T \<le> tick c1 \<longrightarrow> (\<forall>a \<in> set as. \<not> a))"
    by blast
  have "S (tick c1) (proc_st c1) \<and> (T \<le> tick c \<longrightarrow> \<not> a)"
    if "refuses_from T S pr" "S (tick c) (proc_st c)"
    using that a v(3) unfolding refuses_from_def by (metis fst_conv snd_conv)
  with v vs show ?case by auto
qed

lemma visits_append:
  "visits hw pr rsp (xs @ ys) c = res_bind (visits hw pr rsp xs c) (\<lambda>(as, c').
     res_bind (visits hw pr rsp ys c') (\<lambda>(bs, c''). Inr (as @ bs, c'')))"
proof (induction xs arbitrary: c)
  case Nil
  show ?case by (cases "visits hw pr rsp ys c") auto
next
  case (Cons i xs)
  show ?case
  proof (cases "visit hw pr rsp i c")
    case (Inl e)
    then show ?thesis by simp
  next
    case (Inr r)
    then show ?thesis by (auto simp: Cons case_prod_unfold res_bind_assoc)
  qed
qed

lemma capture_loop_returns:
  assumes "capture_wf (unat (out_buff_num rsp)) rsp c" and "hw_keeps_maps hw" and "0 < out_buff_num rsp"
    and "refuses_from T S pr" and "S (tick c) (proc_st c)"
  shows "\<exists>c'. capture_loop (Suc (T - tick c)) hw pr rsp c = Some (Inr c')"
proof -
  let ?n = "unat (out_buff_num rsp)"
  have n: "0 < ?n" using assms(3) by (simp add: word_less_nat_alt)
  have "\<exists>c'. capture_loop (Suc f) hw pr rsp c = Some (Inr c')"
    if "T \<le> tick c + f" "capture_wf ?n rsp c" "S (tick c) (proc_st c)" for f and c :: "'a capture"
    using that
  proof (induction f arbitrary: c)
    case 0
    from visits_ok [OF 0(2) assms(2), of "[0..<?n]" pr T S] obtain as c' where
      "visits hw pr rsp [0..<?n] c = Inr (as, c')" "\<forall>a \<in> set as. \<not> a"
      using assms(4) 0(1,3) by auto
    moreover from this(1) n have "as \<noteq> []" using visits_length by fastforce
    ultimately show ?case by (simp add: sweep_visits split: bool.split)
  next
    case (Suc f)
    from visits_ok [OF Suc.prems(2) assms(2), of "[0..<?n]" pr T S] obtain as c' where
      v: "visits hw pr rsp [0..<?n] c = Inr (as, c')" "capture_wf ?n rsp c'" "tick c' = tick c + ?n"
      "S (tick c') (proc_st c')"
      using assms(4) Suc.prems(3) by auto
    have "T \<le> tick c' + f" using Suc.prems(1) v(3) n by linarith
    from Suc.IH [OF this v(2,4)] v(1) show ?case by (auto simp: sweep_visits split: bool.split)
  qed
  from this [of c "T - tick c"] assms(1,5) show ?thesis by simp
qed

section \<open>Properties\<close>

text \<open>
  Also: one call of \<open>fetch_data\<close> delivers the bytes of the ring from the
  reader's position up to the first ten blank bytes in a row (or up to the size of the output
  buffer), leaves the rest of the output buffer alone, blanks what it delivered and touches
  nothing else.
\<close>

theorem fetch_data_exact:
  assumes "buff \<noteq> []"
  shows "\<exists>buff'. fetch_data buff pos out =
        Inr (min (avail (rotate pos buff)) (length out),
             take (min (avail (rotate pos buff)) (length out)) (rotate pos buff)
               @ drop (min (avail (rotate pos buff)) (length out)) out, buff')
     \<and> length buff' = length buff
     \<and> rotate pos buff' = replicate (min (avail (rotate pos buff)) (length out)) 0xFF
               @ drop (min (avail (rotate pos buff)) (length out)) (rotate pos buff)"
  using fetch_data_spec [of buff pos out] assms by (simp add: Let_def)

theorem fetch_data_exact_witness:
  "\<exists>buff'. fetch_data [7, 0xFF, 5, 6] 2 [0, 0, 0, 0] = Inr (3, [5, 6, 7, 0], buff')
     \<and> rotate 2 buff' = [0xFF, 0xFF, 0xFF, 0xFF]"
proof -
  have r: "rotate 2 [7, 0xFF, 5, 6 :: u8] = [5, 6, 7, 0xFF]"
    and r': "rotate (Suc (Suc 0)) [7, 0xFF, 5, 6 :: u8] = [5, 6, 7, 0xFF]"
    by (simp_all add: numeral_2_eq_2)
  have a: "avail [5, 6, 7, 0xFF] = 3" by simp
  show ?thesis using fetch_data_exact [of "[7, 0xFF, 5, 6]" 2 "[0, 0, 0, 0]"]
    by (auto simp: r r' a simp del: avail.simps)
qed

text \<open>
  Also: for every interleaving of hardware writes and fetches in which no write finds
  the ring full, no fetch faults, and the bytes fetched followed by the bytes still unread
  are exactly the bytes written, in order: none lost, repeated or invented.
\<close>

theorem ring_fifo:
  assumes "ring_inv r" and "no_overrun ring_put (ring_get tmp) ring_room es r"
  shows "\<exists>out r'. chan_run ring_put (ring_get tmp) es r = Inr (out, r') \<and> ring_inv r'
     \<and> out @ ring_pending r' = ring_pending r @ written es"
  using assms by (rule trace_ring.fifo)

theorem ring_fifo_witness:
  "\<exists>out r'. chan_run ring_put (ring_get [0, 0]) [Put 1, Get, Put 2, Put 0xFF, Get]
       \<lparr>cells = [0xFF, 0xFF], ring_pos = 0, unread = 0\<rparr> = Inr (out, r')
     \<and> out @ ring_pending r' = [1, 2, 0xFF]"
proof -
  let ?r = "\<lparr>cells = [0xFF, 0xFF], ring_pos = 0, unread = 0\<rparr>"
  have inv: "ring_inv ?r" by (simp add: ring_inv_def numeral_2_eq_2)
  have "no_overrun ring_put (ring_get [0, 0]) ring_room [Put 1, Get, Put 2, Put 0xFF, Get] ?r"
    by (simp add: ring_put_def ring_room_def ring_get_def fetch_data_def upt_rec update_at_def)
  from ring_fifo [OF inv this] obtain out r' where
    "chan_run ring_put (ring_get [0, 0]) [Put 1, Get, Put 2, Put 0xFF, Get] ?r = Inr (out, r')"
    "out @ ring_pending r' = ring_pending ?r @ written [Put 1, Get, Put 2, Put 0xFF, Get]"
    by blast
  moreover have "ring_pending ?r @ written [Put 1, Get, Put 2, Put 0xFF, Get] = [1, 2, 0xFF]"
    by (simp add: ring_pending_def)
  ultimately show ?thesis by metis
qed

text \<open>
  Also: when no ten unread bytes in a row are blank, the last one is not blank and
  the scratch buffer is large enough, a single fetch delivers all of them.
\<close>

theorem ring_drain:
  assumes "ring_inv r" and "readable (ring_pending r)" and "unread r \<le> length tmp"
  shows "\<exists>r'. ring_get tmp r = Inr (ring_pending r, r') \<and> ring_pending r' = []"
proof -
  from assms(1) obtain xs where xs: "length xs = unread r"
    "rotate (ring_pos r) (cells r) = xs @ replicate (length (cells r) - unread r) 0xFF"
    by (auto simp: ring_inv_def)
  then have "ring_pending r = xs" by (simp add: ring_pending_def)
  with ring_get_spec [OF assms(1), of tmp] xs assms(2,3) show ?thesis
    by (auto simp: avail_readable)
qed

theorem ring_drain_witness:
  "\<exists>r'. ring_get [0, 0] \<lparr>cells = [9, 0xFF, 0xFF], ring_pos = 0, unread = 1\<rparr> = Inr ([9], r')"
proof -
  let ?r = "\<lparr>cells = [9, 0xFF, 0xFF], ring_pos = 0, unread = 1\<rparr>"
  have inv: "ring_inv ?r"
    by (auto simp: ring_inv_def numeral_2_eq_2 intro!: exI [of _ "[9]"])
  have p: "ring_pending ?r = [9]" by (simp add: ring_pending_def)
  have "readable (ring_pending ?r)" unfolding p by simp
  from ring_drain [OF inv this, of "[0, 0]"] show ?thesis unfolding p by fastforce
qed



text \<open>
  Also: a round of the capture loop always visits every ring once, in order, and ends
  the capture exactly when there is a ring and the callback asked to stop at every one of
  them in this round; the flags of earlier rounds do not count.
\<close>

theorem sweep_stop:
  "sweep hw pr rsp [0..<n] (replicate n False) c = res_bind (visits hw pr rsp [0..<n] c)
     (\<lambda>(as, c'). Inr (as \<noteq> [] \<and> list_all Not as, c'))"
  unfolding sweep_visits by (simp add: list_all_iff)

text \<open>
  Also: if the driver reported between 1 and 32 rings, all mapped, and the
  callback asks to stop from some time on (as it does once \<open>G_STOP\<close> is set), the capture
  returns \<open>Ok\<close> after finitely many rounds, without a fault.
\<close>

theorem capture_returns:
  assumes "capture_wf (unat (out_buff_num rsp)) rsp c" and "hw_keeps_maps hw" and "0 < out_buff_num rsp"
    and "\<forall>t i d n p. T \<le> t \<longrightarrow> \<not> fst (pr t i d n p)"
  shows "\<exists>c'. capture_loop (Suc (T - tick c)) hw pr rsp c = Some (Inr c')"
  using assms by (intro capture_loop_returns [where S = "\<lambda>_ _. True"]) (auto simp: refuses_from_def)

theorem capture_returns_witness:
  "\<exists>c'. capture_loop 4 (\<lambda>t m. m) (\<lambda>t i d n p. (t < 3, p))
       (PtSetupRst_default\<lparr>out_buff_num := 2, out_buffer_len := 4\<rparr>)
       \<lparr>read_pos = [0, 0], tmp_buff = [0], mapped = (\<lambda>a. [1, 2, 3, 4]), proc_st = (), tick = 0\<rparr>
     = Some (Inr c')"
proof -
  let ?rsp = "PtSetupRst_default\<lparr>out_buff_num := 2, out_buffer_len := 4\<rparr>"
    and ?c = "\<lparr>read_pos = [0, 0], tmp_buff = [0], mapped = (\<lambda>a. [1, 2, 3, 4]), proc_st = (), tick = 0\<rparr>"
  have "capture_wf (unat (out_buff_num ?rsp)) ?rsp ?c"
    by (simp add: capture_wf_def PtSetupRst_default_def MAX_CPU_NUM_def)
  moreover have "hw_keeps_maps (\<lambda>t m. m)" by (simp add: hw_keeps_maps_def)
  ultimately show ?thesis
    using capture_returns [of ?rsp ?c "\<lambda>t m. m" 3 "\<lambda>t i d n p. (t < 3, p)"] by (simp add: numeral_eq_Suc)
qed

text \<open>
  Also: if the driver reports no ring at all, the capture never returns,
  whatever the callback answers.
\<close>

theorem capture_no_rings:
  assumes "out_buff_num rsp = 0"
  shows "capture_loop fuel hw pr rsp c = None"
  using assms by (induction fuel arbitrary: c) auto

theorem capture_no_rings_witness:
  "capture_loop 1000 (\<lambda>t m. m) (\<lambda>t i d n p. (False, p)) PtSetupRst_default
     \<lparr>read_pos = [], tmp_buff = [0], mapped = (\<lambda>a. []), proc_st = (), tick = 0\<rparr> = None"
  by (rule capture_no_rings) (simp add: PtSetupRst_default_def)

text \<open>
  Also: if the driver reports more rings than the response structure has
  addresses for (32), the first round panics with an index out of bounds.
\<close>

theorem capture_too_many_rings:
  assumes wf: "capture_wf (length (out_buffer_info rsp)) rsp c" and hw: "hw_keeps_maps hw"
    and many: "length (out_buffer_info rsp) < unat (out_buff_num rsp)"
    and pos: "length (read_pos c) = unat (out_buff_num rsp)"
  shows "capture_loop (Suc fuel) hw pr rsp c = Some (Inl OutOfBounds)"
proof -
  let ?m = "length (out_buffer_info rsp)" and ?n = "unat (out_buff_num rsp)"
  from visits_ok [OF wf hw, of "[0..<?m]" pr 0 "\<lambda>_ _. True"] obtain as c' where
    v: "visits hw pr rsp [0..<?m] c = Inr (as, c')" "length (read_pos c') = ?n"
    using pos by auto
  have "visit hw pr rsp ?m c' = Inl OutOfBounds"
    using v(2) many by (simp add: visit_def Let_def index_at_def)
  moreover have "[0..<?n] = [0..<?m] @ ?m # [Suc ?m..<?n]"
    using many upt_add_eq_append [of 0 ?m "?n - ?m"] upt_conv_Cons [OF many] by simp
  ultimately have "visits hw pr rsp [0..<?n] c = Inl OutOfBounds"
    using v(1) by (simp add: visits_append)
  then show ?thesis by (simp add: sweep_visits)
qed

theorem capture_too_many_rings_witness:
  "capture_loop 1 (\<lambda>t m. m) (\<lambda>t i d n p. (True, p))
     (PtSetupRst_default\<lparr>out_buff_num := 33, out_buffer_len := 4\<rparr>)
     \<lparr>read_pos = replicate 33 0, tmp_buff = [0], mapped = (\<lambda>a. [1, 2, 3, 4]), proc_st = (), tick = 0\<rparr>
   = Some (Inl OutOfBounds)"
proof -
  let ?rsp = "PtSetupRst_default\<lparr>out_buff_num := 33, out_buffer_len := 4\<rparr>"
    and ?c = "\<lparr>read_pos = replicate 33 0, tmp_buff = [0], mapped = (\<lambda>a. [1, 2, 3, 4]), proc_st = (), tick = 0\<rparr>"
  have "capture_wf (length (out_buffer_info ?rsp)) ?rsp ?c"
    by (simp add: capture_wf_def PtSetupRst_default_def MAX_CPU_NUM_def)
  moreover have "hw_keeps_maps (\<lambda>t m. m)" by (simp add: hw_keeps_maps_def)
  ultimately show ?thesis
    using capture_too_many_rings [of ?rsp ?c "\<lambda>t m. m" 0 "\<lambda>t i d n p. (True, p)"]
    by (simp add: PtSetupRst_default_def MAX_CPU_NUM_def)
qed

end
