(* ===== verification/MemCache.thy ===== *)
theory MemCache
  imports PtCtrl
begin

text \<open>
  The page cache between the instruction decoder and the traced process
  (\<open>src/src/mem_cacher/mod.rs\<close>). A page is fetched once through a callback and kept in a
  box; \<open>last_content\<close> is the address of such a box, kept as a number and dereferenced
  without a check.

  Boxes are numbered in the order of their allocation and \<open>boxes\<close> is the heap: a box that
  has been freed, or never allocated, has no content. The only values \<open>last_content\<close> ever
  takes are 0 (\<open>None\<close> here) and a box's address, so it is a box number or nothing.
\<close>

section \<open>State\<close>

text \<open>
  The callback \<open>f(buffer, address)\<close> fills the buffer and returns a size; it may change a
  world \<open>'w\<close> (the driver, the connection).
\<close>

type_synonym 'w reader = "bytes \<Rightarrow> u64 \<Rightarrow> 'w \<Rightarrow> (usize \<times> bytes \<times> 'w) res"

record 'w MemCacher =
  cache_lst :: "(usize, nat) hash_map"
  last_page :: usize
  last_content :: "nat option"
  reader_fn :: "'w reader option"
  boxes :: "nat \<Rightarrow> bytes option"
  next_box :: nat

definition MemCacher_new :: "'w MemCacher" where
  "MemCacher_new = \<lparr>cache_lst = [], last_page = 0, last_content = None, reader_fn = None,
     boxes = (\<lambda>_. None), next_box = 0\<rparr>"

definition clear_data :: "'w MemCacher \<Rightarrow> 'w MemCacher" where
  "clear_data c = c\<lparr>last_page := 0, last_content := None, reader_fn := None, cache_lst := [],
     boxes := (\<lambda>_. None)\<rparr>"

section \<open>Operations\<close>

definition get_content_in_cache_item :: "bytes \<Rightarrow> u64 \<Rightarrow> bytes \<Rightarrow> (usize \<times> bytes) res" where
  "get_content_in_cache_item content addr rst =
     (let begin = unat (page_off addr); end = begin + length rst in
      res_bind (slice content begin end) (\<lambda>src.
      if length src \<noteq> length rst then Inl LengthMismatch
      else Inr (of_nat (length rst), src)))"

definition deref_box :: "'w MemCacher \<Rightarrow> nat \<Rightarrow> bytes res" where
  "deref_box c bx = (case boxes c bx of None \<Rightarrow> Inl DanglingDeref | Some content \<Rightarrow> Inr content)"

definition get_content_in_one_page ::
    "bytes \<Rightarrow> u64 \<Rightarrow> 'w MemCacher \<times> 'w \<Rightarrow> (usize \<times> bytes \<times> 'w MemCacher \<times> 'w) res" where
  "get_content_in_one_page rst addr = (\<lambda>(c, w).
     let p = page_of addr in
     if last_page c = p then
       (case last_content c of
          None \<Rightarrow> Inl NullDeref
        | Some bx \<Rightarrow> res_bind (deref_box c bx) (\<lambda>content.
            res_bind (get_content_in_cache_item content addr rst) (\<lambda>(r, rst'). Inr (r, rst', c, w))))
     else
       (case hm_get (cache_lst c) p of
          Some bx \<Rightarrow> res_bind (deref_box c bx) (\<lambda>content.
            res_bind (get_content_in_cache_item content addr rst) (\<lambda>(r, rst'). Inr (r, rst', c, w)))
        | None \<Rightarrow>
           (case reader_fn c of
              None \<Rightarrow> Inr (0, rst, c, w)
            | Some f \<Rightarrow>
                res_bind (f (replicate 4096 0) p w) (\<lambda>(r, tmp_buff, w1).
                if r \<noteq> 4096 then
                  res_bind (f rst addr w1) (\<lambda>(r', rst', w2).
                  if r' \<noteq> of_nat (length rst) then Inr (0, rst', c, w2)
                  else Inr (r', rst', c, w2))
                else
                  res_bind (get_content_in_cache_item tmp_buff addr rst) (\<lambda>(r', rst').
                  Inr (r', rst', c\<lparr>last_content := Some (next_box c),
                    cache_lst := hm_insert (cache_lst c) p (next_box c),
                    boxes := (boxes c)(next_box c \<mapsto> tmp_buff),
                    next_box := next_box c + 1\<rparr>, w1))))))"

definition get_content ::
    "build \<Rightarrow> bytes \<Rightarrow> u64 \<Rightarrow> 'w MemCacher \<times> 'w \<Rightarrow> (usize \<times> bytes \<times> 'w MemCacher \<times> 'w) res" where
  "get_content b rst addr s =
     (let start_addr = page_of addr in
      res_bind (uadd b addr (of_nat (length rst))) (\<lambda>sum.
      let end_addr = page_of sum in
      if start_addr = end_addr then get_content_in_one_page rst addr s
      else
        res_bind (usub b end_addr addr) (\<lambda>first_page_size.
        res_bind (slice rst 0 (unat first_page_size)) (\<lambda>rst1.
        res_bind (get_content_in_one_page rst1 addr s) (\<lambda>(read_size, rst1', c1, w1).
        res_bind (slice rst (unat first_page_size) (length rst)) (\<lambda>rst2.
        res_bind (uadd b addr first_page_size) (\<lambda>addr2.
        res_bind (get_content_in_one_page rst2 addr2 (c1, w1)) (\<lambda>(n, rst2', c2, w2).
        res_bind (uadd b read_size n) (\<lambda>read_size'.
        Inr (read_size', rst1' @ rst2', c2, w2))))))))))"

section \<open>Contracts\<close>

text \<open>
  A faithful callback never faults, keeps the buffer's length and, when it returns the whole
  length, has filled the buffer with the process's bytes. It may fail; a \<open>total\<close> one does not.
  The contract covers buffers below 64 KiB, the most a driver request can ask for.
\<close>

definition faithful :: "'w reader \<Rightarrow> (u64 \<Rightarrow> u8) \<Rightarrow> bool" where
  "faithful rd mem \<longleftrightarrow> (\<forall>buf a w. length buf < 65536 \<longrightarrow> (\<exists>r buf' w'. rd buf a w = Inr (r, buf', w')
     \<and> length buf' = length buf
     \<and> (r = of_nat (length buf) \<longrightarrow> buf' = mem_bytes mem a (length buf))))"

definition reads_all :: "'w reader \<Rightarrow> bool" where
  "reads_all rd \<longleftrightarrow> (\<forall>buf a w r buf' w'. length buf < 65536 \<longrightarrow> rd buf a w = Inr (r, buf', w') \<longrightarrow>
     r = of_nat (length buf))"

definition coherent :: "(u64 \<Rightarrow> u8) \<Rightarrow> 'w MemCacher \<Rightarrow> bool" where
  "coherent mem c \<longleftrightarrow> last_page c = 0
     \<and> (\<forall>k bx. hm_get (cache_lst c) k = Some bx \<longrightarrow> boxes c bx = Some (mem_bytes mem k 4096))
     \<and> (\<forall>bx. boxes c bx \<noteq> None \<longrightarrow> bx < next_box c)"

lemma coherent_new: "coherent mem MemCacher_new"
  by (simp add: coherent_def MemCacher_new_def)

lemma cache_lst_new: "cache_lst MemCacher_new = []"
  by (simp add: MemCacher_new_def)

lemma coherent_clear: "coherent mem (clear_data c)"
  by (simp add: coherent_def clear_data_def)

lemma coherent_set_reader: "coherent mem (c\<lparr>reader_fn := f\<rparr>) = coherent mem c"
  by (simp add: coherent_def)

lemma coherent_box:
  assumes "coherent mem c" and "hm_get (cache_lst c) k = Some bx"
  shows "deref_box c bx = Inr (mem_bytes mem k 4096)"
  using assms by (simp add: coherent_def deref_box_def)

lemma coherent_insert:
  assumes "coherent mem c"
  shows "coherent mem (c\<lparr>last_content := Some (next_box c),
    cache_lst := hm_insert (cache_lst c) p (next_box c),
    boxes := (boxes c)(next_box c \<mapsto> mem_bytes mem p 4096), next_box := next_box c + 1\<rparr>)"
  using assms by (fastforce simp: coherent_def less_Suc_eq)

section \<open>One page\<close>

lemma cache_item_bytes:
  assumes "unat (page_off addr) + length rst \<le> 4096"
  shows "get_content_in_cache_item (mem_bytes mem (page_of addr) 4096) addr rst =
    Inr (of_nat (length rst), mem_bytes mem addr (length rst))"
proof -
  have "take (length rst) (drop (unat (page_off addr)) (mem_bytes mem (page_of addr) 4096)) =
      mem_bytes mem (page_of addr + of_nat (unat (page_off addr))) (length rst)"
    using assms by (intro mem_bytes_take_drop) simp
  then show ?thesis
    using assms by (simp add: get_content_in_cache_item_def slice_def Let_def page_split)
qed

lemma cache_item_too_long:
  assumes "4096 < unat (page_off addr) + length rst" and "length content = 4096"
  shows "get_content_in_cache_item content addr rst = Inl OutOfBounds"
  using assms by (simp add: get_content_in_cache_item_def slice_def Let_def)

lemma faithful_page:
  assumes "faithful rd mem"
  shows "\<exists>r tmp w'. rd (replicate 4096 0) p w = Inr (r, tmp, w') \<and> length tmp = 4096
     \<and> (r = 4096 \<longrightarrow> tmp = mem_bytes mem p 4096) \<and> (reads_all rd \<longrightarrow> r = 4096)"
proof -
  let ?buf = "replicate 4096 0 :: bytes"
  have "length ?buf < 65536" by simp
  with assms obtain r tmp w' where *: "rd ?buf p w = Inr (r, tmp, w')" "length tmp = length ?buf"
    "r = of_nat (length ?buf) \<longrightarrow> tmp = mem_bytes mem p (length ?buf)"
    unfolding faithful_def by blast
  moreover from *(1) have "r = of_nat (length ?buf)" if "reads_all rd"
    using that \<open>length ?buf < 65536\<close> unfolding reads_all_def by blast
  ultimately show ?thesis by simp
qed

text \<open>\<open>read_ok\<close>: what a read of \<open>n\<close> bytes gives, and what it leaves of the cache.\<close>

definition read_ok :: "(u64 \<Rightarrow> u8) \<Rightarrow> 'w reader \<Rightarrow> u64 \<Rightarrow> nat
    \<Rightarrow> (usize \<times> bytes \<times> 'w MemCacher \<times> 'w) res \<Rightarrow> bool" where
  "read_ok mem rd a n m \<longleftrightarrow> (\<exists>r rst' c' w'. m = Inr (r, rst', c', w')
     \<and> coherent mem c' \<and> reader_fn c' = Some rd \<and> length rst' = n \<and> r \<in> {0, of_nat n}
     \<and> (r = of_nat n \<longrightarrow> rst' = mem_bytes mem a n) \<and> (reads_all rd \<longrightarrow> r = of_nat n))"

lemma one_page_ok:
  assumes co: "coherent mem c" and rd: "reader_fn c = Some rd" and fa: "faithful rd mem"
    and page: "page_of addr \<noteq> 0" and len: "unat (page_off addr) + length rst \<le> 4096"
  shows "read_ok mem rd addr (length rst) (get_content_in_one_page rst addr (c, w))"
proof -
  note item = cache_item_bytes [OF len, of mem]
  have lp: "last_page c \<noteq> page_of addr" using co page by (simp add: coherent_def)
  show ?thesis
  proof (cases "hm_get (cache_lst c) (page_of addr)")
    case (Some bx)
    from coherent_box [OF co Some] item lp Some co rd show ?thesis
      by (simp add: get_content_in_one_page_def read_ok_def Let_def)
  next
    case None
    from faithful_page [OF fa, of "page_of addr" w] obtain r tmp w1
      where f1: "rd (replicate 4096 0) (page_of addr) w = Inr (r, tmp, w1)"
      and tmp: "length tmp = 4096" "r = 4096 \<longrightarrow> tmp = mem_bytes mem (page_of addr) 4096"
        "reads_all rd \<longrightarrow> r = 4096" by blast
    show ?thesis
    proof (cases "r = 4096")
      case True
      with None lp rd f1 tmp item coherent_insert [OF co, of "page_of addr"] show ?thesis
        by (simp add: get_content_in_one_page_def read_ok_def Let_def)
    next
      case False
      have "length rst < 65536" using len by simp
      with fa obtain r' rst' w2 where f2: "rd rst addr w1 = Inr (r', rst', w2)"
        "length rst' = length rst" "r' = of_nat (length rst) \<Longrightarrow> rst' = mem_bytes mem addr (length rst)"
        unfolding faithful_def by metis
      have z: "(of_nat (length rst) :: usize) = 0 \<longleftrightarrow> rst = []"
        using \<open>length rst < 65536\<close> by (auto simp: word_of_nat_eq_0_iff dest: dvd_imp_le)
      have "\<not> reads_all rd" using False tmp(3) by blast
      with None lp rd f1 f2 False co z show ?thesis
        by (auto simp: get_content_in_one_page_def read_ok_def Let_def)
    qed
  qed
qed

section \<open>Two pages\<close>

lemma unat_of_small: "n \<le> 4096 \<Longrightarrow> unat (of_nat n :: usize) = n"
  by (simp add: unat_of_nat)

lemma unat_sum:
  assumes "unat addr + n < 2 ^ 64"
  shows "unat (addr + of_nat n :: u64) = unat addr + n"
    and "uadd b addr (of_nat n) = Inr (addr + of_nat n)"
proof -
  have "unat (of_nat n :: u64) = n" using assms by (simp add: unat_of_nat)
  then show "unat (addr + of_nat n :: u64) = unat addr + n"
    and "uadd b addr (of_nat n) = Inr (addr + of_nat n)"
    using assms by (simp_all add: unat_word_ariths uadd_ok)
qed

lemma page_of_sum:
  assumes "unat addr + n < 2 ^ 64"
  shows "unat (page_of (addr + of_nat n)) =
    unat (page_of addr) + 4096 * ((unat (page_off addr) + n) div 4096)"
proof -
  have "unat (addr + of_nat n) = unat (page_of addr) + (unat (page_off addr) + n)"
    using unat_sum(1) [OF assms] unat_page_split [of addr] by simp
  moreover have "unat (page_of addr) = 4096 * (unat addr div 4096)" by (simp add: page_of_div)
  ultimately show ?thesis by (simp add: page_of_div)
qed

lemma page_room:
  assumes "unat (page_off x) + n < 4096"
  shows "unat x + n < 2 ^ 64"
proof -
  have "unat (page_of x + of_nat 4095) = unat (page_of x) + 4095" by (rule page_of_add) simp_all
  then show ?thesis
    using u64_less [of "page_of x + of_nat 4095"] unat_page_split [of x] assms by linarith
qed

lemma get_content_single:
  assumes "unat addr + length rst < 2 ^ 64" and "unat (page_off addr) + length rst < 4096"
  shows "get_content b rst addr s = get_content_in_one_page rst addr s"
proof -
  have "page_of (addr + of_nat (length rst)) = page_of addr"
    using page_of_sum [OF assms(1)] assms(2) by (simp add: word_eq_iff_unsigned [where ?'a = nat])
  then show ?thesis by (simp add: get_content_def Let_def unat_sum [OF assms(1)])
qed

lemma get_content_split:
  assumes sum: "unat addr + length rst < 2 ^ 64"
    and cross: "4096 \<le> unat (page_off addr) + length rst"
    and k: "k = (unat (page_off addr) + length rst) div 4096"
    and first: "first = 4096 * k - unat (page_off addr)"
  shows "get_content b rst addr s =
      res_bind (get_content_in_one_page (take first rst) addr s) (\<lambda>(n1, rst1, c1, w1).
      res_bind (get_content_in_one_page (drop first rst) (page_of addr + of_nat (4096 * k)) (c1, w1))
        (\<lambda>(n2, rst2, c2, w2). res_bind (uadd b n1 n2) (\<lambda>n. Inr (n, rst1 @ rst2, c2, w2))))"
    and "first \<le> length rst" and "length rst - first < 4096"
    and "unat (page_of addr + of_nat (4096 * k)) = unat (page_of addr) + 4096 * k"
    and "page_of (page_of addr + of_nat (4096 * k)) = page_of addr + of_nat (4096 * k)"
proof -
  let ?o = "unat (page_off addr)" and ?P = "unat (page_of addr)"
  let ?lim = "page_of (addr + of_nat (length rst))"
  have k1: "1 \<le> k" using cross k by simp
  have up: "4096 * k \<le> ?o + length rst" unfolding k by simp
  show first_le: "first \<le> length rst" using up first by simp
  have "?o + length rst < 4096 * k + 4096" unfolding k by simp
  then show "length rst - first < 4096" using first k1 page_off_less [of addr] by linarith
  have endu: "unat ?lim = ?P + 4096 * k" using page_of_sum [OF sum] k by simp
  have lt: "?P + 4096 * k < 2 ^ 64" using endu u64_less [of ?lim] by simp
  then show Pk: "unat (page_of addr + of_nat (4096 * k)) = ?P + 4096 * k"
    by (rule unat_sum)
  have end_eq: "?lim = page_of addr + of_nat (4096 * k)"
    using endu Pk by (simp only: word_eq_iff_unsigned [where ?'a = nat])
  then show "page_of (page_of addr + of_nat (4096 * k)) = page_of addr + of_nat (4096 * k)"
    by (metis page_of_idem)
  have ne: "page_of addr \<noteq> ?lim" using endu k1 by auto
  have addr: "unat addr = ?P + ?o" by (rule unat_page_split)
  have le: "addr \<le> ?lim"
    unfolding word_le_nat_alt using endu addr k1 page_off_less [of addr] by linarith
  have sub: "unat (?lim - addr) = first"
    using unat_sub [of addr ?lim] le endu addr first by (simp add: word_le_nat_alt)
  have add2: "unat addr + unat (?lim - addr) < 2 ^ 64"
    using sub addr first lt k1 page_off_less [of addr] by linarith
  have "uadd b addr (?lim - addr) = Inr ?lim" using uadd_ok [of addr "?lim - addr"] add2 by simp
  with ne le sub first_le show "get_content b rst addr s =
      res_bind (get_content_in_one_page (take first rst) addr s) (\<lambda>(n1, rst1, c1, w1).
      res_bind (get_content_in_one_page (drop first rst) (page_of addr + of_nat (4096 * k)) (c1, w1))
        (\<lambda>(n2, rst2, c2, w2). res_bind (uadd b n1 n2) (\<lambda>n. Inr (n, rst1 @ rst2, c2, w2))))"
    unfolding end_eq [symmetric]
    by (simp add: get_content_def Let_def unat_sum [OF sum] usub_ok slice_def case_prod_unfold)
qed

lemma get_content_ok:
  assumes co: "coherent mem c" and rd: "reader_fn c = Some rd" and fa: "faithful rd mem"
    and page: "page_of addr \<noteq> 0" and len: "length rst \<le> 4096"
    and sum: "unat addr + length rst < 2 ^ 64"
  shows "\<exists>r rst' c' w'. get_content b rst addr (c, w) = Inr (r, rst', c', w')
     \<and> coherent mem c' \<and> reader_fn c' = Some rd \<and> length rst' = length rst
     \<and> (r = of_nat (length rst) \<longrightarrow> rst' = mem_bytes mem addr (length rst))
     \<and> (reads_all rd \<longrightarrow> r = of_nat (length rst))"
proof (cases "unat (page_off addr) + length rst < 4096")
  case True
  with one_page_ok [OF co rd fa page, of rst w] show ?thesis
    unfolding get_content_single [OF sum True] read_ok_def by fastforce
next
  case False
  let ?o = "unat (page_off addr)" and ?a2 = "page_of addr + of_nat (4096 * 1)"
  define first where "first = 4096 * 1 - ?o"
  from False have cross: "4096 \<le> ?o + length rst" by simp
  have k: "1 = (?o + length rst) div 4096" 
  proof (rule div_nat_eqI [symmetric])
    show "?o + length rst < 4096 * Suc 1" using len page_off_less [of addr] by (simp del: page_off_less)
  qed (use cross in simp)
  note sp = get_content_split [OF sum cross k first_def]
  have len1: "length (take first rst) = first" using sp(2) by simp
  have "?o + first \<le> 4096" unfolding first_def using page_off_less [of addr] by linarith
  then obtain n1 rst1 c1 w1 where r1: "get_content_in_one_page (take first rst) addr (c, w) = Inr (n1, rst1, c1, w1)"
    "coherent mem c1" "reader_fn c1 = Some rd" "length rst1 = first" "n1 \<in> {0, of_nat first}"
    "n1 = of_nat first \<longrightarrow> rst1 = mem_bytes mem addr first" "reads_all rd \<longrightarrow> n1 = of_nat first"
    using one_page_ok [OF co rd fa page, of "take first rst" w] len1 by (auto simp: read_ok_def)
  have a2: "page_of ?a2 = ?a2" using sp(5) by simp
  have "?a2 \<noteq> 0" using sp(4) by (auto simp: word_eq_iff_unsigned [where ?'a = nat])
  moreover have "page_off ?a2 = 0" using a2 page_split [of ?a2] by simp
  moreover have "length (drop first rst) \<le> 4096" using len by simp
  ultimately obtain n2 rst2 c2 w2 where r2:
    "get_content_in_one_page (drop first rst) ?a2 (c1, w1) = Inr (n2, rst2, c2, w2)"
    "coherent mem c2" "reader_fn c2 = Some rd" "length rst2 = length rst - first"
    "n2 \<in> {0, of_nat (length rst - first)}"
    "n2 = of_nat (length rst - first) \<longrightarrow> rst2 = mem_bytes mem ?a2 (length rst - first)"
    "reads_all rd \<longrightarrow> n2 = of_nat (length rst - first)"
    using one_page_ok [OF r1(2,3) fa, of ?a2 "drop first rst" w1] len a2 by (auto simp: read_ok_def)
  have u1: "unat n1 \<le> first" "unat n1 = first \<longleftrightarrow> n1 = of_nat first"
    using r1(5) unat_of_small [of first] sp(2) len
    by (auto simp: word_eq_iff_unsigned [where ?'a = nat])
  have u2: "unat n2 \<le> length rst - first" "unat n2 = length rst - first \<longleftrightarrow> n2 = of_nat (length rst - first)"
    using r2(5) unat_of_small [of "length rst - first"] sp(2) len
    by (auto simp: word_eq_iff_unsigned [where ?'a = nat])
  have "unat n1 + unat n2 \<le> 4096" using u1(1) u2(1) sp(2) len by linarith
  then have "unat n1 + unat n2 < 2 ^ 64" by simp
  then have add: "uadd b n1 n2 = Inr (n1 + n2)" "unat (n1 + n2) = unat n1 + unat n2"
    by (simp_all add: uadd_ok unat_word_ariths)
  have full: "n1 + n2 = of_nat (length rst) \<longleftrightarrow> n1 = of_nat first \<and> n2 = of_nat (length rst - first)"
    using add(2) u1 u2 sp(2) unat_of_small [OF len]
    by (simp only: word_eq_iff_unsigned [where ?'a = nat]) linarith
  have "of_nat first = (4096 :: u64) - page_off addr"
    using page_off_less [of addr] by (simp add: first_def of_nat_diff less_imp_le)
  moreover have "addr - page_off addr = page_of addr" using page_split [of addr] by (simp add: diff_eq_eq)
  ultimately have "addr + of_nat first = (page_of addr + page_off addr) + (4096 - page_off addr)"
    using page_split [of addr] by simp
  then have "addr + of_nat first = ?a2" by simp
  then have "mem_bytes mem addr first @ mem_bytes mem ?a2 (length rst - first) = mem_bytes mem addr (length rst)"
    using mem_bytes_append [of mem addr first "length rst - first"] sp(2) by simp
  with r1 r2 add full sp(1) [of b "(c, w)"] sp(2) show ?thesis by auto
qed

section \<open>The cache as a source of memory\<close>

text \<open>
  What the decoder's image callback needs: reading \<open>length rst\<close> bytes at an address gives the
  process's bytes or reports a shorter size, and leaves a source that still does.
\<close>

fun read_seq :: "(bytes \<Rightarrow> u64 \<Rightarrow> 's \<Rightarrow> (usize \<times> bytes \<times> 's) res) \<Rightarrow> (u64 \<times> bytes) list \<Rightarrow> 's
    \<Rightarrow> ((usize \<times> bytes) list \<times> 's) res" where
  "read_seq rd [] s = Inr ([], s)"
| "read_seq rd ((a, buf) # reqs) s = res_bind (rd buf a s) (\<lambda>(r, buf', s').
     res_bind (read_seq rd reqs s') (\<lambda>(rs, s''). Inr ((r, buf') # rs, s'')))"

locale mem_source =
  fixes inv :: "'s \<Rightarrow> bool"
    and mem :: "u64 \<Rightarrow> u8"
    and in_range :: "u64 \<Rightarrow> nat \<Rightarrow> bool"
    and fill :: "bytes \<Rightarrow> u64 \<Rightarrow> 's \<Rightarrow> (usize \<times> bytes \<times> 's) res"
  assumes fill_law: "inv s \<Longrightarrow> in_range a (length buf) \<Longrightarrow>
    \<exists>r buf' s'. fill buf a s = Inr (r, buf', s') \<and> inv s' \<and> length buf' = length buf
      \<and> (r = of_nat (length buf) \<longrightarrow> buf' = mem_bytes mem a (length buf))"
begin

lemma read_seq_law:
  assumes "inv s" and "\<forall>(a, buf) \<in> set reqs. in_range a (length buf)"
  shows "\<exists>out s'. read_seq fill reqs s = Inr (out, s') \<and> inv s'
     \<and> list_all2 (\<lambda>(a, buf) (r, buf'). length buf' = length buf
          \<and> (r = of_nat (length buf) \<longrightarrow> buf' = mem_bytes mem a (length buf))) reqs out"
  using assms
proof (induction reqs arbitrary: s)
  case Nil
  then show ?case by simp
next
  case (Cons q reqs)
  obtain a buf where q: "q = (a, buf)" by (cases q)
  from Cons.prems q fill_law [of s a buf] obtain r buf' s1 where
    f: "fill buf a s = Inr (r, buf', s1)" "inv s1" "length buf' = length buf"
    "r = of_nat (length buf) \<longrightarrow> buf' = mem_bytes mem a (length buf)" by auto
  from Cons.IH [OF f(2)] Cons.prems(2) obtain out s2 where
    "read_seq fill reqs s1 = Inr (out, s2)" "inv s2"
    "list_all2 (\<lambda>(a, buf) (r, buf'). length buf' = length buf
          \<and> (r = of_nat (length buf) \<longrightarrow> buf' = mem_bytes mem a (length buf))) reqs out"
    by auto
  with f q show ?case by simp
qed

end

definition cache_inv :: "(u64 \<Rightarrow> u8) \<Rightarrow> 'w MemCacher \<times> 'w \<Rightarrow> bool" where
  "cache_inv mem = (\<lambda>(c, w). coherent mem c \<and> (\<exists>rd. reader_fn c = Some rd \<and> faithful rd mem))"

definition cache_range :: "u64 \<Rightarrow> nat \<Rightarrow> bool" where
  "cache_range a n \<longleftrightarrow> page_of a \<noteq> 0 \<and> n \<le> 4096 \<and> unat a + n < 2 ^ 64"

interpretation cached: mem_source "cache_inv mem" mem cache_range "get_content b" for mem b
proof unfold_locales
  fix s :: "'a MemCacher \<times> 'a" and a :: u64 and buf :: bytes
  obtain c w where s: "s = (c, w)" by (cases s)
  assume "cache_inv mem s" and "cache_range a (length buf)"
  with s obtain rd where rd: "coherent mem c" "reader_fn c = Some rd" "faithful rd mem"
    "page_of a \<noteq> 0" "length buf \<le> 4096" "unat a + length buf < 2 ^ 64"
    by (auto simp: cache_inv_def cache_range_def)
  from get_content_ok [OF this, of b w] rd(3) s
  show "\<exists>r buf' s'. get_content b buf a s = Inr (r, buf', s') \<and> cache_inv mem s'
      \<and> length buf' = length buf \<and> (r = of_nat (length buf) \<longrightarrow> buf' = mem_bytes mem a (length buf))"
    by (auto simp: cache_inv_def)
qed

section \<open>Properties\<close>


text \<open>A callback that reads a constant memory, for the witnesses.\<close>

definition const_reader :: "u8 \<Rightarrow> unit reader" where
  "const_reader x buf a w = Inr (of_nat (length buf), replicate (length buf) x, w)"

lemma const_reader_faithful: "faithful (const_reader x) (\<lambda>_. x)" "reads_all (const_reader x)"
  by (auto simp: faithful_def reads_all_def const_reader_def mem_bytes_def map_replicate_const)

lemma const_reader_inv: "cache_inv (\<lambda>_. x) (MemCacher_new\<lparr>reader_fn := Some (const_reader x)\<rparr>, ())"
  by (simp add: cache_inv_def coherent_set_reader coherent_new const_reader_faithful)


text \<open>
  Also: if moreover the callback never fails, the request is answered with its
  full length and the process's bytes.
\<close>

theorem cache_reads_fully:
  assumes "coherent mem c" and "reader_fn c = Some rd" and "faithful rd mem" and "reads_all rd"
    and "cache_range addr (length rst)"
  shows "\<exists>c' w'. get_content b rst addr (c, w) =
     Inr (of_nat (length rst), mem_bytes mem addr (length rst), c', w') \<and> coherent mem c'"
  using get_content_ok [OF assms(1-3), of addr rst b w] assms(4,5) by (auto simp: cache_range_def)

theorem cache_reads_fully_witness:
  "\<exists>c' w'. get_content Release [0, 0, 0, 0] 0x1ffe
       (MemCacher_new\<lparr>reader_fn := Some (const_reader 7)\<rparr>, ()) = Inr (4, [7, 7, 7, 7], c', w')"
proof -
  have "cache_range 0x1ffe (length [0, 0, 0, 0 :: u8])" by (simp add: cache_range_def page_of_def)
  moreover have "coherent (\<lambda>_. 7) (MemCacher_new\<lparr>reader_fn := Some (const_reader 7)\<rparr>)"
    by (simp add: coherent_set_reader coherent_new)
  ultimately show ?thesis
    using cache_reads_fully [OF _ _ const_reader_faithful [of 7],
        of "MemCacher_new\<lparr>reader_fn := Some (const_reader 7)\<rparr>" "0x1ffe" "[0, 0, 0, 0]" Release "()"]
    by (fastforce simp: mem_bytes_def)
qed

text \<open>
  Also: \<open>last_page\<close> starts as 0 and is never set, so a read in page 0 always takes
  the shortcut; on a new or cleared cache it dereferences a null pointer.
\<close>

theorem page_zero_null:
  assumes "page_of addr = 0" and "unat addr + length rst < 4096"
  shows "get_content b rst addr ((clear_data c)\<lparr>reader_fn := f\<rparr>, w) = Inl NullDeref"
proof -
  have "unat (page_off addr) = unat addr" using unat_page_split [of addr] assms(1) by simp
  with assms(2) have "get_content b rst addr s = get_content_in_one_page rst addr s" for s :: "'a MemCacher \<times> 'a"
    by (intro get_content_single) simp_all
  then show ?thesis
    by (simp only:) (simp add: get_content_in_one_page_def clear_data_def assms(1) Let_def)
qed

theorem page_zero_null_witness:
  "get_content Release [0, 0] 0x10 ((clear_data MemCacher_new)\<lparr>reader_fn := Some (const_reader 7)\<rparr>, ())
   = Inl NullDeref"
  by (rule page_zero_null) (simp_all add: page_of_def)

text \<open>
  Also: after any other page has been fetched, a read in page 0 is answered, as
  a success, with the bytes of the page fetched last.
\<close>

theorem page_zero_stale:
  assumes "coherent mem c" and "reader_fn c = Some rd" and "faithful rd mem" and "reads_all rd"
    and "hm_get (cache_lst c) (page_of a) = None" and "page_of a \<noteq> 0"
    and "unat (page_off a) + length buf < 4096"
    and "page_of addr = 0" and "unat addr + length rst < 4096"
  shows "\<exists>r buf' c' w'. get_content b buf a (c, w) = Inr (r, buf', c', w')
     \<and> get_content b rst addr (c', w') =
         Inr (of_nat (length rst), mem_bytes mem (page_of a + addr) (length rst), c', w')"
proof -
  obtain tmp w1 where f: "rd (replicate 4096 0) (page_of a) w = Inr (4096, tmp, w1)"
    and tmp: "tmp = mem_bytes mem (page_of a) 4096"
    using faithful_page [OF assms(3), of "page_of a" w] assms(4) by blast
  let ?c' = "c\<lparr>last_content := Some (next_box c),
    cache_lst := hm_insert (cache_lst c) (page_of a) (next_box c),
    boxes := (boxes c)(next_box c \<mapsto> tmp), next_box := next_box c + 1\<rparr>"
  have lp: "last_page c = 0" using assms(1) by (simp add: coherent_def)
  have "get_content b buf a (c, w) = Inr (of_nat (length buf), mem_bytes mem a (length buf), ?c', w1)"
    unfolding get_content_single [OF page_room [OF assms(7)] assms(7)]
    using cache_item_bytes [of a buf mem] f tmp assms(2,5,6,7) lp
    by (simp add: get_content_in_one_page_def Let_def)
  moreover have off: "unat (page_off addr) = unat addr"
    using unat_page_split [of addr] assms(8) by simp
  have "get_content b rst addr (?c', w1) =
      Inr (of_nat (length rst), mem_bytes mem (page_of a + addr) (length rst), ?c', w1)"
  proof -
    have pg: "page_of (page_of a + addr) = page_of a" "page_off (page_of a + addr) = page_off addr"
      using page_of_add [of "page_of a" "unat addr"] assms(8,9) off
      by (auto simp: word_eq_iff_unsigned [where ?'a = nat])
    have "get_content_in_cache_item tmp addr rst = get_content_in_cache_item tmp (page_of a + addr) rst"
      by (simp add: get_content_in_cache_item_def pg)
    with cache_item_bytes [of "page_of a + addr" rst mem] tmp assms(9) pg off
    have "get_content_in_cache_item tmp addr rst =
        Inr (of_nat (length rst), mem_bytes mem (page_of a + addr) (length rst))" by simp
    moreover have "get_content b rst addr (?c', w1) = get_content_in_one_page rst addr (?c', w1)"
      using assms(9) off by (intro get_content_single) simp_all
    ultimately show ?thesis
      using assms(8) lp by (simp only:) (simp add: get_content_in_one_page_def Let_def deref_box_def)
  qed
  ultimately show ?thesis by blast
qed

theorem page_zero_stale_witness:
  "\<exists>r buf' c' w'. get_content Debug [0] 0x2000 (MemCacher_new\<lparr>reader_fn := Some (const_reader 7)\<rparr>, ())
       = Inr (r, buf', c', w')
     \<and> get_content Debug [0, 0] 0x10 (c', w') = Inr (2, [7, 7], c', w')"
  using page_zero_stale [OF _ _ const_reader_faithful [of 7],
      of "MemCacher_new\<lparr>reader_fn := Some (const_reader 7)\<rparr>" "0x2000" "[0]" "0x10" "[0, 0]" Debug "()"]
  by (simp add: coherent_set_reader coherent_new cache_lst_new page_of_def page_off_def mem_bytes_def)

text \<open>
  Also: the routine splits a request once, at the last page boundary. If the
  request spans two boundaries, its first part is longer than a page, and slicing the page out
  of range panics once the first page is there.
\<close>

theorem three_page_panic:
  assumes "coherent mem c" and "reader_fn c = Some rd" and "faithful rd mem" and "reads_all rd"
    and "page_of addr \<noteq> 0" and "unat addr + length rst < 2 ^ 64"
    and "8192 \<le> unat (page_off addr) + length rst"
  shows "get_content b rst addr (c, w) = Inl OutOfBounds"
proof -
  define k where "k = (unat (page_off addr) + length rst) div 4096"
  define first where "first = 4096 * k - unat (page_off addr)"
  have "2 \<le> k" unfolding k_def using div_le_mono [OF assms(7), of 4096] by simp
  have "4096 \<le> unat (page_off addr) + length rst" using assms(7) by simp
  note sp = get_content_split [OF assms(6) this k_def first_def]
  have long: "4096 < unat (page_off addr) + length (take first rst)"
    using \<open>2 \<le> k\<close> sp(2) page_off_less [of addr] unfolding first_def by (simp del: page_off_less)
  obtain tmp w1 where f: "rd (replicate 4096 0) (page_of addr) w = Inr (4096, tmp, w1)"
    and tmp: "length tmp = 4096"
    using faithful_page [OF assms(3), of "page_of addr" w] assms(4) by blast
  have lp: "last_page c \<noteq> page_of addr" using assms(1,5) by (simp add: coherent_def)
  have "get_content_in_one_page (take first rst) addr (c, w) = Inl OutOfBounds"
  proof (cases "hm_get (cache_lst c) (page_of addr)")
    case (Some bx)
    with coherent_box [OF assms(1) Some] cache_item_too_long [OF long] lp show ?thesis
      by (simp add: get_content_in_one_page_def Let_def)
  next
    case None
    with cache_item_too_long [OF long tmp] f lp assms(2) show ?thesis
      by (simp add: get_content_in_one_page_def Let_def)
  qed
  then show ?thesis unfolding sp(1) by simp
qed

theorem three_page_panic_witness:
  "get_content Release (replicate 8192 0) 0x1000
     (MemCacher_new\<lparr>reader_fn := Some (const_reader 7)\<rparr>, ()) = Inl OutOfBounds"
  by (rule three_page_panic [OF _ _ const_reader_faithful [of 7]])
    (simp_all add: coherent_set_reader coherent_new page_of_def page_off_def)

text \<open>
  Also: once a read inside a page has succeeded with a callback that
  never fails, every later read inside that page leaves the cache and the outside world as
  they are: the page is fetched once.
\<close>

theorem cached_page_not_refetched:
  assumes "coherent mem c" and "reader_fn c = Some rd" and "faithful rd mem" and "reads_all rd"
    and "page_of a \<noteq> 0" and "page_of a' = page_of a"
    and "unat (page_off a) + length buf < 4096" and "unat (page_off a') + length buf' < 4096"
  shows "\<exists>n out c' w'. get_content b buf a (c, w) = Inr (n, out, c', w')
     \<and> get_content b buf' a' (c', w') = Inr (of_nat (length buf'), mem_bytes mem a' (length buf'), c', w')"
proof -
  have lp: "last_page c \<noteq> page_of a" using assms(1,5) by (simp add: coherent_def)
  have hit: "get_content_in_one_page buf' a' (c', w') =
      Inr (of_nat (length buf'), mem_bytes mem a' (length buf'), c', w')"
    if "last_page c' \<noteq> page_of a" "hm_get (cache_lst c') (page_of a) = Some bx"
      "deref_box c' bx = Inr (mem_bytes mem (page_of a) 4096)" for c' :: "'a MemCacher" and w' bx
    using that assms(6) cache_item_bytes [of a' buf' mem] assms(8)
    by (simp add: get_content_in_one_page_def Let_def)
  note single = get_content_single [OF page_room [OF assms(7)] assms(7)]
    get_content_single [OF page_room [OF assms(8)] assms(8)]
  have item: "get_content_in_cache_item (mem_bytes mem (page_of a) 4096) a buf =
      Inr (of_nat (length buf), mem_bytes mem a (length buf))"
    using assms(7) by (intro cache_item_bytes) simp
  show ?thesis
  proof (cases "hm_get (cache_lst c) (page_of a)")
    case (Some bx)
    with coherent_box [OF assms(1) Some] item lp
    have "get_content_in_one_page buf a (c, w) = Inr (of_nat (length buf), mem_bytes mem a (length buf), c, w)"
      by (simp add: get_content_in_one_page_def Let_def)
    with hit [OF lp Some coherent_box [OF assms(1) Some]] show ?thesis unfolding single by blast
  next
    case None
    obtain w1 where f: "rd (replicate 4096 0) (page_of a) w = Inr (4096, mem_bytes mem (page_of a) 4096, w1)"
      using faithful_page [OF assms(3), of "page_of a" w] assms(4) by blast
    let ?c' = "c\<lparr>last_content := Some (next_box c),
      cache_lst := hm_insert (cache_lst c) (page_of a) (next_box c),
      boxes := (boxes c)(next_box c \<mapsto> mem_bytes mem (page_of a) 4096), next_box := next_box c + 1\<rparr>"
    have "get_content_in_one_page buf a (c, w) =
        Inr (of_nat (length buf), mem_bytes mem a (length buf), ?c', w1)"
      using None f item lp assms(2) by (simp add: get_content_in_one_page_def Let_def)
    moreover have "get_content_in_one_page buf' a' (?c', w1) =
        Inr (of_nat (length buf'), mem_bytes mem a' (length buf'), ?c', w1)"
      using lp by (intro hit [of _ "next_box c"]) (simp_all add: deref_box_def)
    ultimately show ?thesis unfolding single by blast
  qed
qed

theorem cached_page_not_refetched_witness:
  "\<exists>n out c' w'. get_content Debug [0] 0x2000
       (MemCacher_new\<lparr>reader_fn := Some (const_reader 7)\<rparr>, ()) = Inr (n, out, c', w')
     \<and> get_content Debug [0, 0] 0x2010 (c', w') = Inr (2, [7, 7], c', w')"
  using cached_page_not_refetched [OF _ _ const_reader_faithful [of 7],
      of "MemCacher_new\<lparr>reader_fn := Some (const_reader 7)\<rparr>" "0x2000" "0x2010" "[0]" "[0, 0]" Debug "()"]
  by (simp add: coherent_set_reader coherent_new cache_lst_new page_of_def page_off_def mem_bytes_def)

end
