(* ===== verification/NativeHelper.thy ===== *)
theory NativeHelper
  imports Prelude
begin

text \<open>
  The module table of the traced process (\<open>src/src/native_helper/mod.rs\<close>): reading it from
  \<open>LibNativeHelper.dll\<close>, and resolving an address to a module and an offset, with the module
  found last tried first.

  A Rust \<open>String\<close> is the list of its UTF-8 bytes as characters.
\<close>

section \<open>State\<close>

record ModuleInfo =
  mod_name :: string
  mod_base :: u64
  mod_size :: u64

definition new_dummy :: ModuleInfo where
  "new_dummy = \<lparr>mod_name = ''Dummy'', mod_base = 0, mod_size = 0\<rparr>"

record ModuleInfoInner =
  inner_name :: bytes
  inner_base :: u64
  inner_size :: u64

definition ModuleInfoInner_default :: ModuleInfoInner where
  "ModuleInfoInner_default = \<lparr>inner_name = replicate 256 0, inner_base = 0, inner_size = 0\<rparr>"

record Process =
  proc_pid :: usize
  module_info_cache :: "ModuleInfo option"
  all_module_info :: "ModuleInfo list"
  modules_by_name :: "(string, ModuleInfo) hash_map"

datatype module_error = LoadError | Utf8Error

section \<open>Reading the table\<close>

text \<open>\<open>CStr::from_ptr\<close>: the bytes before the first zero; with none it reads past the array.\<close>

definition c_string :: "bytes \<Rightarrow> bytes res" where
  "c_string name = (if 0 \<in> set name then Inr (takeWhile (\<lambda>x. x \<noteq> 0) name) else Inl BufferOverrun)"

text \<open>UTF-8, as \<open>String::from_utf8\<close> accepts it.\<close>

definition cont :: "u8 \<Rightarrow> bool" where
  "cont x \<longleftrightarrow> 0x80 \<le> x \<and> x \<le> 0xBF"

fun utf8_valid :: "bytes \<Rightarrow> bool" where
  "utf8_valid [] = True"
| "utf8_valid (x # xs) =
     (if x < 0x80 then utf8_valid xs
      else case xs of [] \<Rightarrow> False | y # ys \<Rightarrow>
        if 0xC2 \<le> x \<and> x \<le> 0xDF then cont y \<and> utf8_valid ys
        else case ys of [] \<Rightarrow> False | z # zs \<Rightarrow>
          if x = 0xE0 then 0xA0 \<le> y \<and> y \<le> 0xBF \<and> cont z \<and> utf8_valid zs
          else if x = 0xED then 0x80 \<le> y \<and> y \<le> 0x9F \<and> cont z \<and> utf8_valid zs
          else if 0xE1 \<le> x \<and> x \<le> 0xEF then cont y \<and> cont z \<and> utf8_valid zs
          else case zs of [] \<Rightarrow> False | t # ts \<Rightarrow>
            if x = 0xF0 then 0x90 \<le> y \<and> y \<le> 0xBF \<and> cont z \<and> cont t \<and> utf8_valid ts
            else if x = 0xF4 then 0x80 \<le> y \<and> y \<le> 0x8F \<and> cont z \<and> cont t \<and> utf8_valid ts
            else 0xF1 \<le> x \<and> x \<le> 0xF3 \<and> cont y \<and> cont z \<and> cont t \<and> utf8_valid ts)"

definition into_string :: "bytes \<Rightarrow> string option" where
  "into_string s = (if utf8_valid s then Some (map (\<lambda>x. char_of (unat x)) s) else None)"

text \<open>
  The library is a parameter: \<open>None\<close> when it or its symbol cannot be loaded, else the
  function, from the process id and the array's length to a count and the records it stores
  at the front of the array.
\<close>

type_synonym native_lib = "(u32 \<Rightarrow> u32 \<Rightarrow> u32 \<times> ModuleInfoInner list) option"

fun collect_modules :: "ModuleInfoInner list \<Rightarrow> nat list \<Rightarrow> (module_error + ModuleInfo list) res" where
  "collect_modules r [] = Inr (Inr [])"
| "collect_modules r (i # is) =
     res_bind (index_at r i) (\<lambda>a.
     res_bind (c_string (inner_name a)) (\<lambda>c_str.
     case into_string c_str of
       None \<Rightarrow> Inr (Inl Utf8Error)
     | Some s \<Rightarrow> res_bind (collect_modules r is) (\<lambda>rest.
         Inr (map_sum id (\<lambda>ms. \<lparr>mod_name = s, mod_base = inner_base a, mod_size = inner_size a\<rparr> # ms)
           rest))))"

definition get_module_info :: "native_lib \<Rightarrow> usize \<Rightarrow> (module_error + ModuleInfo list) res" where
  "get_module_info lib pid =
     (case lib of
        None \<Rightarrow> Inr (Inl LoadError)
      | Some func \<Rightarrow>
          let r = replicate 1024 ModuleInfoInner_default;
              (cnt, stored) = func (ucast pid) (of_nat (length r))
          in if length stored > length r then Inl BufferOverrun
             else collect_modules (stored @ drop (length stored) r) [0..<unat cnt])"

section \<open>Operations\<close>

definition Process_new :: "native_lib \<Rightarrow> usize \<Rightarrow> Process res" where
  "Process_new lib pid =
     res_bind (get_module_info lib pid) (\<lambda>rst.
     case rst of
       Inl e \<Rightarrow> Inl UnwrapErr
     | Inr all_modules \<Rightarrow>
         Inr \<lparr>proc_pid = pid, module_info_cache = None, all_module_info = all_modules,
              modules_by_name = fold (\<lambda>x m. hm_insert m (mod_name x) x) all_modules []\<rparr>)"

text \<open>\<open>addr >= base && addr <= base + size\<close>: the sum is computed only if the left side holds.\<close>

definition in_module :: "build \<Rightarrow> usize \<Rightarrow> ModuleInfo \<Rightarrow> bool res" where
  "in_module b addr m =
     (if addr \<ge> mod_base m
      then res_bind (uadd b (mod_base m) (mod_size m)) (\<lambda>e. Inr (addr \<le> e))
      else Inr False)"

fun scan_modules :: "build \<Rightarrow> usize \<Rightarrow> ModuleInfo list \<Rightarrow> ModuleInfo option res" where
  "scan_modules b addr [] = Inr None"
| "scan_modules b addr (m # ms) =
     res_bind (in_module b addr m) (\<lambda>found. if found then Inr (Some m) else scan_modules b addr ms)"

definition module_offset :: "usize \<Rightarrow> ModuleInfo \<Rightarrow> string \<times> usize" where
  "module_offset addr m = (mod_name m, addr - mod_base m)"

definition query_module_info_by_addr ::
    "build \<Rightarrow> usize \<Rightarrow> Process \<Rightarrow> ((unit + string \<times> usize) \<times> Process) res" where
  "query_module_info_by_addr b addr p =
     res_bind (case module_info_cache p of None \<Rightarrow> Inr False | Some m \<Rightarrow> in_module b addr m)
       (\<lambda>cached.
     if cached then Inr (Inr (module_offset addr (the (module_info_cache p))), p)
     else res_bind (scan_modules b addr (all_module_info p)) (\<lambda>found.
       case found of
         Some m \<Rightarrow> Inr (Inr (module_offset addr m), p\<lparr>module_info_cache := Some m\<rparr>)
       | None \<Rightarrow> Inr (Inl (), p)))"

definition query_module_info_by_module_name :: "string \<Rightarrow> Process \<Rightarrow> unit + usize \<times> usize" where
  "query_module_info_by_module_name name p =
     (case hm_get (modules_by_name p) name of
        Some r \<Rightarrow> Inr (mod_base r, mod_size r)
      | None \<Rightarrow> Inl ())"

section \<open>Resolving addresses\<close>

text \<open>
  What a client of the module table relies on: every query has one answer, whatever was asked
  before.
\<close>

fun ask_all :: "('a \<Rightarrow> 's \<Rightarrow> ('r \<times> 's) res) \<Rightarrow> 'a list \<Rightarrow> 's \<Rightarrow> ('r list \<times> 's) res" where
  "ask_all ask [] s = Inr ([], s)"
| "ask_all ask (a # as) s =
     res_bind (ask a s) (\<lambda>(r, s'). res_bind (ask_all ask as s') (\<lambda>(rs, s''). Inr (r # rs, s'')))"

locale resolver =
  fixes inv :: "'s \<Rightarrow> bool"
    and answer :: "'a \<Rightarrow> 'r"
    and ask :: "'a \<Rightarrow> 's \<Rightarrow> ('r \<times> 's) res"
  assumes ask_law: "inv s \<Longrightarrow> \<exists>s'. ask a s = Inr (answer a, s') \<and> inv s'"
begin

lemma ask_all_law:
  assumes "inv s"
  shows "\<exists>s'. ask_all ask as s = Inr (map answer as, s') \<and> inv s'"
  using assms
proof (induction as arbitrary: s)
  case Nil
  then show ?case by simp
next
  case (Cons a as)
  from ask_law [OF Cons.prems, of a] obtain s' where s': "ask a s = Inr (answer a, s')" "inv s'" by blast
  from Cons.IH [OF s'(2)] s'(1) show ?case by auto
qed

end

text \<open>
  \<open>covers m addr\<close>: the code's test, with its inclusive upper bound. A table is separated when
  no module's range runs past the address space and no address is covered twice.
\<close>

definition covers :: "ModuleInfo \<Rightarrow> usize \<Rightarrow> bool" where
  "covers m addr \<longleftrightarrow> unat (mod_base m) \<le> unat addr
     \<and> unat addr \<le> unat (mod_base m) + unat (mod_size m)"

definition module_fits :: "ModuleInfo \<Rightarrow> bool" where
  "module_fits m \<longleftrightarrow> unat (mod_base m) + unat (mod_size m) < 2 ^ 64"

definition separated :: "ModuleInfo list \<Rightarrow> bool" where
  "separated ms \<longleftrightarrow> (\<forall>m \<in> set ms. module_fits m)
     \<and> (\<forall>m \<in> set ms. \<forall>m' \<in> set ms. \<forall>addr. covers m addr \<longrightarrow> covers m' addr \<longrightarrow> m = m')"

definition resolve :: "ModuleInfo list \<Rightarrow> usize \<Rightarrow> unit + string \<times> usize" where
  "resolve ms addr = (case find (\<lambda>m. covers m addr) ms of
     None \<Rightarrow> Inl () | Some m \<Rightarrow> Inr (module_offset addr m))"

definition process_inv :: "ModuleInfo list \<Rightarrow> Process \<Rightarrow> bool" where
  "process_inv ms p \<longleftrightarrow> separated ms \<and> all_module_info p = ms
     \<and> (\<forall>m. module_info_cache p = Some m \<longrightarrow> m \<in> set ms)"

lemma in_module_fits: "module_fits m \<Longrightarrow> in_module b addr m = Inr (covers m addr)"
  by (simp add: in_module_def module_fits_def covers_def uadd_ok word_le_nat_alt unat_word_ariths)

lemma scan_modules_find:
  "\<forall>m \<in> set ms. module_fits m \<Longrightarrow> scan_modules b addr ms = Inr (find (\<lambda>m. covers m addr) ms)"
  by (induction ms) (auto simp: in_module_fits)

lemma find_SomeD: "find P xs = Some x \<Longrightarrow> x \<in> set xs \<and> P x"
  by (auto simp: find_Some_iff)

lemma find_separated:
  assumes "separated ms" and "m \<in> set ms" and "covers m addr"
  shows "find (\<lambda>m. covers m addr) ms = Some m"
proof (cases "find (\<lambda>m. covers m addr) ms")
  case None
  with assms(2,3) show ?thesis by (simp add: find_None_iff)
next
  case (Some m')
  from find_SomeD [OF this] have "m' \<in> set ms" "covers m' addr" by simp_all
  with Some assms show ?thesis by (auto simp: separated_def)
qed

interpretation modules: resolver "process_inv ms" "resolve ms" "query_module_info_by_addr b" for ms b
proof unfold_locales
  fix p :: Process and addr :: usize
  assume inv: "process_inv ms p"
  then have fits: "\<forall>m \<in> set ms. module_fits m" by (simp add: process_inv_def separated_def)
  show "\<exists>p'. query_module_info_by_addr b addr p = Inr (resolve ms addr, p') \<and> process_inv ms p'"
  proof (cases "\<exists>m. module_info_cache p = Some m \<and> covers m addr")
    case True
    then obtain m where m: "module_info_cache p = Some m" "covers m addr" by blast
    with inv have "m \<in> set ms" "separated ms" by (auto simp: process_inv_def)
    with m fits inv find_separated [of ms m addr] show ?thesis
      by (simp add: query_module_info_by_addr_def in_module_fits resolve_def)
  next
    case False
    with fits inv have "(case module_info_cache p of None \<Rightarrow> Inr False | Some m \<Rightarrow> in_module b addr m)
      = Inr False" by (auto simp: process_inv_def in_module_fits split: option.split)
    with fits inv show ?thesis
      by (cases "find (\<lambda>m. covers m addr) ms")
        (auto simp: query_module_info_by_addr_def scan_modules_find resolve_def process_inv_def
          dest: find_SomeD)
  qed
qed

section \<open>Properties\<close>

text \<open>
  C28: if no address is covered by two modules, upper bounds included, every
  sequence of address queries is answered as a search of the whole table would answer it,
  whatever the cache held before; no query faults, in either build.
\<close>

theorem module_query_exact:
  assumes "process_inv ms p"
  shows "\<exists>p'. ask_all (query_module_info_by_addr b) addrs p = Inr (map (resolve ms) addrs, p')
     \<and> process_inv ms p'"
  using assms by (rule modules.ask_all_law)

text \<open>
  Also: the upper bound of the test is inclusive, so where one module begins at
  the end of another the answer for the common address depends on the query before it: asked
  first, it is the end of the lower module; asked after an address inside the upper module,
  it is the start of the upper one.
\<close>

theorem module_boundary:
  assumes "all_module_info p = [lower, upper]" and "module_info_cache p = None"
    and "module_fits lower" and "module_fits upper"
    and "mod_base upper = mod_base lower + mod_size lower" and "0 < mod_size upper"
  shows "map_sum id fst (query_module_info_by_addr b (mod_base upper) p) =
      Inr (Inr (mod_name lower, mod_size lower))
    \<and> map_sum id fst (ask_all (query_module_info_by_addr b) [mod_base upper + 1, mod_base upper] p) =
      Inr [Inr (mod_name upper, 1), Inr (mod_name upper, 0)]"
proof -
  let ?u = "mod_base upper"
  have u: "unat ?u = unat (mod_base lower) + unat (mod_size lower)"
    using assms(3,5) by (simp add: module_fits_def unat_word_ariths)
  have s: "0 < unat (mod_size upper)" using assms(6) by (simp add: word_less_nat_alt)
  then have u1: "unat (?u + 1) = unat ?u + 1"
    using assms(4) by (simp add: module_fits_def unat_word_ariths)
  have c: "covers lower ?u" "covers upper ?u" "covers upper (?u + 1)" "\<not> covers lower (?u + 1)"
    using u u1 s by (simp_all add: covers_def)
  show ?thesis
    using c assms by (simp add: query_module_info_by_addr_def in_module_fits module_offset_def)
qed

text \<open>Two adjacent modules, for the witnesses.\<close>

definition mod_a :: ModuleInfo where
  "mod_a = \<lparr>mod_name = ''a'', mod_base = 0x1000, mod_size = 0x100\<rparr>"

definition mod_b :: ModuleInfo where
  "mod_b = \<lparr>mod_name = ''b'', mod_base = 0x1100, mod_size = 0x100\<rparr>"

definition mod_c :: ModuleInfo where
  "mod_c = \<lparr>mod_name = ''c'', mod_base = 0x2000, mod_size = 0x100\<rparr>"

definition process_of :: "ModuleInfo list \<Rightarrow> Process" where
  "process_of ms = \<lparr>proc_pid = 0, module_info_cache = None, all_module_info = ms, modules_by_name = []\<rparr>"

theorem module_boundary_witness:
  "map_sum id fst (query_module_info_by_addr Debug 0x1100 (process_of [mod_a, mod_b])) =
      Inr (Inr (''a'', 0x100))
    \<and> map_sum id fst (ask_all (query_module_info_by_addr Debug) [0x1101, 0x1100] (process_of [mod_a, mod_b])) =
      Inr [Inr (''b'', 1), Inr (''b'', 0)]"
proof -
  have "all_module_info (process_of [mod_a, mod_b]) = [mod_a, mod_b]"
    "module_info_cache (process_of [mod_a, mod_b]) = None" by (simp_all add: process_of_def)
  moreover have "module_fits mod_a" "module_fits mod_b"
    "mod_base mod_b = mod_base mod_a + mod_size mod_a" "0 < mod_size mod_b"
    by (simp_all add: module_fits_def mod_a_def mod_b_def)
  moreover have "mod_base mod_b = 0x1100" "mod_size mod_a = 0x100" "mod_name mod_a = ''a''" "mod_name mod_b = ''b''"
    by (simp_all add: mod_a_def mod_b_def)
  ultimately show ?thesis
    using module_boundary [of "process_of [mod_a, mod_b]" mod_a mod_b Debug] by simp
qed

theorem module_query_exact_witness:
  "\<exists>p'. ask_all (query_module_info_by_addr Release) [0x1010, 0x1020, 0x2001, 0x3000] (process_of [mod_a, mod_c])
     = Inr ([Inr (''a'', 0x10), Inr (''a'', 0x20), Inr (''c'', 1), Inl ()], p')"
proof -
  have inv: "process_inv [mod_a, mod_c] (process_of [mod_a, mod_c])"
    by (auto simp: process_inv_def separated_def module_fits_def covers_def process_of_def mod_a_def mod_c_def)
  have r: "map (resolve [mod_a, mod_c]) [0x1010, 0x1020, 0x2001, 0x3000] =
    [Inr (''a'', 0x10), Inr (''a'', 0x20), Inr (''c'', 1), Inl ()]"
    by (simp add: resolve_def covers_def module_offset_def mod_a_def mod_c_def)
  from module_query_exact [OF inv, of Release "[0x1010, 0x1020, 0x2001, 0x3000]"] show ?thesis
    unfolding r by blast
qed

text \<open>A record that holds a module: its name's bytes, a zero, and anything.\<close>

definition name_bytes :: "string \<Rightarrow> bytes" where
  "name_bytes s = map (\<lambda>c. of_nat (of_char c)) s"

definition encodes :: "ModuleInfoInner \<Rightarrow> ModuleInfo \<Rightarrow> bool" where
  "encodes a m \<longleftrightarrow> take (length (mod_name m) + 1) (inner_name a) = name_bytes (mod_name m) @ [0]
     \<and> 0 \<notin> set (name_bytes (mod_name m)) \<and> utf8_valid (name_bytes (mod_name m))
     \<and> inner_base a = mod_base m \<and> inner_size a = mod_size m"

lemma unat_of_char: "unat (of_nat (of_char c) :: u8) = of_char c"
proof -
  have "(of_char c :: nat) = of_char c mod 256" by simp
  also have "\<dots> < 256" by (rule mod_less_divisor) simp
  finally show ?thesis by (simp add: unat_of_nat)
qed

lemma into_string_name: "utf8_valid (name_bytes s) \<Longrightarrow> into_string (name_bytes s) = Some s"
  by (simp add: into_string_def name_bytes_def unat_of_char map_idI del: of_nat_of_char)

lemma c_string_name:
  assumes "encodes a m"
  shows "c_string (inner_name a) = Inr (name_bytes (mod_name m))"
proof -
  have "inner_name a = (name_bytes (mod_name m) @ [0]) @ drop (length (mod_name m) + 1) (inner_name a)"
    using assms by (metis append_take_drop_id encodes_def)
  then obtain pad where pad: "inner_name a = name_bytes (mod_name m) @ 0 # pad" by auto
  have "x \<noteq> 0" if "x \<in> set (name_bytes (mod_name m))" for x
    using assms that by (auto simp: encodes_def)
  then have "takeWhile (\<lambda>x. x \<noteq> 0) (name_bytes (mod_name m) @ 0 # pad) = name_bytes (mod_name m)"
    by (subst takeWhile_append2) simp_all
  then show ?thesis by (simp add: c_string_def pad)
qed

lemma collect_modules_encodes:
  assumes "list_all2 (\<lambda>i m. i < length r \<and> encodes (r ! i) m) is ms"
  shows "collect_modules r is = Inr (Inr ms)"
  using assms
proof (induction rule: list_all2_induct)
  case Nil
  then show ?case by simp
next
  case (Cons i "is" m ms)
  then have "into_string (name_bytes (mod_name m)) = Some (mod_name m)"
    by (simp add: encodes_def into_string_name)
  with Cons c_string_name [of "r ! i" m] show ?case
    by (simp add: index_at_def encodes_def)
qed

lemma by_name_fold:
  "hm_get (fold (\<lambda>x m. hm_insert m (mod_name x) x) ms t) n =
     (case find (\<lambda>m. mod_name m = n) (rev ms) of None \<Rightarrow> hm_get t n | Some m \<Rightarrow> Some m)"
proof (induction ms rule: rev_induct)
  case Nil
  then show ?case by simp
next
  case (snoc m ms)
  then show ?case by auto
qed

lemma process_new_modules:
  assumes "lib = Some func" and "func (ucast pid) 1024 = (of_nat (length stored), stored)"
    and "length stored \<le> 1024" and "list_all2 encodes stored ms"
  shows "\<exists>p. Process_new lib pid = Inr p \<and> all_module_info p = ms \<and> module_info_cache p = None
     \<and> query_module_info_by_module_name name p =
         (case find (\<lambda>m. mod_name m = name) (rev ms) of
            None \<Rightarrow> Inl () | Some m \<Rightarrow> Inr (mod_base m, mod_size m))"
proof -
  let ?r = "stored @ drop (length stored) (replicate 1024 ModuleInfoInner_default)"
  have len: "length stored = length ms" using assms(4) by (rule list_all2_lengthD)
  have "list_all2 (\<lambda>i m. i < length ?r \<and> encodes (?r ! i) m) [0..<length stored] ms"
    using assms(4) len by (auto simp: list_all2_conv_all_nth nth_append)
  from collect_modules_encodes [OF this]
  have "collect_modules ?r [0..<length stored] = Inr (Inr ms)" .
  moreover have "unat (of_nat (length stored) :: u32) = length stored"
    using assms(3) by (simp add: unat_of_nat)
  ultimately have "get_module_info lib pid = Inr (Inr ms)"
    using assms(1-3) by (simp add: get_module_info_def)
  then show ?thesis
    by (auto simp: Process_new_def query_module_info_by_module_name_def by_name_fold
        split: option.split)
qed

text \<open>
  Also: when the library stores at most 1024 records and reports their number,
  the process has exactly the modules they hold, in order, and an empty cache, and a query by
  name gives the range of the last module of that name.
\<close>

theorem process_new_exact:
  assumes "lib = Some func" and "func (ucast pid) 1024 = (of_nat (length stored), stored)"
    and "length stored \<le> 1024" and "list_all2 encodes stored ms"
  shows "\<exists>p. Process_new lib pid = Inr p \<and> all_module_info p = ms \<and> module_info_cache p = None
     \<and> query_module_info_by_module_name name p =
         (case find (\<lambda>m. mod_name m = name) (rev ms) of
            None \<Rightarrow> Inl () | Some m \<Rightarrow> Inr (mod_base m, mod_size m))"
  using process_new_modules [OF assms] .

theorem process_new_exact_witness:
  "\<exists>p. Process_new (Some (\<lambda>pid n. (1, [\<lparr>inner_name = [97, 0, 98], inner_base = 0x1000, inner_size = 0x100\<rparr>]))) 7
       = Inr p
     \<and> all_module_info p = [mod_a] \<and> query_module_info_by_module_name ''a'' p = Inr (0x1000, 0x100)"
proof -
  let ?a = "\<lparr>inner_name = [97, 0, 98], inner_base = 0x1000, inner_size = 0x100\<rparr> :: ModuleInfoInner"
  have "list_all2 encodes [?a] [mod_a]"
    by (simp add: encodes_def mod_a_def name_bytes_def)
  from process_new_exact [OF refl _ _ this, of "\<lambda>pid n. (1, [?a])" 7 "''a''"]
  have "\<exists>p. Process_new (Some (\<lambda>pid n. (1, [?a]))) 7 = Inr p
     \<and> all_module_info p = [mod_a] \<and> module_info_cache p = None
     \<and> query_module_info_by_module_name ''a'' p =
         (case find (\<lambda>m. mod_name m = ''a'') (rev [mod_a]) of
            None \<Rightarrow> Inl () | Some m \<Rightarrow> Inr (mod_base m, mod_size m))" by simp
  moreover have "find (\<lambda>m. mod_name m = ''a'') (rev [mod_a]) = Some mod_a"
    "mod_base mod_a = 0x1000" "mod_size mod_a = 0x100"
    by (simp_all add: mod_a_def)
  ultimately show ?thesis by (simp only: option.case) blast
qed

end
