(* ===== verification/LibIpt.thy ===== *)
theory LibIpt
  imports Prelude
begin

text \<open>
  The trace decoder library \<open>libipt\<close> is not part of the repository: its operations are a
  record of functions that every definition using them takes as an argument. A decoder is a
  value of a type \<open>'d\<close>; decoding instructions calls the image callback, which reads memory
  and changes a state \<open>'s\<close>.

  The laws its users rely on are stated as predicates, with the search for the packet that
  marks a synchronisation point as an instance.
\<close>

datatype pt_error_code = Nosync | BadQuery | OtherCode nat

type_synonym 's image_callback = "bytes \<Rightarrow> u64 \<Rightarrow> 's \<Rightarrow> (32 word \<times> bytes \<times> 's) res"

text \<open>
  \<open>lib_new\<close> is \<open>None\<close> where the configuration or the decoder cannot be made; an event is
  reduced to whether another one is pending, an instruction to its address.
\<close>

record ('d, 's) libipt =
  lib_new :: "bytes \<Rightarrow> 'd option"
  lib_sync_forward :: "'d \<Rightarrow> pt_error_code + 'd"
  lib_sync_offset :: "'d \<Rightarrow> pt_error_code + u64"
  lib_event :: "'d \<Rightarrow> (pt_error_code + bool) \<times> 'd"
  lib_next :: "'s image_callback \<Rightarrow> 'd \<Rightarrow> 's \<Rightarrow> ((pt_error_code + u64) \<times> 'd \<times> 's) res"

section \<open>Synchronisation points\<close>

text \<open>
  Syncing forward visits the synchronisation points of the data in order, and no others, and
  then fails.
\<close>

fun sync_chain :: "('d, 's) libipt \<Rightarrow> 'd \<Rightarrow> u64 list \<Rightarrow> bool" where
  "sync_chain L d [] \<longleftrightarrow> (\<exists>e. lib_sync_forward L d = Inl e)"
| "sync_chain L d (p # ps) \<longleftrightarrow> (\<exists>d'. lib_sync_forward L d = Inr d'
     \<and> lib_sync_offset L d' = Inr p \<and> sync_chain L d' ps)"

definition syncs_at :: "('d, 's) libipt \<Rightarrow> (bytes \<Rightarrow> nat list) \<Rightarrow> bool" where
  "syncs_at L offs \<longleftrightarrow> (\<forall>data. data \<noteq> [] \<longrightarrow> length data < 2 ^ 64 \<longrightarrow>
     (\<exists>d. lib_new L data = Some d \<and> sync_chain L d (map of_nat (offs data))))"

text \<open>
  The points of some data: in order and inside it; more data after it leaves them and adds
  later ones; and from one of them on, they are the later ones.
\<close>

definition sync_points :: "(bytes \<Rightarrow> nat list) \<Rightarrow> bool" where
  "sync_points offs \<longleftrightarrow>
     (\<forall>d. sorted_wrt (<) (offs d) \<and> (\<forall>p \<in> set (offs d). p < length d))
     \<and> (\<forall>d e. \<exists>ps. offs (d @ e) = offs d @ ps)
     \<and> (\<forall>d p. p \<in> set (offs d) \<longrightarrow> offs (drop p d) = map (\<lambda>q. q - p) (filter (\<lambda>q. p \<le> q) (offs d)))"

lemma sync_pointsD:
  assumes "sync_points offs"
  shows "sorted_wrt (<) (offs d)" and "p \<in> set (offs d) \<Longrightarrow> p < length d"
    and "\<exists>ps. offs (d @ e) = offs d @ ps"
    and "p \<in> set (offs d) \<Longrightarrow> offs (drop p d) = map (\<lambda>q. q - p) (filter (\<lambda>q. p \<le> q) (offs d))"
  using assms unfolding sync_points_def by blast+

text \<open>The places where a pattern occurs are such points; the packet is two bytes, eight times.\<close>

definition psb :: bytes where
  "psb = concat (replicate 8 [0x02, 0x82])"

definition occurs :: "bytes \<Rightarrow> bytes \<Rightarrow> nat \<Rightarrow> bool" where
  "occurs pat d i \<longleftrightarrow> take (length pat) (drop i d) = pat"

definition occurrences :: "bytes \<Rightarrow> bytes \<Rightarrow> nat list" where
  "occurrences pat d = filter (occurs pat d) [0..<length d]"

lemma occurs_bound: "occurs pat d i \<Longrightarrow> i \<le> length d \<Longrightarrow> i + length pat \<le> length d"
  unfolding occurs_def by (metis le_diff_conv2 length_drop length_take min.cobounded1 add.commute)

lemma occurs_append: "i + length pat \<le> length d \<Longrightarrow> occurs pat (d @ e) i = occurs pat d i"
  by (simp add: occurs_def)

lemma occurs_drop: "p \<le> length d \<Longrightarrow> occurs pat (drop p d) i = occurs pat d (p + i)"
  by (simp add: occurs_def add.commute)

lemma occurrences_append:
  assumes "pat \<noteq> []"
  shows "\<exists>ps. occurrences pat (d @ e) = occurrences pat d @ ps"
proof -
  let ?n = "Suc (length d) - length pat"
  have early: "occurrences pat (d @ x) = filter (occurs pat d) [0..<?n] @
      filter (occurs pat (d @ x)) [?n..<length (d @ x)]" for x
  proof -
    have n: "?n \<le> length (d @ x)" using assms by (cases pat) auto
    have "[0..<length (d @ x)] = [0..<?n] @ [?n..<length (d @ x)]"
      using upt_add_eq_append [of 0 ?n "length (d @ x) - ?n"] n by simp
    moreover have "filter (occurs pat (d @ x)) [0..<?n] = filter (occurs pat d) [0..<?n]"
      by (rule filter_cong) (auto simp: occurs_append)
    ultimately show ?thesis by (simp only: occurrences_def filter_append)
  qed
  have "filter (occurs pat d) [?n..<length d] = []"
    using occurs_bound [of pat d] by (fastforce simp: filter_empty_conv)
  with early [of e] early [of "[]"] show ?thesis by simp
qed

lemma occurrences_drop:
  assumes "p < length d"
  shows "occurrences pat (drop p d) = map (\<lambda>q. q - p) (filter (\<lambda>q. p \<le> q) (occurrences pat d))"
proof -
  have up: "map ((+) p) [0..<length d - p] = [p..<length d]"
  proof -
    have "map ((+) p) [0..<length d - p] = map (\<lambda>i. i + p) [0..<length d - p]" by simp
    also have "\<dots> = [p..<length d]" using map_add_upt [of p "length d - p"] assms by simp
    finally show ?thesis .
  qed
  have "filter (\<lambda>q. p \<le> q) (occurrences pat d) = filter (occurs pat d) (filter (\<lambda>q. p \<le> q) [0..<length d])"
    by (simp add: occurrences_def conj_commute)
  also have "filter (\<lambda>q. p \<le> q) [0..<length d] = [p..<length d]"
  proof -
    have "[0..<length d] = [0..<p] @ [p..<length d]"
      using upt_add_eq_append [of 0 p "length d - p"] assms by simp
    then show ?thesis by (simp add: filter_empty_conv)
  qed
  also have "filter (occurs pat d) [p..<length d] = map ((+) p) (filter (occurs pat (drop p d)) [0..<length d - p])"
  proof -
    have "occurs pat d \<circ> (+) p = occurs pat (drop p d)"
      using assms by (simp add: fun_eq_iff occurs_drop)
    then show ?thesis by (simp add: up [symmetric] filter_map)
  qed
  finally show ?thesis by (simp add: occurrences_def o_def)
qed

lemma occurrences_sync_points:
  assumes "pat \<noteq> []"
  shows "sync_points (occurrences pat)"
  unfolding sync_points_def
proof (intro conjI allI impI)
  show "sorted_wrt (<) (occurrences pat d)" for d
    by (simp add: occurrences_def sorted_wrt_filter)
  show "\<forall>p \<in> set (occurrences pat d). p < length d" for d
    by (auto simp: occurrences_def)
  show "\<exists>ps. occurrences pat (d @ e) = occurrences pat d @ ps" for d e
    using assms by (rule occurrences_append)
  show "p \<in> set (occurrences pat d) \<Longrightarrow>
      occurrences pat (drop p d) = map (\<lambda>q. q - p) (filter (\<lambda>q. p \<le> q) (occurrences pat d))" for d p
    by (rule occurrences_drop) (auto simp: occurrences_def)
qed

end
