(* ===== verification/Splitter.thy ===== *)
theory Splitter
  imports LibIpt
begin

text \<open>
  Cutting the trace of a CPU into pieces that can be decoded on their own
  (\<open>src/src/data_spliter/mod.rs\<close> and \<open>create_spliter_thread\<close> in
  \<open>src/src/bin/online_proc.rs\<close>, the same in \<open>server.rs\<close> and \<open>client.rs\<close>): the data is cut
  at its synchronisation points, and what follows the last one waits for more data.
\<close>

section \<open>Finding the points\<close>

text \<open>The loop of \<open>split\<close> ends when syncing forward fails; \<open>None\<close> is a loop that does not end.\<close>

partial_function (option) sync_loop ::
    "('d, 's) libipt \<Rightarrow> 'd \<Rightarrow> usize list \<Rightarrow> usize list option" where
  "sync_loop L decoder tasks =
     (case lib_sync_forward L decoder of
        Inl e \<Rightarrow> Some tasks
      | Inr decoder' \<Rightarrow>
          sync_loop L decoder' (case lib_sync_offset L decoder' of
            Inr off \<Rightarrow> tasks @ [off] | Inl e \<Rightarrow> tasks))"

definition split_data :: "('d, 's) libipt \<Rightarrow> bytes \<Rightarrow> usize list res option" where
  "split_data L data =
     (case lib_new L data of
        None \<Rightarrow> Some (Inl UnwrapErr)
      | Some decoder \<Rightarrow> map_option Inr (sync_loop L decoder []))"

section \<open>The splitter thread\<close>

text \<open>
  \<open>connected\<close>: some worker still holds the receiving end; otherwise sending panics. The
  result of a send is the list of pieces sent.
\<close>

definition send_piece :: "bool \<Rightarrow> bytes \<Rightarrow> bytes list res" where
  "send_piece connected piece = (if connected then Inr [piece] else Inl UnwrapErr)"

fun send_pieces :: "bool \<Rightarrow> bytes \<Rightarrow> nat \<Rightarrow> nat list \<Rightarrow> bytes list res" where
  "send_pieces connected assemed_data last_offset [] = Inr []"
| "send_pieces connected assemed_data last_offset (offset # offsets) =
     res_bind (slice assemed_data last_offset offset) (\<lambda>piece.
     res_bind (send_piece connected piece) (\<lambda>sent.
     res_bind (send_pieces connected assemed_data offset offsets) (\<lambda>rest. Inr (sent @ rest))))"

definition cut_pieces :: "bool \<Rightarrow> bytes \<Rightarrow> nat list \<Rightarrow> (bytes list \<times> bytes) res" where
  "cut_pieces connected assemed_data offsets =
     (case offsets of
        [] \<Rightarrow> Inr ([], assemed_data)
      | first # others \<Rightarrow>
          res_bind (send_pieces connected assemed_data first others) (\<lambda>sent.
          let end_offset = last offsets in
          if end_offset > 0
          then res_bind (slice assemed_data end_offset (length assemed_data)) (\<lambda>rest. Inr (sent, rest))
          else Inr (sent, assemed_data)))"

definition spliter_step ::
    "('d, 's) libipt \<Rightarrow> bool \<Rightarrow> bytes \<Rightarrow> bytes \<Rightarrow> (bytes list \<times> bytes) res option" where
  "spliter_step L connected d assemed_data =
     (let assemed = assemed_data @ d in
      map_option (\<lambda>m. res_bind m (\<lambda>offsets. cut_pieces connected assemed (map unat offsets)))
        (split_data L assemed))"

text \<open>The thread ends when its channel closes; the result is what it sent and what it dropped.\<close>

fun spliter_thread ::
    "('d, 's) libipt \<Rightarrow> bool \<Rightarrow> bytes list \<Rightarrow> bytes \<Rightarrow> (bytes list \<times> bytes) res option" where
  "spliter_thread L connected [] assemed_data = Some (Inr ([], assemed_data))"
| "spliter_thread L connected (d # ds) assemed_data =
     (case spliter_step L connected d assemed_data of
        None \<Rightarrow> None
      | Some (Inl e) \<Rightarrow> Some (Inl e)
      | Some (Inr (sent, assemed)) \<Rightarrow>
          map_option (map_sum id (\<lambda>(more, rest). (sent @ more, rest)))
            (spliter_thread L connected ds assemed))"

section \<open>The reference: cutting the whole stream at once\<close>

fun segments :: "bytes \<Rightarrow> nat list \<Rightarrow> bytes list" where
  "segments d (p # q # ps) = take (q - p) (drop p d) # segments d (q # ps)"
| "segments d ps = []"

definition rest_of :: "bytes \<Rightarrow> nat list \<Rightarrow> bytes" where
  "rest_of d ps = (if ps = [] then d else drop (last ps) d)"

lemma segments_append:
  "segments d (ps @ q # qs) = segments d (ps @ [q]) @ segments d (q # qs)"
  by (induction d ps rule: segments.induct) auto

lemma segments_snoc_last:
  "ps \<noteq> [] \<Longrightarrow> segments d (ps @ qs) = segments d ps @ segments d (last ps # qs)"
  using segments_append [of d "butlast ps" "last ps" qs]
  by (metis append.assoc append_Cons append_Nil append_butlast_last_id)

lemma segments_data_append:
  "\<forall>p \<in> set ps. p \<le> length d \<Longrightarrow> segments (d @ e) ps = segments d ps"
  by (induction d ps rule: segments.induct) auto

lemma segments_drop:
  "\<forall>q \<in> set ps. p \<le> q \<Longrightarrow> segments (drop p d) (map (\<lambda>q. q - p) ps) = segments d ps"
  by (induction d ps rule: segments.induct) auto

text \<open>The pieces and the rest make up the stream from its first point on.\<close>

lemma segments_concat:
  assumes "sorted_wrt (<) ps" and "\<forall>p \<in> set ps. p < length d" and "ps \<noteq> []"
  shows "concat (segments d ps) @ rest_of d ps = drop (hd ps) d"
  using assms
proof (induction d ps rule: segments.induct)
  case (1 d p q ps)
  then have "concat (segments d (q # ps)) @ rest_of d (q # ps) = drop q d" by simp
  moreover have "take (q - p) (drop p d) @ drop q d = drop p d"
    using 1(2) append_take_drop_id [of "q - p" "drop p d"] by simp
  ultimately show ?case by (simp add: rest_of_def)
qed (auto simp: rest_of_def)

section \<open>The thread against the reference\<close>

lemma sync_loop_chain:
  "sync_chain L d ps \<Longrightarrow> sync_loop L d tasks = Some (tasks @ ps)"
proof (induction ps arbitrary: d tasks)
  case Nil
  then show ?case by (auto simp: sync_loop.simps)
next
  case (Cons p ps)
  then obtain d' where "lib_sync_forward L d = Inr d'" "lib_sync_offset L d' = Inr p"
    "sync_chain L d' ps" by auto
  with Cons.IH [of d' "tasks @ [p]"] show ?case by (subst sync_loop.simps) simp
qed

lemma split_data_syncs:
  assumes "syncs_at L offs" and "data \<noteq> []" and "length data < 2 ^ 64"
  shows "split_data L data = Some (Inr (map of_nat (offs data)))"
proof -
  from assms obtain d where "lib_new L data = Some d" "sync_chain L d (map of_nat (offs data))"
    unfolding syncs_at_def by blast
  with sync_loop_chain [of L d "map of_nat (offs data)" "[]"] show ?thesis
    by (simp add: split_data_def)
qed

lemma map_unat_of_nat:
  assumes "\<forall>p \<in> set ps. p < 2 ^ 64"
  shows "map (\<lambda>p. unat (of_nat p :: usize)) ps = ps"
  using assms by (intro map_idI) (simp add: unat_of_nat)

lemma send_pieces_segments:
  "sorted_wrt (<) (p # ps) \<Longrightarrow> \<forall>q \<in> set ps. q \<le> length d \<Longrightarrow>
     send_pieces True d p ps = Inr (segments d (p # ps))"
  by (induction ps arbitrary: p) (auto simp: slice_def send_piece_def)

lemma cut_pieces_segments:
  assumes "sorted_wrt (<) ps" and "\<forall>p \<in> set ps. p < length d"
  shows "cut_pieces True d ps = Inr (segments d ps, rest_of d ps)"
proof (cases ps)
  case Nil
  then show ?thesis by (simp add: cut_pieces_def rest_of_def)
next
  case (Cons p qs)
  have "last ps < length d" using assms(2) Cons by (metis last_in_set list.distinct(1))
  moreover have "send_pieces True d p qs = Inr (segments d ps)"
    unfolding Cons using assms Cons by (intro send_pieces_segments) (auto intro: less_imp_le)
  ultimately show ?thesis
    using Cons by (auto simp: cut_pieces_def rest_of_def slice_def Let_def)
qed

text \<open>
  One message after a stream \<open>d\<close>: from the unfinished piece of \<open>d\<close>, the thread sends what the
  longer stream has in addition and keeps its unfinished piece.
\<close>

lemma spliter_step_segments:
  assumes L: "syncs_at L offs" and offs: "sync_points offs"
    and e: "e \<noteq> []" and len: "length (d @ e) < 2 ^ 64"
  shows "\<exists>new. spliter_step L True e (rest_of d (offs d)) = Some (Inr (new, rest_of (d @ e) (offs (d @ e))))
     \<and> segments (d @ e) (offs (d @ e)) = segments d (offs d) @ new"
proof -
  obtain ps where ps: "offs (d @ e) = offs d @ ps" using sync_pointsD(3) [OF offs] by blast
  note sorted = sync_pointsD(1) [OF offs, of "d @ e"] and bound = sync_pointsD(2) [OF offs, of _ "d @ e"]
  define a where "a = rest_of d (offs d) @ e"
  have a: "a \<noteq> []" "length a < 2 ^ 64" using e len by (auto simp: a_def rest_of_def)
  have a_bound: "\<forall>p \<in> set (offs a). p < length a" using sync_pointsD(2) [OF offs] by blast
  then have "map (\<lambda>p. unat (of_nat p :: usize)) (offs a) = offs a"
    using a(2) by (intro map_unat_of_nat) auto
  then have step: "spliter_step L True e (rest_of d (offs d)) = Some (Inr (segments a (offs a), rest_of a (offs a)))"
    using split_data_syncs [OF L a] cut_pieces_segments [OF sync_pointsD(1) [OF offs, of a] a_bound]
    by (simp add: spliter_step_def a_def [symmetric] o_def)
  show ?thesis
  proof (cases "offs d = []")
    case True
    with step ps show ?thesis by (simp add: a_def rest_of_def)
  next
    case False
    define p where "p = last (offs d)"
    have p: "p \<in> set (offs d)" "p < length d"
      using False sync_pointsD(2) [OF offs] by (auto simp: p_def)
    have split_p: "offs d = butlast (offs d) @ [p]" using False by (simp add: p_def)
    have a_eq: "a = drop p (d @ e)" using p(2) False by (simp add: a_def rest_of_def p_def)
    have "sorted_wrt (<) (butlast (offs d) @ p # ps)" using sorted ps split_p by (metis append.assoc append_Cons append_Nil)
    then have "\<forall>q \<in> set (butlast (offs d)). \<not> p \<le> q" "\<forall>q \<in> set ps. p \<le> q"
      by (auto simp: sorted_wrt_append)
    then have "filter (\<lambda>q. p \<le> q) (offs (d @ e)) = p # ps"
      unfolding ps by (subst split_p) (simp add: filter_empty_conv)
    then have oa: "offs a = map (\<lambda>q. q - p) (p # ps)"
      using sync_pointsD(4) [OF offs, of p "d @ e"] p(1) ps a_eq by simp
    have ge: "\<forall>q \<in> set (p # ps). p \<le> q" using \<open>\<forall>q \<in> set ps. p \<le> q\<close> by simp
    have "segments a (offs a) = segments (d @ e) (p # ps)"
      unfolding oa unfolding a_eq using ge by (rule segments_drop)
    moreover have "rest_of a (offs a) = rest_of (d @ e) (offs (d @ e))"
    proof -
      have l: "last (offs a) = last (p # ps) - p" unfolding oa by (rule last_map) simp
      have "p \<le> last (p # ps)" using ge last_in_set [of "p # ps"] by blast
      then have "drop (last (p # ps) - p) (drop p (d @ e)) = drop (last (p # ps)) (d @ e)"
        by (simp only: drop_drop le_add_diff_inverse2)
      moreover have "rest_of a (offs a) = drop (last (offs a)) a" by (simp add: rest_of_def oa)
      moreover have "last (offs (d @ e)) = last (p # ps)" unfolding ps by (subst split_p) simp
      moreover have "offs (d @ e) \<noteq> []" using ps False by simp
      ultimately show ?thesis unfolding l unfolding a_eq by (simp only: rest_of_def if_False)
    qed
    moreover have "segments (d @ e) (offs (d @ e)) = segments d (offs d) @ segments (d @ e) (p # ps)"
      using False segments_snoc_last [of "offs d" "d @ e" ps] segments_data_append [of "offs d" d e]
        sync_pointsD(2) [OF offs, of _ d] by (auto simp: ps p_def less_imp_le)
    ultimately show ?thesis using step by simp
  qed
qed

lemma spliter_thread_segments:
  assumes "syncs_at L offs" and "sync_points offs"
    and "\<forall>e \<in> set ms. e \<noteq> []" and "length (d @ concat ms) < 2 ^ 64"
  shows "\<exists>new. spliter_thread L True ms (rest_of d (offs d)) =
       Some (Inr (new, rest_of (d @ concat ms) (offs (d @ concat ms))))
     \<and> segments (d @ concat ms) (offs (d @ concat ms)) = segments d (offs d) @ new"
  using assms(3,4)
proof (induction ms arbitrary: d)
  case Nil
  then show ?case by simp
next
  case (Cons e ms)
  have "e \<noteq> []" "length (d @ e) < 2 ^ 64" using Cons.prems by auto
  from spliter_step_segments [OF assms(1,2) this] obtain new where new:
    "spliter_step L True e (rest_of d (offs d)) = Some (Inr (new, rest_of (d @ e) (offs (d @ e))))"
    "segments (d @ e) (offs (d @ e)) = segments d (offs d) @ new" by blast
  from Cons.IH [of "d @ e"] Cons.prems obtain more where
    "spliter_thread L True ms (rest_of (d @ e) (offs (d @ e))) =
       Some (Inr (more, rest_of (d @ concat (e # ms)) (offs (d @ concat (e # ms)))))"
    "segments (d @ concat (e # ms)) (offs (d @ concat (e # ms))) = segments (d @ e) (offs (d @ e)) @ more"
    by auto
  with new show ?case by auto
qed

section \<open>Properties\<close>

text \<open>
  C10: however the trace of a CPU arrives in messages, the splitter always
  returns, sends the pieces between two consecutive synchronisation points of the whole
  trace, each once and in order, and keeps what follows the last point.
\<close>

theorem splitter_exact:
  assumes "syncs_at L offs" and "sync_points offs"
    and "\<forall>e \<in> set ms. e \<noteq> []" and "length (concat ms) < 2 ^ 64"
  shows "spliter_thread L True ms [] =
     Some (Inr (segments (concat ms) (offs (concat ms)), rest_of (concat ms) (offs (concat ms))))"
proof -
  have "offs [] = []" using sync_pointsD(2) [OF assms(2), of _ "[]"] by (cases "offs []") auto
  then show ?thesis
    using spliter_thread_segments [OF assms(1-3), of "[]"] assms(4) by (auto simp: rest_of_def)
qed

text \<open>The reference search as a decoder library, for the witnesses.\<close>

definition psb_lib :: "(nat \<times> nat list, unit) libipt" where
  "psb_lib = \<lparr>lib_new = (\<lambda>data. Some (0, occurrences psb data)),
     lib_sync_forward = (\<lambda>(p, ps). case ps of [] \<Rightarrow> Inl (OtherCode 1) | q # qs \<Rightarrow> Inr (q, qs)),
     lib_sync_offset = (\<lambda>(p, ps). Inr (of_nat p)),
     lib_event = (\<lambda>d. (Inl (OtherCode 1), d)),
     lib_next = (\<lambda>cb d s. Inr (Inl (OtherCode 1), d, s))\<rparr>"

lemma psb_lib_chain: "sync_chain psb_lib (p, ps) (map of_nat ps)"
  by (induction ps arbitrary: p) (auto simp: psb_lib_def)

lemma psb_lib_new: "lib_new psb_lib data = Some (0, occurrences psb data)"
  by (simp add: psb_lib_def)

lemma psb_lib_syncs: "syncs_at psb_lib (occurrences psb)"
  unfolding syncs_at_def by (simp add: psb_lib_new psb_lib_chain)

lemma psb_length: "length psb = 16"
  by code_simp

lemma psb_not_Nil: "psb \<noteq> []"
  using psb_length by auto

lemma psb_points: "sync_points (occurrences psb)"
  by (rule occurrences_sync_points) (simp add: psb_def)

theorem splitter_exact_witness:
  "spliter_thread psb_lib True [[7], psb @ [1], [2] @ psb] [] = Some (Inr ([psb @ [1, 2]], psb))"
proof -
  let ?ms = "[[7], psb @ [1], [2] @ psb]"
  have o: "occurrences psb (concat ?ms) = [1, 19]" by code_simp
  have "segments (concat ?ms) [1, 19] = [psb @ [1, 2]]" "rest_of (concat ?ms) [1, 19] = psb"
    by code_simp+
  moreover have "\<forall>e \<in> set ?ms. e \<noteq> []" "length (concat ?ms) < 2 ^ 64" by (simp_all add: psb_length psb_not_Nil)
  ultimately show ?thesis
    using splitter_exact [OF psb_lib_syncs psb_points, of ?ms] unfolding o by simp
qed

text \<open>
  Also: nothing is lost before the shutdown except what comes before the
  first synchronisation point: the pieces sent and the part kept are the trace from that point
  on. The part kept is dropped when the channel closes, so the last piece of every CPU's
  trace is never decoded.
\<close>

theorem splitter_accounting:
  assumes "syncs_at L offs" and "sync_points offs"
    and "\<forall>e \<in> set ms. e \<noteq> []" and "length (concat ms) < 2 ^ 64" and "offs (concat ms) \<noteq> []"
  shows "\<exists>sent kept. spliter_thread L True ms [] = Some (Inr (sent, kept))
     \<and> concat sent @ kept = drop (hd (offs (concat ms))) (concat ms) \<and> kept \<noteq> []"
proof -
  let ?d = "concat ms"
  have bound: "\<forall>p \<in> set (offs ?d). p < length ?d" using sync_pointsD(2) [OF assms(2)] by blast
  have "spliter_thread L True ms [] = Some (Inr (segments ?d (offs ?d), rest_of ?d (offs ?d)))"
    using spliter_thread_segments [OF assms(1-3), of "[]"] assms(4)
      sync_pointsD(2) [OF assms(2), of _ "[]"] by (cases "offs []") (auto simp: rest_of_def)
  moreover have "concat (segments ?d (offs ?d)) @ rest_of ?d (offs ?d) = drop (hd (offs ?d)) ?d"
    using segments_concat [OF sync_pointsD(1) [OF assms(2)] bound assms(5)] .
  moreover have "rest_of ?d (offs ?d) \<noteq> []" using bound last_in_set [OF assms(5)] assms(5) by (auto simp: rest_of_def not_le)
  ultimately show ?thesis by blast
qed

theorem splitter_accounting_witness:
  "\<exists>sent kept. spliter_thread psb_lib True [[7], psb @ [1]] [] = Some (Inr (sent, kept))
     \<and> concat sent @ kept = psb @ [1] \<and> kept \<noteq> []"
proof -
  let ?ms = "[[7], psb @ [1]]"
  have o: "occurrences psb (concat ?ms) = [1]" by code_simp
  have "\<forall>e \<in> set ?ms. e \<noteq> []" "length (concat ?ms) < 2 ^ 64" by (simp_all add: psb_length psb_not_Nil)
  then show ?thesis
    using splitter_accounting [OF psb_lib_syncs psb_points, of ?ms] unfolding o by simp
qed

text \<open>
  When no worker holds the receiving end, the splitter panics at the first message that
  completes a piece.
\<close>

lemma spliter_disconnected:
  assumes "syncs_at L offs" and "sync_points offs"
    and "e \<noteq> []" and "length e < 2 ^ 64" and "offs e = p # q # ps"
  shows "spliter_step L False e [] = Some (Inl UnwrapErr)"
proof -
  have "sorted_wrt (<) (p # q # ps)" "\<forall>p \<in> set (p # q # ps). p < length e"
    using sync_pointsD(1) [OF assms(2), of e] sync_pointsD(2) [OF assms(2), of _ e] assms(5) by metis+
  then have "unat (of_nat p :: usize) = p" "unat (of_nat q :: usize) = q" "p \<le> q" "q \<le> length e"
    using assms(4) by (simp_all add: unat_of_nat)
  then show ?thesis
    using split_data_syncs [OF assms(1,3,4)] assms(5)
    by (simp add: spliter_step_def cut_pieces_def send_piece_def slice_def)
qed

end
