(* ===== verification/Decode.thy ===== *)
theory Decode
  imports LibIpt MemCache ExecCounts
begin

text \<open>
  Decoding one piece of a trace (\<open>src/src/decode_proc/mod.rs\<close>): \<open>decode\<close>, which reads the
  traced process through the driver, and \<open>async_decode\<close>, the same loop over memory requested
  from the server. Both count every instruction the decoder yields and skip to the next
  synchronisation point where it loses track.

  \<open>cacher\<close>, the table of counts and the outside world are threaded through; \<open>None\<close> is a loop
  that does not end. Making the image and attaching it are taken to succeed.
\<close>

section \<open>Operations\<close>

text \<open>\<open>while let Ok((_, s)) = decoder.event()\<close>, until no event is pending.\<close>

partial_function (option) drain_events :: "('d, 's) libipt \<Rightarrow> 'd \<Rightarrow> 'd option" where
  "drain_events L d =
     (case lib_event L d of
        (Inl e, d') \<Rightarrow> Some d'
      | (Inr pending, d') \<Rightarrow> if \<not> pending then Some d' else drain_events L d')"

partial_function (option) decode_loop ::
    "build \<Rightarrow> ('d, 's) libipt \<Rightarrow> 's image_callback \<Rightarrow> 'd \<Rightarrow> 's \<Rightarrow> usize \<Rightarrow> page_table
     \<Rightarrow> (usize \<times> page_table \<times> 's) res option" where
  "decode_loop b L cb d s cnt data_rst =
     (case lib_next L cb d s of
        Inl e \<Rightarrow> Some (Inl e)
      | Inr (r, d', s') \<Rightarrow>
          (case r of
             Inr addr \<Rightarrow>
               (case res_bind (uadd b cnt 1) (\<lambda>cnt'.
                     res_bind (record_hit b addr data_rst) (\<lambda>rst'. Inr (cnt', rst'))) of
                  Inl e \<Rightarrow> Some (Inl e)
                | Inr (cnt', rst') \<Rightarrow>
                    Option.bind (drain_events L d') (\<lambda>d''. decode_loop b L cb d'' s' cnt' rst'))
           | Inl code \<Rightarrow>
               if code = Nosync \<or> code = BadQuery then
                 (case lib_sync_forward L d' of
                    Inl e \<Rightarrow> Some (Inr (cnt, data_rst, s'))
                  | Inr d'' \<Rightarrow> decode_loop b L cb d'' s' cnt data_rst)
               else Some (Inr (cnt, data_rst, s'))))"

text \<open>\<open>cacher.get_content(rst, addr) as i32\<close>\<close>

definition image_cb :: "build \<Rightarrow> ('w MemCacher \<times> 'w) image_callback" where
  "image_cb b rst addr s =
     res_bind (get_content b rst addr s) (\<lambda>(n, rst', s'). Inr (ucast n, rst', s'))"

text \<open>What the two decoders share: they differ in the reader \<open>f\<close> they give the cache.\<close>

definition decode_with ::
    "build \<Rightarrow> ('d, 'w MemCacher \<times> 'w) libipt \<Rightarrow> 'w reader \<Rightarrow> bytes
     \<Rightarrow> 'w MemCacher \<Rightarrow> page_table \<Rightarrow> 'w \<Rightarrow> (usize \<times> page_table \<times> 'w MemCacher \<times> 'w) res option" where
  "decode_with b L f data cacher data_rst w =
     (case lib_new L data of
        None \<Rightarrow> Some (Inl UnwrapErr)
      | Some decoder \<Rightarrow>
          (case lib_sync_forward L decoder of
             Inl e \<Rightarrow> Some (Inr (0, data_rst, cacher, w))
           | Inr decoder' \<Rightarrow>
               Option.bind (drain_events L decoder') (\<lambda>decoder''.
                 decode_loop b L (image_cb b) decoder'' (cacher\<lparr>reader_fn := Some f\<rparr>, w) 0 data_rst)))"

text \<open>The address of the buffer is in the world; the length is cut to 16 bits.\<close>

definition decode_reader ::
    "(u32 \<Rightarrow> u32) \<Rightarrow> 'w ioctl \<Rightarrow> ('w \<Rightarrow> u64) \<Rightarrow> usize \<Rightarrow> usize \<Rightarrow> 'w reader" where
  "decode_reader ctl_code ioctl ptr h pid rst addr w =
     res_bind (read_process_memory_drv ctl_code ioctl h (ucast pid) addr (of_nat (length rst)) (ptr w, rst) w)
       (\<lambda>(r, rst', w'). case r of
          Inl e \<Rightarrow> Inr (0, rst', w')
        | Inr _ \<Rightarrow> Inr (of_nat (length rst), rst', w'))"

definition decode where
  "decode b L ctl_code ioctl ptr h pid = decode_with b L (decode_reader ctl_code ioctl ptr h pid)"

text \<open>The reader of \<open>async_decode\<close> ignores what became of the request.\<close>

definition async_reader ::
    "(usize \<Rightarrow> usize \<Rightarrow> bytes \<Rightarrow> 'w \<Rightarrow> (bytes \<times> 'w) res) \<Rightarrow> 'w reader" where
  "async_reader read_mem rst addr w =
     res_bind (read_mem addr (of_nat (length rst)) rst w) (\<lambda>(rst', w'). Inr (of_nat (length rst), rst', w'))"

definition async_decode where
  "async_decode b L read_mem = decode_with b L (async_reader read_mem)"

section \<open>The driver's reader is faithful\<close>

lemma decode_reader_faithful:
  assumes "drv_reads ctl_code ioctl mem"
  shows "faithful (decode_reader ctl_code ioctl ptr h pid) (mem (ucast (ucast pid :: u32)))"
  unfolding faithful_def
proof (intro allI impI)
  fix buf :: bytes and a :: u64 and w
  assume len: "length buf < 65536"
  then have l: "unat (of_nat (length buf) :: u16) = length buf" by (simp add: unat_of_nat)
  let ?read = "read_process_memory_drv ctl_code ioctl h (ucast pid) a (of_nat (length buf)) (ptr w, buf) w"
  show "\<exists>r buf' w'. decode_reader ctl_code ioctl ptr h pid buf a w = Inr (r, buf', w')
     \<and> length buf' = length buf
     \<and> (r = of_nat (length buf) \<longrightarrow> buf' = mem_bytes (mem (ucast (ucast pid :: u32))) a (length buf))"
  proof (cases ?read)
    case (Inr x)
    obtain r buf' w' where x: "x = (r, buf', w')" by (cases x)
    from read_process_memory_drv_Inr [OF assms Inr [unfolded x]] have
      ok: "r = Inr () \<Longrightarrow> buf' = mem_bytes (mem (ucast (ucast pid :: u32))) a (length buf)"
      and fail: "\<And>e. r = Inl e \<Longrightarrow> buf' = buf" and n: "length buf' = length buf" by (auto simp: l)
    show ?thesis
    proof (cases r)
      case (Inl e)
      have "(0 :: usize) = of_nat (length buf) \<Longrightarrow> buf = []"
        using len by (auto simp: word_of_nat_eq_0_iff dest: dvd_imp_le)
      with Inl Inr x fail [OF Inl] n show ?thesis by (auto simp: decode_reader_def)
    next
      case (Inr u)
      with \<open>?read = Inr x\<close> x ok n show ?thesis by (simp add: decode_reader_def)
    qed
  next
    case (Inl e)
    moreover have "\<exists>x. ?read = Inr x" using l by (intro read_process_memory_drv_ok [OF assms]) simp
    ultimately show ?thesis by auto
  qed
qed

section \<open>The decoder's run\<close>

text \<open>
  \<open>decodes L cb d s ips s'\<close>: started in \<open>d\<close> and \<open>s\<close>, the decoder yields the instructions at
  \<open>ips\<close>, resynchronising in between, and then ends in \<open>s'\<close>.
\<close>

inductive decodes ::
    "('d, 's) libipt \<Rightarrow> 's image_callback \<Rightarrow> 'd \<Rightarrow> 's \<Rightarrow> u64 list \<Rightarrow> 's \<Rightarrow> bool"
  for L cb where
  finished: "lib_next L cb d s = Inr (Inl code, d', s') \<Longrightarrow> code \<noteq> Nosync \<Longrightarrow> code \<noteq> BadQuery
     \<Longrightarrow> decodes L cb d s [] s'"
| no_more_syncs: "lib_next L cb d s = Inr (Inl code, d', s') \<Longrightarrow> code = Nosync \<or> code = BadQuery
     \<Longrightarrow> lib_sync_forward L d' = Inl e \<Longrightarrow> decodes L cb d s [] s'"
| resync: "lib_next L cb d s = Inr (Inl code, d', s') \<Longrightarrow> code = Nosync \<or> code = BadQuery
     \<Longrightarrow> lib_sync_forward L d' = Inr d'' \<Longrightarrow> decodes L cb d'' s' ips s'' \<Longrightarrow> decodes L cb d s ips s''"
| insn: "lib_next L cb d s = Inr (Inr ip, d', s') \<Longrightarrow> drain_events L d' = Some d''
     \<Longrightarrow> decodes L cb d'' s' ips s'' \<Longrightarrow> decodes L cb d s (ip # ips) s''"

lemma decode_loop_run:
  assumes "decodes L cb d s ips s'"
    and "unat cnt + length ips < 2 ^ 64" and "wf_table t"
    and "\<forall>x. unat (count_at t x) + count_list ips x < 2 ^ 64"
  shows "\<exists>t'. decode_loop b L cb d s cnt t = Some (Inr (cnt + of_nat (length ips), t', s'))
     \<and> res_fold (record_hit b) ips t = Inr t'"
  using assms
proof (induction arbitrary: cnt t rule: decodes.induct)
  case (finished d s code d' s')
  then show ?case by (subst decode_loop.simps) simp
next
  case (no_more_syncs d s code d' s' e)
  then show ?case by (subst decode_loop.simps) auto
next
  case (resync d s code d' s' d'' ips s'')
  from resync.IH [OF resync.prems] obtain t' where t':
    "decode_loop b L cb d'' s' cnt t = Some (Inr (cnt + of_nat (length ips), t', s''))"
    "res_fold (record_hit b) ips t = Inr t'" by blast
  moreover have "decode_loop b L cb d s cnt t = decode_loop b L cb d'' s' cnt t"
    using resync.hyps(1-3) by (subst decode_loop.simps) auto
  ultimately show ?case by simp
next
  case (insn d s ip d' s' d'' ips s'')
  have "unat (count_at t ip) + 1 < 2 ^ 64" using insn.prems(3) [rule_format, of ip] by simp
  then obtain u where u: "record_hit b ip t = Inr u" using record_hit_ok insn.prems(2) by blast
  note wf = record_hit_Inr(1) [OF insn.prems(2) u]
    and cnt_u = record_hit_Inr(2) [OF insn.prems(2) u]
  have "unat (count_at u x) + count_list ips x < 2 ^ 64" for x
    using insn.prems(3) [rule_format, of x] by (auto simp: cnt_u unat_word_ariths split: if_splits)
  moreover have c: "uadd b cnt 1 = Inr (cnt + 1)" "unat (cnt + 1) = unat cnt + 1"
    using insn.prems(1) by (simp_all add: uadd_ok unat_word_ariths)
  ultimately obtain t' where t':
    "decode_loop b L cb d'' s' (cnt + 1) u = Some (Inr (cnt + 1 + of_nat (length ips), t', s''))"
    "res_fold (record_hit b) ips u = Inr t'"
    using insn.IH [of "cnt + 1" u] insn.prems(1) wf by auto
  moreover have "decode_loop b L cb d s cnt t = decode_loop b L cb d'' s' (cnt + 1) u"
    using insn.hyps(1,2) c(1) u by (subst decode_loop.simps) simp
  ultimately show ?case using u by (simp add: algebra_simps)
qed

text \<open>Conversely, whatever the loop returns is the count of a run of the decoder.\<close>

lemma decode_loop_accounts:
  fixes L :: "('d, 's) libipt"
  assumes "decode_loop b L cb d s cnt t = Some (Inr (cnt', t', s'))"
  shows "\<exists>ips. decodes L cb d s ips s' \<and> cnt' = cnt + of_nat (length ips)
     \<and> res_fold (record_hit b) ips t = Inr t'"
proof -
  define P where "P b L cb d s cnt t r \<longleftrightarrow> (\<forall>cnt' t' s'. r = Inr (cnt', t', s') \<longrightarrow>
      (\<exists>ips. decodes L cb d s ips s' \<and> cnt' = cnt + of_nat (length ips)
        \<and> res_fold (record_hit b) ips t = Inr t'))"
    for b and L :: "('d, 's) libipt" and cb d s and cnt :: usize and t and r :: "(usize \<times> page_table \<times> 's) res"
  have "P b L cb d s cnt t (Inr (cnt', t', s'))"
  proof (rule decode_loop.raw_induct [where P = P, OF _ assms])
    fix f b and L :: "('d, 's) libipt" and cb d s cnt t r
    assume IH: "\<And>b L cb d s cnt t r. f b L cb d s cnt t = Some r \<Longrightarrow> P b L cb d s cnt t r"
      and body: "(case lib_next L cb d s of
        Inl e \<Rightarrow> Some (Inl e)
      | Inr (r, d', s') \<Rightarrow>
          (case r of
             Inl code \<Rightarrow>
               if code = Nosync \<or> code = BadQuery then
                 (case lib_sync_forward L d' of
                    Inl e \<Rightarrow> Some (Inr (cnt, t, s'))
                  | Inr d'' \<Rightarrow> f b L cb d'' s' cnt t)
               else Some (Inr (cnt, t, s'))
           | Inr addr \<Rightarrow>
               (case res_bind (uadd b cnt 1) (\<lambda>cnt'.
                     res_bind (record_hit b addr t) (\<lambda>rst'. Inr (cnt', rst'))) of
                  Inl e \<Rightarrow> Some (Inl e)
                | Inr (cnt', rst') \<Rightarrow>
                    Option.bind (drain_events L d') (\<lambda>d''. f b L cb d'' s' cnt' rst')))) = Some r"
    show "P b L cb d s cnt t r"
    proof (cases "lib_next L cb d s")
      case (Inl e)
      with body show ?thesis by (auto simp: P_def)
    next
      case (Inr x)
      obtain q d' s1 where x: "x = (q, d', s1)" by (cases x)
      show ?thesis
      proof (cases q)
        case code: (Inl code)
        note step = Inr [unfolded x code]
        have nil: "P b L cb d s cnt t (Inr (cnt, t, s1))" if "decodes L cb d s [] s1"
          unfolding P_def using that by (auto intro!: exI [of _ "[]"])
        show ?thesis
        proof (cases "code = Nosync \<or> code = BadQuery")
          case False
          with body step have "r = Inr (cnt, t, s1)" by auto
          with False nil decodes.finished [OF step] show ?thesis by blast
        next
          case sync: True
          show ?thesis
          proof (cases "lib_sync_forward L d'")
            case (Inl e)
            with body step sync have "r = Inr (cnt, t, s1)" by auto
            with nil decodes.no_more_syncs [OF step sync Inl] show ?thesis by blast
          next
            case (Inr d'')
            with body step sync have "f b L cb d'' s1 cnt t = Some r" by auto
            from IH [OF this] decodes.resync [OF step sync Inr] show ?thesis
              unfolding P_def by blast
          qed
        qed
      next
        case next_ok: (Inr ip)
        show ?thesis unfolding P_def
        proof (intro allI impI)
          fix n t' s'
          assume "r = Inr (n, t', s')"
          with body Inr x next_ok obtain c u d'' where c: "uadd b cnt 1 = Inr c" and
            u: "record_hit b ip t = Inr u" "drain_events L d' = Some d''"
              "f b L cb d'' s1 c u = Some (Inr (n, t', s'))"
            by (auto simp: bind_eq_Some_conv res_simps split: sum.splits)
          from IH [OF u(3)] uadd_value [OF c] obtain ips where "decodes L cb d'' s1 ips s'"
            "n = cnt + 1 + of_nat (length ips)" "res_fold (record_hit b) ips u = Inr t'" by (auto simp: P_def)
          with u(1,2) Inr x next_ok show "\<exists>ips. decodes L cb d s ips s' \<and> n = cnt + of_nat (length ips)
              \<and> res_fold (record_hit b) ips t = Inr t'"
            by (intro exI [of _ "ip # ips"]) (auto intro: decodes.insn)
        qed
      qed
    qed
  qed
  then show ?thesis by (simp add: P_def)
qed

lemma decode_with_run:
  assumes "decode_with b L f data c t w = Some (Inr (cnt, t', c', w'))"
    and "lib_new L data = Some d" and "lib_sync_forward L d = Inr d1"
  shows "\<exists>d2 ips. drain_events L d1 = Some d2
     \<and> decodes L (image_cb b) d2 (c\<lparr>reader_fn := Some f\<rparr>, w) ips (c', w')
     \<and> cnt = of_nat (length ips) \<and> res_fold (record_hit b) ips t = Inr t'"
proof -
  from assms obtain d2 where d2: "drain_events L d1 = Some d2"
    "decode_loop b L (image_cb b) d2 (c\<lparr>reader_fn := Some f\<rparr>, w) 0 t = Some (Inr (cnt, t', c', w'))"
    by (auto simp: decode_with_def bind_eq_Some_conv)
  from decode_loop_accounts [OF d2(2)] d2(1) show ?thesis by auto
qed

section \<open>When decoding returns\<close>

text \<open>
  What is asked of the decoder library: with a callback that keeps an invariant and does not
  fault on requests in a range, decoding an instruction does not fault and keeps the invariant
  (it only asks for memory in the range); and a measure of the trace left goes down with every
  instruction, pending event and synchronisation.
\<close>

definition cb_ok :: "('s \<Rightarrow> bool) \<Rightarrow> (u64 \<Rightarrow> nat \<Rightarrow> bool) \<Rightarrow> 's image_callback \<Rightarrow> bool" where
  "cb_ok I rng cb \<longleftrightarrow> (\<forall>s a buf. I s \<longrightarrow> rng a (length buf) \<longrightarrow>
     (\<exists>r buf' s'. cb buf a s = Inr (r, buf', s') \<and> I s'))"

definition reads_within :: "('d, 's) libipt \<Rightarrow> (u64 \<Rightarrow> nat \<Rightarrow> bool) \<Rightarrow> bool" where
  "reads_within L rng \<longleftrightarrow> (\<forall>I cb d s. cb_ok I rng cb \<longrightarrow> I s \<longrightarrow>
     (\<exists>r d' s'. lib_next L cb d s = Inr (r, d', s') \<and> I s'))"

definition progress :: "('d, 's) libipt \<Rightarrow> ('d \<Rightarrow> nat) \<Rightarrow> bool" where
  "progress L m \<longleftrightarrow>
     (\<forall>cb d s r d' s'. lib_next L cb d s = Inr (r, d', s') \<longrightarrow>
        (case r of Inr ip \<Rightarrow> m d' < m d | Inl e \<Rightarrow> m d' \<le> m d))
     \<and> (\<forall>d d'. lib_sync_forward L d = Inr d' \<longrightarrow> m d' < m d)
     \<and> (\<forall>d r d'. lib_event L d = (r, d') \<longrightarrow> m d' \<le> m d \<and> (r = Inr True \<longrightarrow> m d' < m d))"

lemma progressD:
  assumes "progress L m"
  shows "lib_next L cb d s = Inr (Inr ip, d', s') \<Longrightarrow> m d' < m d"
    and "lib_next L cb d s = Inr (Inl e, d', s') \<Longrightarrow> m d' \<le> m d"
    and "lib_sync_forward L d = Inr d' \<Longrightarrow> m d' < m d"
    and "lib_event L d = (r, d') \<Longrightarrow> m d' \<le> m d"
    and "lib_event L d = (Inr True, d') \<Longrightarrow> m d' < m d"
  using assms unfolding progress_def by fastforce+

lemma drain_events_returns:
  assumes "progress L m"
  shows "\<exists>d'. drain_events L d = Some d' \<and> m d' \<le> m d"
proof (induction "m d" arbitrary: d rule: less_induct)
  case less
  obtain r d1 where ev: "lib_event L d = (r, d1)" by fastforce
  note le = progressD(4) [OF assms ev]
  show ?case
  proof (cases "r = Inr True")
    case True
    then have lt: "m d1 < m d" using progressD(5) [OF assms] ev by blast
    have "drain_events L d = drain_events L d1"
      using ev True by (subst drain_events.simps) simp
    with less [OF lt] le show ?thesis by auto
  next
    case False
    then have "drain_events L d = Some d1"
      using ev by (subst drain_events.simps) (auto split: sum.split)
    with le show ?thesis by blast
  qed
qed

lemma decoder_runs:
  assumes L: "reads_within L rng" "progress L m" and cb: "cb_ok I rng cb" and "I s"
  shows "\<exists>ips s'. decodes L cb d s ips s' \<and> I s' \<and> length ips \<le> m d"
  using \<open>I s\<close>
proof (induction "m d" arbitrary: d s rule: less_induct)
  case less
  from L(1) cb less.prems obtain r d1 s1 where n: "lib_next L cb d s = Inr (r, d1, s1)" "I s1"
    unfolding reads_within_def by blast
  show ?case
  proof (cases r)
    case (Inr ip)
    note step = n(1) [unfolded Inr]
    from drain_events_returns [OF L(2), of d1] obtain d2 where d2: "drain_events L d1 = Some d2" "m d2 \<le> m d1"
      by blast
    have lt: "m d2 < m d" using d2(2) progressD(1) [OF L(2) step] by simp
    from less.hyps [OF lt n(2)] obtain ips s' where
      "decodes L cb d2 s1 ips s'" "I s'" "length ips \<le> m d2" by blast
    with decodes.insn [OF step d2(1)] lt show ?thesis by (intro exI [of _ "ip # ips"]) auto
  next
    case (Inl code)
    note step = n(1) [unfolded Inl]
    show ?thesis
    proof (cases "code = Nosync \<or> code = BadQuery")
      case False
      with decodes.finished [OF step] n(2) show ?thesis by (intro exI [of _ "[]"]) auto
    next
      case sync: True
      show ?thesis
      proof (cases "lib_sync_forward L d1")
        case (Inl e)
        with decodes.no_more_syncs [OF step sync Inl] n(2) show ?thesis by (intro exI [of _ "[]"]) auto
      next
        case (Inr d2)
        have lt: "m d2 < m d" using progressD(3) [OF L(2) Inr] progressD(2) [OF L(2) step] by simp
        from less.hyps [OF lt n(2)] obtain ips s' where
          "decodes L cb d2 s1 ips s'" "I s'" "length ips \<le> m d2" by blast
        with decodes.resync [OF step sync Inr] lt show ?thesis by (intro exI [of _ ips]) auto
      qed
    qed
  qed
qed

lemma image_cb_ok: "cb_ok (cache_inv mem) cache_range (image_cb b)"
  unfolding cb_ok_def
proof (intro allI impI)
  fix s :: "'a MemCacher \<times> 'a" and a :: u64 and buf :: bytes
  assume "cache_inv mem s" and "cache_range a (length buf)"
  from cached.fill_law [OF this, of b]
  show "\<exists>r buf' s'. image_cb b buf a s = Inr (r, buf', s') \<and> cache_inv mem s'"
    by (auto simp: image_cb_def)
qed

section \<open>Properties\<close>

text \<open>
  Also: when the decoder, reading through the cache, yields the instructions at
  \<open>ips\<close> and then ends, \<open>decode\<close> returns their number and adds to the table, for each
  address, how often it is among them.
\<close>

theorem decode_exact:
  assumes "lib_new L data = Some d" and "lib_sync_forward L d = Inr d1"
    and "drain_events L d1 = Some d2"
    and "decodes L (image_cb b) d2 (c\<lparr>reader_fn := Some (decode_reader ctl_code ioctl ptr h pid)\<rparr>, w)
           ips (c', w')"
    and "wf_table t" and "\<forall>x. unat (count_at t x) + count_list ips x < 2 ^ 64"
    and "length ips < 2 ^ 64"
  shows "\<exists>t'. decode b L ctl_code ioctl ptr h pid data c t w = Some (Inr (of_nat (length ips), t', c', w'))
     \<and> wf_table t' \<and> (\<forall>x. unat (count_at t' x) = unat (count_at t x) + count_list ips x)"
proof -
  from decode_loop_run [OF assms(4), of 0 t b] assms(5-7) obtain t' where t':
    "decode_loop b L (image_cb b) d2
       (c\<lparr>reader_fn := Some (decode_reader ctl_code ioctl ptr h pid)\<rparr>, w) 0 t =
       Some (Inr (of_nat (length ips), t', (c', w')))"
    "res_fold (record_hit b) ips t = Inr t'" by auto
  with table.hits_exact [OF assms(5,6), of b] assms(1-3) show ?thesis
    by (simp add: decode_def decode_with_def)
qed

text \<open>
  Also: whatever the decoder library does, if the decoding of a piece returns,
  its count and its table are those of the instructions the library yielded.
\<close>

theorem decode_accounts:
  assumes "decode_with b L f data c t w = Some (Inr (cnt, t', c', w'))"
    and "lib_new L data = Some d" and "lib_sync_forward L d = Inr d1"
  shows "\<exists>d2 ips. drain_events L d1 = Some d2
     \<and> decodes L (image_cb b) d2 (c\<lparr>reader_fn := Some f\<rparr>, w) ips (c', w')
     \<and> cnt = of_nat (length ips) \<and> res_fold (record_hit b) ips t = Inr t'"
  using assms by (rule decode_with_run)


text \<open>
  For the witnesses: a library whose traces are lists of page offsets, each fetched from
  memory before it is yielded, and a driver for a memory of equal bytes.
\<close>

definition script_lib :: "(bytes, 's) libipt" where
  "script_lib = \<lparr>lib_new = Some,
     lib_sync_forward = (\<lambda>d. case d of [] \<Rightarrow> Inl (OtherCode 1) | x # xs \<Rightarrow> Inr xs),
     lib_sync_offset = (\<lambda>d. Inr 0),
     lib_event = (\<lambda>d. (Inr False, d)),
     lib_next = (\<lambda>cb d s. case d of [] \<Rightarrow> Inr (Inl (OtherCode 1), [], s)
       | x # xs \<Rightarrow> res_bind (cb [0] (0x1000 + ucast x) s) (\<lambda>(r, buf, s'). Inr (Inr (0x1000 + ucast x), xs, s')))\<rparr>"

definition const_drv :: "u8 \<Rightarrow> unit ioctl" where
  "const_drv x h c req isz osz w = (case req of
     CopyMem r \<Rightarrow> (\<lparr>io_ret = 1, io_mem = mem_bytes (\<lambda>_. x) (target_ptr r) (unat (req_len r)),
                    io_rsp = NoRsp, io_len = 0\<rparr>, w)
   | _ \<Rightarrow> (\<lparr>io_ret = 0, io_mem = [], io_rsp = NoRsp, io_len = 0\<rparr>, w))"

lemma const_drv_reads: "drv_reads id (const_drv x) (\<lambda>_ _. x)"
  by (auto simp: drv_reads_def const_drv_def)

lemma script_range: "cache_range (0x1000 + ucast (x :: u8)) (Suc 0)"
proof -
  have "unat x < 256" using unsigned_less [of x, where ?'a = nat] by simp
  then have "unat (ucast x :: u64) < 256" by (simp add: unsigned_ucast_eq take_bit_eq_mod)
  then have u: "unat (0x1000 + ucast x :: u64) = 4096 + unat (ucast x :: u64)"
    by (simp add: unat_word_ariths)
  have "unat (page_of (0x1000 + ucast x)) \<noteq> 0"
    unfolding page_of_div u using \<open>unat (ucast x :: u64) < 256\<close> by simp
  then show ?thesis using u \<open>unat (ucast x :: u64) < 256\<close> by (auto simp: cache_range_def)
qed

lemma script_reads_within: "reads_within script_lib cache_range"
  unfolding reads_within_def
proof (intro allI impI)
  fix I :: "'a \<Rightarrow> bool" and cb and d :: bytes and s
  assume cb: "cb_ok I cache_range cb" and s: "I s"
  show "\<exists>r d' s'. lib_next script_lib cb d s = Inr (r, d', s') \<and> I s'"
  proof (cases d)
    case Nil
    with s show ?thesis by (simp add: script_lib_def)
  next
    case (Cons x xs)
    have "cache_range (0x1000 + ucast x) (length [0 :: u8])" using script_range by simp
    with cb s obtain r buf s' where "cb [0] (0x1000 + ucast x) s = Inr (r, buf, s')" "I s'"
      unfolding cb_ok_def by blast
    with Cons show ?thesis by (simp add: script_lib_def)
  qed
qed

lemma script_new: "lib_new script_lib data = Some data"
  by (simp add: script_lib_def)

lemma script_progress: "progress script_lib length"
  by (auto simp: progress_def script_lib_def res_simps split: list.splits sum.splits)


text \<open>A library that never calls back, for the other two.\<close>

definition quiet_lib :: "(u64 list, 's) libipt" where
  "quiet_lib = \<lparr>lib_new = (\<lambda>data. Some (map ucast data)),
     lib_sync_forward = (\<lambda>d. case d of [] \<Rightarrow> Inl (OtherCode 1) | x # xs \<Rightarrow> Inr xs),
     lib_sync_offset = (\<lambda>d. Inr 0),
     lib_event = (\<lambda>d. (Inl (OtherCode 1), d)),
     lib_next = (\<lambda>cb d s. case d of [] \<Rightarrow> Inr (Inl Nosync, [], s)
       | x # xs \<Rightarrow> if x = 0 then Inr (Inl BadQuery, xs, s) else Inr (Inr x, xs, s))\<rparr>"

lemma quiet_drain: "drain_events quiet_lib d = Some d"
  by (subst drain_events.simps) (simp add: quiet_lib_def)

lemma quiet_new: "lib_new quiet_lib [1, 5, 0, 9, 5] = Some [1, 5, 0, 9, 5]"
  "lib_sync_forward quiet_lib [1, 5, 0, 9, 5] = Inr [5, 0, 9, 5]"
  by (simp_all add: quiet_lib_def)

lemma quiet_run: "decodes quiet_lib cb [5, 0, 9, 5] s [5, 5] s"
proof -
  have "decodes quiet_lib cb [] s [] s"
    by (rule decodes.no_more_syncs [where d' = "[]" and code = Nosync]) (simp_all add: quiet_lib_def)
  then have "decodes quiet_lib cb [5] s [5] s"
    by (rule decodes.insn [OF _ quiet_drain, rotated]) (simp add: quiet_lib_def)
  then have "decodes quiet_lib cb [0, 9, 5] s [5] s"
    by (rule decodes.resync [where d' = "[9, 5]" and code = BadQuery, rotated 3]) (simp_all add: quiet_lib_def)
  then show ?thesis
    by (rule decodes.insn [OF _ quiet_drain, rotated]) (simp add: quiet_lib_def)
qed

theorem decode_exact_witness:
  "\<exists>t' c'. decode Release quiet_lib id (const_drv 7) (\<lambda>_. 0) 1 2 [1, 5, 0, 9, 5] MemCacher_new [] ()
       = Some (Inr (2, t', c', ())) \<and> unat (count_at t' 5) = 2"
proof -
  have "\<forall>x. unat (count_at [] x) + count_list [5, 5] x < 2 ^ 64" "length [5, 5 :: u64] < 2 ^ 64" by simp_all
  from decode_exact [OF quiet_new quiet_drain quiet_run wf_table_Nil this, where b = Release
      and c = MemCacher_new and w = "()" and ctl_code = id and ioctl = "const_drv 7" and ptr = "\<lambda>_. 0"
      and h = 1 and pid = 2]
  obtain t' where "decode Release quiet_lib id (const_drv 7) (\<lambda>_. 0) 1 2 [1, 5, 0, 9, 5] MemCacher_new [] ()
      = Some (Inr (of_nat (length [5, 5 :: u64]), t', MemCacher_new
          \<lparr>reader_fn := Some (decode_reader id (const_drv 7) (\<lambda>_. 0) 1 2)\<rparr>, ()))"
    "unat (count_at t' 5) = unat (count_at [] 5) + count_list [5, 5] (5 :: u64)" by blast
  then show ?thesis by auto
qed

theorem decode_accounts_witness:
  "\<exists>d2 ips. decodes quiet_lib (image_cb Debug) d2 (MemCacher_new\<lparr>reader_fn := Some (const_reader 7)\<rparr>, ())
       ips (MemCacher_new\<lparr>reader_fn := Some (const_reader 7)\<rparr>, ()) \<and> of_nat (length ips) = (2 :: usize)"
proof -
  let ?s = "(MemCacher_new\<lparr>reader_fn := Some (const_reader 7)\<rparr>, ())"
  obtain t' where "decode_loop Debug quiet_lib (image_cb Debug) [5, 0, 9, 5] ?s 0 [] =
      Some (Inr (of_nat (length [5, 5 :: u64]), t', ?s))"
    using decode_loop_run [OF quiet_run [of "image_cb Debug" ?s], of 0 "[]" Debug] by fastforce
  then have "decode_with Debug quiet_lib (const_reader 7) [1, 5, 0, 9, 5] MemCacher_new [] () =
      Some (Inr (2, t', ?s))"
    by (simp add: decode_with_def quiet_drain quiet_new)
  from decode_accounts [OF this quiet_new] show ?thesis by force
qed

end
