(* ===== verification/Text.thy ===== *)
theory Text
  imports Prelude
begin

text \<open>
  The functions of Rust's standard library on text that the program uses: printing and parsing
  unsigned numbers, upper case, suffixes. Text is a list of characters below 128; outside ASCII
  Rust's case mapping and \<open>is_alphabetic\<close> follow Unicode, which is not modelled.
\<close>

section \<open>Numbers\<close>

definition digit :: "nat \<Rightarrow> char" where
  "digit d = char_of (48 + d)"

definition digit_value :: "char \<Rightarrow> nat option" where
  "digit_value c = (if 48 \<le> (of_char c :: nat) \<and> (of_char c :: nat) \<le> 57 then Some (of_char c - 48) else None)"

text \<open>\<open>to_string\<close> of an unsigned number.\<close>

fun dec :: "nat \<Rightarrow> string" where
  "dec n = (if n < 10 then [digit n] else dec (n div 10) @ [digit (n mod 10)])"

declare dec.simps [simp del]

text \<open>\<open>str::parse::<usize>\<close>: an optional plus sign and at least one digit, no overflow.\<close>

fun parse_digits :: "string \<Rightarrow> nat \<Rightarrow> nat option" where
  "parse_digits [] acc = Some acc"
| "parse_digits (c # cs) acc =
     (case digit_value c of None \<Rightarrow> None
      | Some d \<Rightarrow> if acc * 10 + d < 2 ^ 64 then parse_digits cs (acc * 10 + d) else None)"

definition parse_usize :: "string \<Rightarrow> usize option" where
  "parse_usize s =
     (let ds = (case s of c # cs \<Rightarrow> if c = CHR ''+'' \<and> cs \<noteq> [] then cs else s | [] \<Rightarrow> s)
      in if ds = [] then None else map_option of_nat (parse_digits ds 0))"

lemma digit_value_digit:
  assumes "d < 10"
  shows "digit_value (digit d) = Some d"
proof -
  have "(of_char (digit d) :: nat) = (48 + d) mod 256" by (simp only: digit_def of_char_of)
  also have "\<dots> = 48 + d" using assms by simp
  finally show ?thesis using assms by (simp add: digit_value_def)
qed

lemma digit_inj: "d < 10 \<Longrightarrow> e < 10 \<Longrightarrow> digit d = digit e \<Longrightarrow> d = e"
  by (metis digit_value_digit option.inject)

definition is_digit :: "char \<Rightarrow> bool" where
  "is_digit c \<longleftrightarrow> digit_value c \<noteq> None"

lemma is_digit_digit: "d < 10 \<Longrightarrow> is_digit (digit d)"
  by (simp add: is_digit_def digit_value_digit)

lemma dec_digits: "c \<in> set (dec n) \<Longrightarrow> is_digit c"
proof (induction n rule: dec.induct)
  case (1 n)
  then show ?case by (subst (asm) dec.simps) (auto simp: is_digit_digit split: if_splits)
qed

lemma dec_not_Nil: "dec n \<noteq> []"
  by (subst dec.simps) simp

lemma parse_digits_append:
  "parse_digits (xs @ ys) acc = Option.bind (parse_digits xs acc) (parse_digits ys)"
  by (induction xs arbitrary: acc) (auto split: option.split)

lemma parse_digits_dec: "n < 2 ^ 64 \<Longrightarrow> parse_digits (dec n) 0 = Some n"
proof (induction n rule: dec.induct)
  case (1 n)
  show ?case
  proof (cases "n < 10")
    case True
    then show ?thesis by (subst dec.simps) (simp add: digit_value_digit)
  next
    case False
    then have "parse_digits (dec (n div 10)) 0 = Some (n div 10)" using 1 by simp
    moreover have "n div 10 * 10 + n mod 10 = n" by simp
    ultimately show ?thesis using False 1(2)
      by (subst dec.simps) (simp add: parse_digits_append digit_value_digit)
  qed
qed

lemma parse_dec: "n < 2 ^ 64 \<Longrightarrow> parse_usize (dec n) = Some (of_nat n)"
proof -
  assume n: "n < 2 ^ 64"
  have "dec n \<noteq> CHR ''+'' # cs" for cs
  proof
    assume "dec n = CHR ''+'' # cs"
    then have "is_digit (CHR ''+'')" using dec_digits [of "CHR ''+''" n] by simp
    then show False by (simp add: is_digit_def digit_value_def)
  qed
  then have "(case dec n of c # cs \<Rightarrow> if c = CHR ''+'' \<and> cs \<noteq> [] then cs else dec n | [] \<Rightarrow> dec n) = dec n"
    by (auto split: list.split)
  with parse_digits_dec [OF n] dec_not_Nil show ?thesis by (simp add: parse_usize_def)
qed

lemma dec_inj: "dec m = dec n \<longleftrightarrow> m = n"
proof
  have "m = n" if "dec m = dec n" for m n
    using that
  proof (induction m arbitrary: n rule: dec.induct)
    case (1 m)
    have two: "length (dec (k div 10)) > 0" for k using dec_not_Nil by simp
    show ?case
    proof (cases "m < 10")
      case True
      with 1(2) two [of n] show ?thesis
        by (simp add: dec.simps [of m] dec.simps [of n] digit_inj split: if_splits)
    next
      case False
      with 1(2) two [of m] have n: "\<not> n < 10"
        by (auto simp: dec.simps [of m] dec.simps [of n])
      with False 1(2) have "dec (m div 10) = dec (n div 10)" "digit (m mod 10) = digit (n mod 10)"
        by (simp_all add: dec.simps [of m] dec.simps [of n])
      with 1(1) [OF False, of "n div 10"] have "m div 10 = n div 10" "m mod 10 = n mod 10"
        by (simp_all add: digit_inj)
      then show ?thesis by (metis div_mult_mod_eq)
    qed
  qed
  then show "dec m = dec n \<Longrightarrow> m = n" by blast
qed simp

section \<open>Case and suffixes\<close>

definition upper :: "char \<Rightarrow> char" where
  "upper c = (if 97 \<le> (of_char c :: nat) \<and> (of_char c :: nat) \<le> 122 then char_of ((of_char c :: nat) - 32) else c)"

definition to_uppercase :: "string \<Rightarrow> string" where
  "to_uppercase s = map upper s"

definition is_alphabetic :: "char \<Rightarrow> bool" where
  "is_alphabetic c \<longleftrightarrow> 65 \<le> (of_char (upper c) :: nat) \<and> (of_char (upper c) :: nat) \<le> 90"

definition ends_with :: "string \<Rightarrow> string \<Rightarrow> bool" where
  "ends_with s suf \<longleftrightarrow> length suf \<le> length s \<and> drop (length s - length suf) s = suf"

definition trim_end_matches :: "(char \<Rightarrow> bool) \<Rightarrow> string \<Rightarrow> string" where
  "trim_end_matches P s = rev (dropWhile P (rev s))"

lemma ends_with_append: "ends_with (s @ suf) suf"
  by (simp add: ends_with_def)

lemma ends_with_iff: "ends_with s suf \<longleftrightarrow> (\<exists>p. s = p @ suf)"
proof
  assume "ends_with s suf"
  then have "s = take (length s - length suf) s @ suf"
    by (metis append_take_drop_id ends_with_def)
  then show "\<exists>p. s = p @ suf" by blast
qed (auto simp: ends_with_append)

lemma trim_end_matches_append:
  "(\<And>c. c \<in> set suf \<Longrightarrow> P c) \<Longrightarrow> s \<noteq> [] \<Longrightarrow> \<not> P (last s) \<Longrightarrow> trim_end_matches P (s @ suf) = s"
  unfolding trim_end_matches_def rev_append
  by (subst dropWhile_append2) (auto, cases s rule: rev_cases, auto)

lemma upper_digit: "is_digit c \<Longrightarrow> upper c = c"
  by (auto simp: is_digit_def digit_value_def upper_def split: if_splits)

lemma digit_not_alphabetic: "is_digit c \<Longrightarrow> \<not> is_alphabetic c"
  by (auto simp: is_alphabetic_def upper_digit) (auto simp: is_digit_def digit_value_def split: if_splits)

lemma upper_dec: "to_uppercase (dec n) = dec n"
  unfolding to_uppercase_def by (rule map_idI) (simp add: upper_digit dec_digits)

lemma to_uppercase_append: "to_uppercase (s @ t) = to_uppercase s @ to_uppercase t"
  by (simp add: to_uppercase_def)

end
