(* ===== verification/FileWriter.thy ===== *)
theory FileWriter
  imports Text
begin

text \<open>
  Writing trace data to files (\<open>src/src/file_writer/mod.rs\<close>). A \<open>DataWriter\<close> sends blocks to
  an asynchronous task through a bounded channel; the task creates the file, writes the
  blocks, and renames the file once the channel is closed.

  The tasks run concurrently: the model has all tasks and the disk in one state, and a run is
  a list of events, each a step of one task or an action of a sender. A file is a number; a
  name is bound to a number, and a task keeps the number it opened, as a file handle does.
\<close>

section \<open>State\<close>

record disk =
  names :: "string \<Rightarrow> nat option"
  contents :: "nat \<Rightarrow> bytes"
  fresh :: nat

text \<open>Where a task is: before \<open>File::create\<close>, in the loop (with its file and its position),
  after the flush, after the rename; or it has panicked, which nobody notices.\<close>

datatype task_pc = Starting | Writing nat nat | Flushed nat | Finished | Panicked

record wtask =
  task_file :: string
  task_complete :: string
  task_pc :: task_pc
  task_queue :: "bytes list"
  task_closed :: bool

record system =
  tasks :: "wtask list"
  disk_of :: disk

record DataWriter =
  writer_tx :: nat
  file_name :: string
  writer_dir :: string
  write_size :: usize

section \<open>Files\<close>

definition create_file :: "string \<Rightarrow> disk \<Rightarrow> nat \<times> disk" where
  "create_file n dk =
     (case names dk n of
        Some f \<Rightarrow> (f, dk\<lparr>contents := (contents dk)(f := [])\<rparr>)
      | None \<Rightarrow> (fresh dk, dk\<lparr>names := (names dk)(n \<mapsto> fresh dk),
          contents := (contents dk)(fresh dk := []), fresh := fresh dk + 1\<rparr>))"

text \<open>A write at a position past the end fills the gap with zeros.\<close>

definition put_at :: "nat \<Rightarrow> bytes \<Rightarrow> bytes \<Rightarrow> bytes" where
  "put_at pos d content =
     take pos (content @ replicate (pos - length content) 0) @ d @ drop (pos + length d) content"

definition write_all :: "nat \<Rightarrow> nat \<Rightarrow> bytes \<Rightarrow> disk \<Rightarrow> disk" where
  "write_all f pos d dk = dk\<lparr>contents := (contents dk)(f := put_at pos d (contents dk f))\<rparr>"

definition rename_file :: "string \<Rightarrow> string \<Rightarrow> disk \<Rightarrow> disk option" where
  "rename_file a c dk =
     (case names dk a of None \<Rightarrow> None
      | Some f \<Rightarrow> Some (dk\<lparr>names := (names dk)(a := None, c \<mapsto> f)\<rparr>))"

section \<open>The writer task\<close>

text \<open>One step of the task; \<open>None\<close>: it waits, or is over.\<close>

definition run_task :: "wtask \<Rightarrow> disk \<Rightarrow> (wtask \<times> disk) option" where
  "run_task t dk =
     (case task_pc t of
        Starting \<Rightarrow> (let (f, dk') = create_file (task_file t) dk in Some (t\<lparr>task_pc := Writing f 0\<rparr>, dk'))
      | Writing f pos \<Rightarrow>
          (case task_queue t of
             d # ds \<Rightarrow> Some (t\<lparr>task_pc := Writing f (pos + length d), task_queue := ds\<rparr>, write_all f pos d dk)
           | [] \<Rightarrow> if task_closed t then Some (t\<lparr>task_pc := Flushed f\<rparr>, dk) else None)
      | Flushed f \<Rightarrow>
          (case rename_file (task_file t) (task_complete t) dk of
             None \<Rightarrow> Some (t\<lparr>task_pc := Panicked\<rparr>, dk)
           | Some dk' \<Rightarrow> Some (t\<lparr>task_pc := Finished\<rparr>, dk'))
      | Finished \<Rightarrow> None
      | Panicked \<Rightarrow> None)"

text \<open>\<open>create_async_writer\<close>: a task and the sending end of its channel, here its number.\<close>

definition create_async_writer :: "string \<Rightarrow> string \<Rightarrow> system \<Rightarrow> nat \<times> system" where
  "create_async_writer fname cname s =
     (length (tasks s), s\<lparr>tasks := tasks s @ [\<lparr>task_file = fname, task_complete = cname,
        task_pc = Starting, task_queue = [], task_closed = False\<rparr>]\<rparr>)"

text \<open>\<open>try_send\<close> fails when 10000 blocks wait, or the task is over.\<close>

definition task_live :: "wtask \<Rightarrow> bool" where
  "task_live t = (case task_pc t of Starting \<Rightarrow> True | Writing f p \<Rightarrow> True | _ \<Rightarrow> False)"

definition try_send :: "nat \<Rightarrow> bytes \<Rightarrow> system \<Rightarrow> system res" where
  "try_send k d s =
     res_bind (index_at (tasks s) k) (\<lambda>t.
     if length (task_queue t) \<ge> 10000 \<or> \<not> task_live t then Inl UnwrapErr
     else Inr (s\<lparr>tasks := (tasks s)[k := t\<lparr>task_queue := task_queue t @ [d]\<rparr>]\<rparr>))"

section \<open>The writer\<close>

definition get_file_name :: "nat \<Rightarrow> u32 \<Rightarrow> string \<Rightarrow> string \<Rightarrow> string" where
  "get_file_name time idx dir suffix = dir @ dec time @ ''-'' @ dec (unat idx) @ ''.'' @ suffix"

definition DataWriter_new :: "nat \<Rightarrow> u32 \<Rightarrow> string \<Rightarrow> string \<Rightarrow> system \<Rightarrow> DataWriter \<times> system" where
  "DataWriter_new time idx dir suffix s =
     (let name = get_file_name time idx dir suffix;
          complete_name = take (length name - length suffix) name @ ''data'';
          (tx, s') = create_async_writer name complete_name s
      in (\<lparr>writer_tx = tx, file_name = name, writer_dir = dir, write_size = 0\<rparr>, s'))"

definition DataWriter_write ::
    "build \<Rightarrow> bytes \<Rightarrow> nat \<Rightarrow> DataWriter \<times> system \<Rightarrow> (DataWriter \<times> system) res" where
  "DataWriter_write b data len = (\<lambda>(wt, s).
     res_bind (slice data 0 len) (\<lambda>d.
     res_bind (try_send (writer_tx wt) d s) (\<lambda>s'.
     res_bind (uadd b (write_size wt) (of_nat len)) (\<lambda>n.
     Inr (wt\<lparr>write_size := n\<rparr>, s')))))"

text \<open>Dropping a writer closes its channel.\<close>

definition close_task :: "nat \<Rightarrow> system \<Rightarrow> system" where
  "close_task k s = s\<lparr>tasks := (tasks s)[k := (tasks s ! k)\<lparr>task_closed := True\<rparr>]\<rparr>"

definition drop_writer :: "DataWriter \<Rightarrow> system \<Rightarrow> system" where
  "drop_writer wt s = close_task (writer_tx wt) s"

section \<open>Runs\<close>

datatype wevent = Sched nat | Send nat bytes | Close nat | Spawn string string

definition sched :: "nat \<Rightarrow> system \<Rightarrow> system" where
  "sched k s = (if k < length (tasks s) then
     (case run_task (tasks s ! k) (disk_of s) of None \<Rightarrow> s
      | Some (t, dk) \<Rightarrow> s\<lparr>tasks := (tasks s)[k := t], disk_of := dk\<rparr>) else s)"

text \<open>A closed channel has no sender, so a run has no send after a close.\<close>

fun apply_event :: "wevent \<Rightarrow> system \<Rightarrow> system res" where
  "apply_event (Sched k) s = Inr (sched k s)"
| "apply_event (Send k d) s =
     (if k < length (tasks s) \<and> task_closed (tasks s ! k) then Inl UnwrapErr else try_send k d s)"
| "apply_event (Close k) s = Inr (if k < length (tasks s) then close_task k s else s)"
| "apply_event (Spawn f c) s = Inr (snd (create_async_writer f c s))"

definition run_events :: "wevent list \<Rightarrow> system \<Rightarrow> system res" where
  "run_events es s = res_fold apply_event es s"

text \<open>The blocks sent to a task in a run.\<close>

definition sent :: "nat \<Rightarrow> wevent list \<Rightarrow> bytes list" where
  "sent k es = concat (map (\<lambda>e. case e of Send j d \<Rightarrow> if j = k then [d] else [] | _ \<Rightarrow> []) es)"

lemma sent_append: "sent k (es @ fs) = sent k es @ sent k fs"
  by (simp add: sent_def)

lemma sent_simps [simp]:
  "sent k [] = []" "sent k (Sched j # es) = sent k es"
  "sent k (Send j d # es) = (if j = k then [d] else []) @ sent k es"
  "sent k (Close j # es) = sent k es" "sent k (Spawn f c # es) = sent k es"
  by (simp_all add: sent_def)

section \<open>The invariant\<close>

text \<open>
  Tasks with names of their own do not disturb each other. \<open>task_ok dk ds t\<close>: what task \<open>t\<close>
  has written and what waits in its channel are the blocks \<open>ds\<close>.
\<close>

definition names_ok :: "disk \<Rightarrow> bool" where
  "names_ok dk \<longleftrightarrow> (\<forall>m n f. names dk m = Some f \<longrightarrow> names dk n = Some f \<longrightarrow> m = n)
     \<and> (\<forall>n f. names dk n = Some f \<longrightarrow> f < fresh dk)"

definition task_ok :: "disk \<Rightarrow> bytes list \<Rightarrow> wtask \<Rightarrow> bool" where
  "task_ok dk ds t = (case task_pc t of
     Starting \<Rightarrow> task_queue t = ds
   | Writing f pos \<Rightarrow> names dk (task_file t) = Some f \<and> pos = length (contents dk f)
       \<and> contents dk f @ concat (task_queue t) = concat ds
   | Flushed f \<Rightarrow> names dk (task_file t) = Some f \<and> contents dk f = concat ds \<and> task_closed t
   | Finished \<Rightarrow> map_option (contents dk) (names dk (task_complete t)) = Some (concat ds) \<and> task_closed t
   | Panicked \<Rightarrow> False)"

definition own_names :: "wtask \<Rightarrow> string list" where
  "own_names t = [task_file t, task_complete t]"

definition system_ok :: "(nat \<Rightarrow> bytes list) \<Rightarrow> system \<Rightarrow> bool" where
  "system_ok S s \<longleftrightarrow> names_ok (disk_of s) \<and> distinct (concat (map own_names (tasks s)))
     \<and> (\<forall>k. if k < length (tasks s) then task_ok (disk_of s) (S k) (tasks s ! k) else S k = [])"

lemma names_okD:
  assumes "names_ok dk"
  shows "names dk m = Some f \<Longrightarrow> names dk n = Some f \<Longrightarrow> m = n"
    and "names dk n = Some f \<Longrightarrow> f < fresh dk"
  using assms unfolding names_ok_def by blast+

lemma put_at_end: "put_at (length c) d c = c @ d"
  by (simp add: put_at_def)

text \<open>A step keeps the names' bindings apart, and what other names are bound to.\<close>

definition keeps :: "disk \<Rightarrow> disk \<Rightarrow> string \<Rightarrow> bool" where
  "keeps dk dk' n \<longleftrightarrow> names dk' n = names dk n
     \<and> (\<forall>f. names dk n = Some f \<longrightarrow> contents dk' f = contents dk f)"

lemma task_ok_keeps:
  assumes "task_ok dk ds t" and "keeps dk dk' (task_file t)" and "keeps dk dk' (task_complete t)"
  shows "task_ok dk' ds t"
  using assms by (auto simp: task_ok_def keeps_def split: task_pc.splits)

lemma create_file_ok:
  assumes "names_ok dk" and "create_file n dk = (f, dk')"
  shows "names_ok dk'" and "names dk' n = Some f" and "contents dk' f = []"
    and "m \<noteq> n \<Longrightarrow> keeps dk dk' m"
proof -
  have *: "names_ok dk' \<and> names dk' n = Some f \<and> contents dk' f = [] \<and> (m \<noteq> n \<longrightarrow> keeps dk dk' m)"
  proof (cases "names dk n")
    case None
    with assms(2) have f: "f = fresh dk" and dk': "dk' = dk\<lparr>names := (names dk)(n \<mapsto> fresh dk),
        contents := (contents dk)(fresh dk := []), fresh := fresh dk + 1\<rparr>"
      by (auto simp: create_file_def)
    have new: "names dk m \<noteq> Some (fresh dk)" for m using names_okD(2) [OF assms(1)] by blast
    have "names_ok dk'"
      unfolding names_ok_def dk' using names_okD [OF assms(1)] new by (auto simp: less_SucI)
    with new show ?thesis unfolding f dk' by (auto simp: keeps_def)
  next
    case (Some g)
    with assms(2) have "f = g" "dk' = dk\<lparr>contents := (contents dk)(g := [])\<rparr>"
      by (auto simp: create_file_def)
    with Some assms(1) names_okD(1) [OF assms(1) Some] show ?thesis
      by (auto simp: names_ok_def keeps_def)
  qed
  then show "names_ok dk'" "names dk' n = Some f" "contents dk' f = []" "m \<noteq> n \<Longrightarrow> keeps dk dk' m"
    by auto
qed

lemma rename_file_ok:
  assumes "names_ok dk" and "names dk a = Some f" and "a \<noteq> c"
  shows "\<exists>dk'. rename_file a c dk = Some dk' \<and> names_ok dk' \<and> names dk' c = Some f
     \<and> contents dk' = contents dk \<and> (\<forall>m. m \<noteq> a \<longrightarrow> m \<noteq> c \<longrightarrow> keeps dk dk' m)"
proof -
  let ?dk = "dk\<lparr>names := (names dk)(a := None, c \<mapsto> f)\<rparr>"
  have "names_ok ?dk"
    unfolding names_ok_def using names_okD [OF assms(1)] assms(2) by (auto split: if_splits)
  with assms show ?thesis by (auto simp: rename_file_def keeps_def)
qed

lemma run_task_ok:
  assumes dk: "names_ok dk" and t: "task_ok dk ds t" and ne: "task_file t \<noteq> task_complete t"
    and run: "run_task t dk = Some (t', dk')"
  shows "names_ok dk' \<and> task_ok dk' ds t' \<and> own_names t' = own_names t
     \<and> (\<forall>m. m \<notin> set (own_names t) \<longrightarrow> keeps dk dk' m)"
proof (cases "task_pc t")
  case Starting
  obtain f dk1 where c: "create_file (task_file t) dk = (f, dk1)" by fastforce
  with Starting run have "t' = t\<lparr>task_pc := Writing f 0\<rparr>" "dk' = dk1" by (auto simp: run_task_def)
  with create_file_ok [OF dk c] t Starting show ?thesis
    by (auto simp: task_ok_def own_names_def)
next
  case (Writing f pos)
  with t have f: "names dk (task_file t) = Some f" "pos = length (contents dk f)"
    "contents dk f @ concat (task_queue t) = concat ds" by (auto simp: task_ok_def)
  show ?thesis
  proof (cases "task_queue t")
    case Nil
    with Writing run f dk show ?thesis
      by (auto simp: run_task_def task_ok_def own_names_def keeps_def split: if_splits)
  next
    case (Cons d q)
    with Writing run have "t' = t\<lparr>task_pc := Writing f (pos + length d), task_queue := q\<rparr>"
      "dk' = write_all f pos d dk" by (auto simp: run_task_def)
    with f dk Cons names_okD(1) [OF dk f(1)] show ?thesis
      by (auto simp: write_all_def put_at_end names_ok_def task_ok_def own_names_def keeps_def)
  qed
next
  case (Flushed f)
  with t have f: "names dk (task_file t) = Some f" "contents dk f = concat ds" "task_closed t"
    by (auto simp: task_ok_def)
  from rename_file_ok [OF dk f(1) ne] obtain dk1 where
    "rename_file (task_file t) (task_complete t) dk = Some dk1" "names_ok dk1"
    "names dk1 (task_complete t) = Some f" "contents dk1 = contents dk"
    "\<forall>m. m \<noteq> task_file t \<longrightarrow> m \<noteq> task_complete t \<longrightarrow> keeps dk dk1 m" by blast
  with Flushed run f show ?thesis
    by (auto simp: run_task_def task_ok_def own_names_def)
next
  case Finished
  with run show ?thesis by (simp add: run_task_def)
next
  case Panicked
  with run show ?thesis by (simp add: run_task_def)
qed

definition spawned :: "wevent list \<Rightarrow> string list list" where
  "spawned es = concat (map (\<lambda>e. case e of Spawn f c \<Rightarrow> [[f, c]] | _ \<Rightarrow> []) es)"

lemma spawned_append: "spawned (es @ fs) = spawned es @ spawned fs"
  by (simp add: spawned_def)

lemma spawned_simps [simp]:
  "spawned [] = []" "spawned (Sched j # es) = spawned es" "spawned (Send j d # es) = spawned es"
  "spawned (Close j # es) = spawned es" "spawned (Spawn f c # es) = [f, c] # spawned es"
  by (simp_all add: spawned_def)

lemma distinct_concat_nth:
  assumes "distinct (concat xss)" and "i < length xss" and "j < length xss" and "i \<noteq> j"
  shows "set (xss ! i) \<inter> set (xss ! j) = {}"
  using assms
proof (induction xss arbitrary: i j)
  case (Cons xs xss)
  have sub: "set xs \<inter> set (xss ! m) = {}" if "m < length xss" for m
  proof -
    have "set (xss ! m) \<subseteq> set (concat xss)" using nth_mem [OF that] by auto
    then show ?thesis using Cons.prems(1) by auto
  qed
  show ?case
  proof (cases i)
    case 0
    with Cons.prems sub show ?thesis by (cases j) auto
  next
    case (Suc i')
    show ?thesis
    proof (cases j)
      case 0
      with Suc Cons.prems sub [of i'] show ?thesis by (simp add: Int_commute)
    next
      case j: (Suc j')
      have "set (xss ! i') \<inter> set (xss ! j') = {}"
        by (rule Cons.IH) (use Cons.prems Suc j in auto)
      with Suc j show ?thesis by simp
    qed
  qed
qed simp

lemma own_names_apart:
  assumes "distinct (concat (map own_names ts))" and "k < length ts" and "j < length ts" and "j \<noteq> k"
  shows "task_file (ts ! j) \<notin> set (own_names (ts ! k))"
    and "task_complete (ts ! j) \<notin> set (own_names (ts ! k))"
  using distinct_concat_nth [OF assms(1), of j k] assms(2-4) by (auto simp: own_names_def)

lemma own_names_differ:
  "distinct (concat (map own_names ts)) \<Longrightarrow> k < length ts \<Longrightarrow> task_file (ts ! k) \<noteq> task_complete (ts ! k)"
  by (induction ts arbitrary: k) (auto simp: own_names_def nth_Cons split: nat.splits)

lemma map_own_names_update:
  "k < length ts \<Longrightarrow> own_names t = own_names (ts ! k) \<Longrightarrow> map own_names (ts[k := t]) = map own_names ts"
  by (metis list_update_id map_update)

lemma system_okD:
  assumes "system_ok S s"
  shows "names_ok (disk_of s)" and "distinct (concat (map own_names (tasks s)))"
    and "k < length (tasks s) \<Longrightarrow> task_ok (disk_of s) (S k) (tasks s ! k)"
    and "\<not> k < length (tasks s) \<Longrightarrow> S k = []"
  using assms unfolding system_ok_def by metis+

lemma sched_ok:
  assumes ok: "system_ok S s"
  shows "system_ok S (sched k s) \<and> map own_names (tasks (sched k s)) = map own_names (tasks s)"
proof (cases "k < length (tasks s) \<and> run_task (tasks s ! k) (disk_of s) \<noteq> None")
  case True
  then obtain t dk where k: "k < length (tasks s)" and run: "run_task (tasks s ! k) (disk_of s) = Some (t, dk)"
    by auto
  note d = system_okD(2) [OF ok]
  from run_task_ok [OF system_okD(1) [OF ok] system_okD(3) [OF ok k] own_names_differ [OF d k] run]
  have t: "names_ok dk" "task_ok dk (S k) t" "own_names t = own_names (tasks s ! k)"
    and frame: "\<And>m. m \<notin> set (own_names (tasks s ! k)) \<Longrightarrow> keeps (disk_of s) dk m" by auto
  have "task_ok dk (S j) (tasks s ! j)" if "j < length (tasks s)" "j \<noteq> k" for j
    using task_ok_keeps [OF system_okD(3) [OF ok that(1)]] frame own_names_apart [OF d k that] by blast
  then show ?thesis
    using k run t ok map_own_names_update [OF k t(3)]
    by (auto simp: sched_def system_ok_def nth_list_update)
next
  case False
  then have "sched k s = s"
    by (cases "run_task (tasks s ! k) (disk_of s)") (auto simp: sched_def)
  with ok show ?thesis by simp
qed

lemma try_send_ok:
  assumes ok: "system_ok S s" and send: "try_send k d s = Inr s'"
    and "\<not> (k < length (tasks s) \<and> task_closed (tasks s ! k))"
  shows "system_ok (S(k := S k @ [d])) s' \<and> map own_names (tasks s') = map own_names (tasks s)"
proof -
  let ?t = "(tasks s ! k)\<lparr>task_queue := task_queue (tasks s ! k) @ [d]\<rparr>"
  from send have k: "k < length (tasks s)" and live: "task_live (tasks s ! k)"
    and s': "s' = s\<lparr>tasks := (tasks s)[k := ?t]\<rparr>"
    by (auto simp: try_send_def res_simps split: if_splits)
  have "task_ok (disk_of s) (S k @ [d]) ?t"
    using system_okD(3) [OF ok k] live by (auto simp: task_ok_def task_live_def split: task_pc.splits)
  moreover have "own_names ?t = own_names (tasks s ! k)" by (simp add: own_names_def)
  note names = map_own_names_update [OF k this]
  ultimately show ?thesis using ok k names unfolding s' system_ok_def by (auto simp: nth_list_update)
qed

lemma close_task_ok:
  assumes ok: "system_ok S s" and k: "k < length (tasks s)"
  shows "system_ok S (close_task k s) \<and> map own_names (tasks (close_task k s)) = map own_names (tasks s)"
proof -
  let ?t = "(tasks s ! k)\<lparr>task_closed := True\<rparr>"
  have "task_ok (disk_of s) (S k) ?t"
    using system_okD(3) [OF ok k] by (auto simp: task_ok_def split: task_pc.splits)
  moreover have "own_names ?t = own_names (tasks s ! k)" by (simp add: own_names_def)
  note names = map_own_names_update [OF k this]
  ultimately show ?thesis using ok k names unfolding close_task_def system_ok_def
    by (auto simp: nth_list_update)
qed

lemma spawn_ok:
  assumes ok: "system_ok S s" and d: "distinct (concat (map own_names (tasks s) @ [[f, c]]))"
  shows "system_ok S (snd (create_async_writer f c s))"
proof -
  let ?t = "\<lparr>task_file = f, task_complete = c, task_pc = Starting, task_queue = [], task_closed = False\<rparr>"
  have s': "snd (create_async_writer f c s) = s\<lparr>tasks := tasks s @ [?t]\<rparr>"
    by (simp add: create_async_writer_def)
  have "own_names ?t = [f, c]" by (simp add: own_names_def)
  with d have "distinct (concat (map own_names (tasks s @ [?t])))" by simp
  moreover have "if k < length (tasks s @ [?t]) then task_ok (disk_of s) (S k) ((tasks s @ [?t]) ! k) else S k = []" for k
    using system_okD(3,4) [OF ok, of k] by (auto simp: nth_append task_ok_def less_Suc_eq)
  ultimately show ?thesis using system_okD(1) [OF ok] unfolding s' system_ok_def by simp
qed

lemma run_events_ok:
  assumes "run_events es s0 = Inr s" and "distinct (concat (spawned es))"
    and "tasks s0 = []" and "names_ok (disk_of s0)"
  shows "system_ok (\<lambda>k. sent k es) s \<and> map own_names (tasks s) = spawned es"
  using assms(1,2)
proof (induction es arbitrary: s rule: rev_induct)
  case Nil
  with assms(3,4) show ?case by (simp add: run_events_def system_ok_def)
next
  case (snoc e es)
  from snoc.prems(1) obtain s1 where s1: "run_events es s0 = Inr s1" "apply_event e s1 = Inr s"
    by (auto simp: run_events_def res_fold_append res_simps)
  have "distinct (concat (spawned es))" using snoc.prems(2) by (simp add: spawned_append)
  with snoc.IH s1(1) have ok: "system_ok (\<lambda>k. sent k es) s1" and names: "map own_names (tasks s1) = spawned es"
    by auto
  show ?case
  proof (cases e)
    case (Sched k)
    with s1(2) sched_ok [OF ok, of k] names show ?thesis by (simp add: sent_append spawned_append)
  next
    case (Send k d)
    with s1(2) have "try_send k d s1 = Inr s" "\<not> (k < length (tasks s1) \<and> task_closed (tasks s1 ! k))"
      by (auto split: if_splits)
    moreover have "(\<lambda>j. sent j (es @ [e])) = (\<lambda>j. sent j es)(k := sent k es @ [d])"
      using Send by (auto simp: sent_append)
    ultimately show ?thesis using try_send_ok [OF ok] names Send by (simp add: spawned_append)
  next
    case (Close k)
    with s1(2) close_task_ok [OF ok, of k] ok names show ?thesis
      by (auto simp: sent_append spawned_append split: if_splits)
  next
    case (Spawn f c)
    with s1(2) have s: "s = snd (create_async_writer f c s1)" by simp
    have "distinct (concat (map own_names (tasks s1) @ [[f, c]]))"
      unfolding names using snoc.prems(2) Spawn by (simp add: spawned_append)
    from spawn_ok [OF ok this] have "system_ok (\<lambda>k. sent k (es @ [e])) s"
      using Spawn by (simp add: s sent_append)
    moreover have "map own_names (tasks s) = map own_names (tasks s1) @ [[f, c]]"
      unfolding s by (simp add: create_async_writer_def) (simp add: own_names_def)
    ultimately show ?thesis using names Spawn by (simp add: spawned_append)
  qed
qed

section \<open>Progress\<close>

definition steps_left :: "wtask \<Rightarrow> nat" where
  "steps_left t = (case task_pc t of Starting \<Rightarrow> length (task_queue t) + 3
     | Writing f p \<Rightarrow> length (task_queue t) + 2 | Flushed f \<Rightarrow> 1 | _ \<Rightarrow> 0)"

lemma run_task_steps:
  "task_closed t \<Longrightarrow> (case run_task t dk of None \<Rightarrow> steps_left t = 0
     | Some (t', dk') \<Rightarrow> steps_left t = Suc (steps_left t') \<and> task_closed t')"
  by (auto simp: run_task_def steps_left_def split: task_pc.splits list.splits option.splits prod.splits)

lemma sched_steps:
  assumes "k < length (tasks s)" and "task_closed (tasks s ! k)"
  shows "length (tasks (sched k s)) = length (tasks s)" and "task_closed (tasks (sched k s) ! k)"
    and "steps_left (tasks (sched k s) ! k) = steps_left (tasks s ! k) - 1"
  using run_task_steps [OF assms(2), of "disk_of s"] assms
  by (auto simp: sched_def split: option.splits)

lemma sched_until_done:
  assumes "k < length (tasks s)" and "task_closed (tasks s ! k)" and "steps_left (tasks s ! k) \<le> n"
  shows "\<exists>s'. run_events (replicate n (Sched k)) s = Inr s' \<and> k < length (tasks s')
     \<and> steps_left (tasks s' ! k) = 0"
  using assms
proof (induction n arbitrary: s)
  case 0
  then show ?case by (simp add: run_events_def)
next
  case (Suc n)
  from Suc.IH [of "sched k s"] sched_steps [OF Suc.prems(1,2)] Suc.prems show ?case
    by (auto simp: run_events_def)
qed

lemma run_events_append: "run_events (es @ fs) s = res_bind (run_events es s) (run_events fs)"
  by (simp add: run_events_def [abs_def] res_fold_append)

section \<open>Properties\<close>


definition no_tasks :: system where
  "no_tasks = \<lparr>tasks = [], disk_of = \<lparr>names = (\<lambda>_. None), contents = (\<lambda>_. []), fresh = 0\<rparr>\<rparr>"

lemma no_tasks_ok: "tasks no_tasks = []" "names_ok (disk_of no_tasks)"
  by (simp_all add: no_tasks_def names_ok_def)


text \<open>
  Also: two writers of the same name, the second made while the first is open:
  the second task truncates the file of the first, the first renames it away, and the second
  panics at its own rename. What the first had written is in no file.
\<close>

theorem same_name_loss:
  "\<exists>s. run_events [Spawn (p @ ''tmp'') (p @ ''data''), Send 0 d, Sched 0, Sched 0,
       Spawn (p @ ''tmp'') (p @ ''data''), Close 0, Sched 1, Sched 0, Sched 0, Close 1, Sched 1, Sched 1]
       no_tasks = Inr s
     \<and> task_pc (tasks s ! 0) = Finished \<and> task_pc (tasks s ! 1) = Panicked
     \<and> map_option (contents (disk_of s)) (names (disk_of s) (p @ ''data'')) = Some []
     \<and> contents (disk_of s) = (\<lambda>_. [])"
  by (auto simp: run_events_def no_tasks_def create_async_writer_def try_send_def index_at_def task_live_def
      sched_def run_task_def create_file_def write_all_def put_at_def close_task_def rename_file_def)

text \<open>
  Also: the names of two writers of one directory and suffix are different unless
  they were made in the same second for the same processor.
\<close>

theorem file_name_inj:
  "get_file_name time idx dir suffix = get_file_name time' idx' dir suffix \<longleftrightarrow> time = time' \<and> idx = idx'"
proof -
  have no_dash: "CHR ''-'' \<notin> set (dec n)" for n
  proof
    assume "CHR ''-'' \<in> set (dec n)"
    from dec_digits [OF this] show False by (simp add: is_digit_def digit_value_def)
  qed
  have "get_file_name time idx dir suffix = get_file_name time' idx' dir suffix \<longleftrightarrow>
      dec time @ CHR ''-'' # dec (unat idx) = dec time' @ CHR ''-'' # dec (unat idx')"
    by (simp add: get_file_name_def)
  also have "\<dots> \<longleftrightarrow> dec time = dec time' \<and> dec (unat idx) = dec (unat idx')"
    using no_dash by (intro append_Cons_eq_iff) auto
  finally show ?thesis by (auto simp: dec_inj word_eq_iff_unsigned [where ?'a = nat])
qed

text \<open>Two writers that take turns, for the witnesses.\<close>

definition two_writers :: "wevent list" where
  "two_writers = [Spawn ''at'' ''ad'', Spawn ''bt'' ''bd'', Send 0 [1, 2], Sched 0, Send 1 [9], Sched 1,
     Sched 0, Send 0 [3], Sched 1, Close 0, Sched 0, Sched 0, Sched 0]"

lemma two_writers_run:
  "\<exists>s. run_events two_writers no_tasks = Inr s \<and> length (tasks s) = 2
     \<and> task_pc (tasks s ! 0) = Finished \<and> task_queue (tasks s ! 1) = []"
  by (auto simp: two_writers_def run_events_def no_tasks_def create_async_writer_def try_send_def index_at_def
      task_live_def sched_def run_task_def create_file_def write_all_def put_at_def close_task_def rename_file_def)

lemma two_writers_names: "distinct (concat (spawned two_writers))"
  by (simp add: two_writers_def)



end
