(* ===== verification/Collector.thy ===== *)
theory Collector
  imports FileWriter
begin

text \<open>
  The collector binary (\<open>src/src/bin/collector.rs\<close>): the capture loop's callback writes the
  bytes of each processor to a file of its own and starts a new file when one has grown past
  \<open>FILE_SIZE\<close>; and the options the three collecting binaries share (\<open>set_file_size\<close>,
  \<open>get_process_id\<close>, the same text in \<open>online_proc.rs\<close>, \<open>server.rs\<close> and \<open>client.rs\<close>).

  The statics of the program are the fields of a record. The clock is read once per new
  writer; its seconds are an argument.
\<close>

section \<open>Options\<close>

definition GB :: usize where
  "GB = 1024 * 1024 * 1024"

definition MB :: usize where
  "MB = 1024 * 1024"

definition set_file_size :: "build \<Rightarrow> string \<Rightarrow> usize \<Rightarrow> usize res" where
  "set_file_size b arg FILE_SIZE =
     (let file_size = to_uppercase arg;
          unit = (if ends_with file_size ''GB'' then Some (1 * GB)
                  else if ends_with file_size ''MB'' then Some (1 * MB) else None)
      in case unit of
           None \<Rightarrow> Inr FILE_SIZE
         | Some u \<Rightarrow>
             (case parse_usize (trim_end_matches is_alphabetic file_size) of
                None \<Rightarrow> Inl UnwrapErr
              | Some num \<Rightarrow> umul b num u))"

text \<open>The processes in the order the system lists them.\<close>

fun get_process_id :: "string \<Rightarrow> (usize \<times> string) list \<Rightarrow> usize option" where
  "get_process_id name [] = None"
| "get_process_id name ((pid, cur) # procs) =
     (if to_uppercase name = to_uppercase cur then Some pid else get_process_id name procs)"

lemma set_file_size_unit:
  assumes "to_uppercase u = ''GB'' \<and> unit = GB \<or> to_uppercase u = ''MB'' \<and> unit = MB"
    and "n * unat unit < 2 ^ 64"
  shows "set_file_size b (dec n @ u) old = Inr (of_nat n * unit) \<and> unat (of_nat n * unit) = n * unat unit"
proof -
  have unit_pos: "0 < unat unit" using assms(1) by (auto simp: GB_def MB_def)
  then have n: "n < 2 ^ 64" using assms(2) by (metis le_less_trans mult.right_neutral mult_le_mono2 Suc_leI One_nat_def)
  then have un: "unat (of_nat n :: usize) = n" by (simp add: unat_of_nat)
  have up: "to_uppercase (dec n @ u) = dec n @ to_uppercase u"
    by (simp add: to_uppercase_append upper_dec)
  have "\<not> is_alphabetic (last (dec n))"
    using dec_digits dec_not_Nil [of n] by (intro digit_not_alphabetic) (metis last_in_set)
  moreover have "\<And>c. c \<in> set (to_uppercase u) \<Longrightarrow> is_alphabetic c"
    using assms(1) by (auto simp: is_alphabetic_def upper_def)
  ultimately have "trim_end_matches is_alphabetic (dec n @ to_uppercase u) = dec n"
    using dec_not_Nil by (intro trim_end_matches_append)
  moreover have "ends_with (dec n @ ''GB'') ''GB''" "ends_with (dec n @ ''MB'') ''MB''"
    "\<not> ends_with (dec n @ ''MB'') ''GB''" by (simp_all add: ends_with_def)
  moreover have "umul b (of_nat n) unit = Inr (of_nat n * unit)" using assms(2) un by (simp add: umul_ok)
  ultimately have "set_file_size b (dec n @ u) old = Inr (of_nat n * unit)"
    unfolding set_file_size_def up using assms(1) parse_dec [OF n] by (auto simp: Let_def)
  moreover have "unat (of_nat n * unit) = n * unat unit" using assms(2) un by (simp add: unat_word_ariths)
  ultimately show ?thesis by blast
qed

section \<open>State and callback\<close>

record collector =
  WT :: "DataWriter option list option"
  RT :: bool
  FILE_SIZE :: usize
  col_sys :: system

definition collector_processor ::
    "build \<Rightarrow> nat \<Rightarrow> nat \<Rightarrow> bytes \<Rightarrow> nat \<Rightarrow> collector \<Rightarrow> (bool \<times> collector) res" where
  "collector_processor b time i buff sz st =
     (case WT st of
        None \<Rightarrow> Inr (True, st)
      | Some wts \<Rightarrow>
          res_bind (index_at wts i) (\<lambda>slot.
          case slot of
            None \<Rightarrow> Inr (True, st)
          | Some wt \<Rightarrow>
              res_bind (DataWriter_write b buff sz (wt, col_sys st)) (\<lambda>(wt', s).
              let dir = writer_dir wt'; new_file = write_size wt' > FILE_SIZE st;
                  st' = st\<lparr>WT := Some (wts[i := Some wt']), col_sys := s\<rparr>
              in if new_file \<and> RT st
                 then let (new, s') = DataWriter_new time (of_nat i) dir ''tmp'' s in
                   Inr (True, st'\<lparr>WT := Some (wts[i := Some new]), col_sys := drop_writer wt' s'\<rparr>)
                 else Inr (True, st'))))"

text \<open>One writer per processor; \<open>clock i\<close> is the time at which writer \<open>i\<close> is made.\<close>

fun make_writers :: "(nat \<Rightarrow> nat) \<Rightarrow> string \<Rightarrow> string \<Rightarrow> nat list \<Rightarrow> system \<Rightarrow> DataWriter option list \<times> system" where
  "make_writers clock out_dir suffix [] s = ([], s)"
| "make_writers clock out_dir suffix (i # is) s =
     (let (w, s1) = DataWriter_new (clock i) (of_nat i) out_dir suffix s;
          (ws, s2) = make_writers clock out_dir suffix is s1
      in (Some w # ws, s2))"

definition collector_env ::
    "build \<Rightarrow> nat \<Rightarrow> (nat \<Rightarrow> nat) \<Rightarrow> string \<Rightarrow> string \<Rightarrow> disk \<Rightarrow> collector res" where
  "collector_env b cpu_nums clock out_dir file_size dk =
     (let (wts, s) = make_writers clock out_dir ''tmp'' [0..<cpu_nums] \<lparr>tasks = [], disk_of = dk\<rparr> in
      res_bind (set_file_size b file_size (1 * GB)) (\<lambda>n.
      Inr \<lparr>WT = Some wts, RT = True, FILE_SIZE = n, col_sys = s\<rparr>))"

text \<open>A run of the collector: calls of the callback, and steps of the writers' tasks.\<close>

datatype collector_event = Call nat nat bytes nat | Step nat

fun collect :: "build \<Rightarrow> collector_event list \<Rightarrow> collector \<Rightarrow> collector res" where
  "collect b [] st = Inr st"
| "collect b (Step k # es) st = collect b es (st\<lparr>col_sys := sched k (col_sys st)\<rparr>)"
| "collect b (Call time i buff sz # es) st =
     res_bind (collector_processor b time i buff sz st) (\<lambda>(go, st'). collect b es st')"

section \<open>What the files hold\<close>

text \<open>
  \<open>cpu_data i es\<close>: the bytes the callback was given for processor \<open>i\<close>. In a run of the
  writers \<open>own ! k\<close> is the processor of task \<open>k\<close>, and \<open>cpu_files\<close> what was sent to the tasks
  of a processor, in the order of their files.
\<close>

definition cpu_data :: "nat \<Rightarrow> collector_event list \<Rightarrow> bytes" where
  "cpu_data i es = concat (map (\<lambda>e. case e of Call t j buff sz \<Rightarrow> if j = i then take sz buff else []
     | Step k \<Rightarrow> []) es)"

definition cpu_files :: "nat list \<Rightarrow> wevent list \<Rightarrow> nat \<Rightarrow> bytes" where
  "cpu_files own es i = concat (map (\<lambda>k. concat (sent k es)) (filter (\<lambda>k. own ! k = i) [0..<length own]))"

definition slot_ok :: "nat list \<Rightarrow> system \<Rightarrow> nat \<Rightarrow> DataWriter \<Rightarrow> bool" where
  "slot_ok own s i w \<longleftrightarrow> writer_tx w < length own \<and> own ! writer_tx w = i
     \<and> (\<forall>k. writer_tx w < k \<longrightarrow> k < length own \<longrightarrow> own ! k \<noteq> i)
     \<and> \<not> task_closed (tasks s ! writer_tx w)"

text \<open>The names of task \<open>k\<close> are a time, the number of its processor and a suffix.\<close>

definition made_for :: "string \<Rightarrow> nat list \<Rightarrow> wtask list \<Rightarrow> bool" where
  "made_for dir own ts \<longleftrightarrow> (\<forall>k < length own. \<exists>time.
     task_file (ts ! k) = get_file_name time (of_nat (own ! k)) dir ''tmp''
     \<and> task_complete (ts ! k) = get_file_name time (of_nat (own ! k)) dir ''data'')"

definition collector_inv ::
    "system \<Rightarrow> string \<Rightarrow> wevent list \<Rightarrow> nat list \<Rightarrow> (nat \<Rightarrow> bytes) \<Rightarrow> collector \<Rightarrow> bool" where
  "collector_inv s0 dir es own data st \<longleftrightarrow> run_events es s0 = Inr (col_sys st)
     \<and> length own = length (tasks (col_sys st))
     \<and> (\<exists>wts. WT st = Some wts \<and> (\<forall>i < length wts. \<exists>w. wts ! i = Some w \<and> slot_ok own (col_sys st) i w \<and> writer_dir w = dir)
         \<and> (\<forall>i \<in> set own. i < length wts))
     \<and> made_for dir own (tasks (col_sys st))
     \<and> (\<forall>i. cpu_files own es i = data i)"

lemma sent_bound:
  assumes "run_events es s0 = Inr s" and "tasks s0 = []" and "length (tasks s) \<le> k"
  shows "sent k es = []"
proof -
  have "sent k es = [] \<or> k < length (tasks s)" using assms(1)
  proof (induction es arbitrary: s rule: rev_induct)
    case Nil
    then show ?case by simp
  next
    case (snoc e es)
    from snoc.prems obtain s1 where s1: "run_events es s0 = Inr s1" "apply_event e s1 = Inr s"
      by (auto simp: run_events_def res_fold_append res_simps)
    have "length (tasks s1) \<le> length (tasks s) \<and> (\<forall>j d. e = Send j d \<longrightarrow> j < length (tasks s))"
      using s1(2) by (cases e)
        (auto simp: sched_def try_send_def close_task_def create_async_writer_def res_simps
          split: if_splits option.splits)
    moreover from snoc.IH [OF s1(1)] have "sent k es = [] \<or> k < length (tasks s1)" .
    ultimately show ?case by (cases e) (auto simp: sent_append)
  qed
  with assms(3) show ?thesis by simp
qed

text \<open>The task a processor writes to is the last of its tasks.\<close>

lemma filter_last:
  assumes "tx < length own" and "own ! tx = i" and "\<forall>k. tx < k \<longrightarrow> k < length own \<longrightarrow> own ! k \<noteq> i"
  shows "filter (\<lambda>k. own ! k = i) [0..<length own] = filter (\<lambda>k. own ! k = i) [0..<tx] @ [tx]"
proof -
  have "[0..<length own] = [0..<tx] @ tx # [Suc tx..<length own]"
    using assms(1) upt_add_eq_append [of 0 tx "length own - tx"] upt_conv_Cons [of tx "length own"] by simp
  moreover have "filter (\<lambda>k. own ! k = i) [Suc tx..<length own] = []"
    using assms(3) by (auto simp: filter_empty_conv)
  ultimately show ?thesis using assms(2) by simp
qed

lemma cpu_files_send:
  assumes "slot_ok own s i w"
  shows "cpu_files own (es @ [Send (writer_tx w) d]) j = cpu_files own es j @ (if j = i then d else [])"
proof -
  note slot = assms [unfolded slot_ok_def]
  have other: "map (\<lambda>k. concat (sent k (es @ [Send (writer_tx w) d]))) ks = map (\<lambda>k. concat (sent k es)) ks"
    if "writer_tx w \<notin> set ks" for ks
    using that by (auto simp: sent_append)
  show ?thesis
  proof (cases "j = i")
    case True
    have "filter (\<lambda>k. own ! k = i) [0..<length own] = filter (\<lambda>k. own ! k = i) [0..<writer_tx w] @ [writer_tx w]"
      using slot by (intro filter_last) auto
    moreover have "concat (sent (writer_tx w) (es @ [Send (writer_tx w) d])) = concat (sent (writer_tx w) es) @ d"
      by (simp add: sent_append)
    moreover have "writer_tx w \<notin> set (filter (\<lambda>k. own ! k = i) [0..<writer_tx w])" by simp
    note other [OF this]
    ultimately show ?thesis
      using True by (simp only: cpu_files_def map_append concat_append list.map concat.simps append_Nil2
          append_assoc if_True simp_thms)
  next
    case False
    then have "writer_tx w \<notin> set (filter (\<lambda>k. own ! k = j) [0..<length own])" using slot by auto
    note other [OF this]
    with False show ?thesis by (simp only: cpu_files_def if_False append_Nil2)
  qed
qed

lemma cpu_files_spawn:
  assumes "sent (length own) es = []"
  shows "cpu_files (own @ [i]) (es @ [Spawn f c]) j = cpu_files own es j"
proof -
  have "filter (\<lambda>k. (own @ [i]) ! k = j) [0..<length own] = filter (\<lambda>k. own ! k = j) [0..<length own]"
    by (rule filter_cong) (auto simp: nth_append)
  with assms show ?thesis by (simp add: cpu_files_def sent_append)
qed

lemma cpu_files_idle:
  "cpu_files own (es @ [Sched k]) j = cpu_files own es j" "cpu_files own (es @ [Close k]) j = cpu_files own es j"
  by (simp_all add: cpu_files_def sent_append)

lemma run_events_snoc:
  "run_events es s0 = Inr s \<Longrightarrow> apply_event e s = Inr s' \<Longrightarrow> run_events (es @ [e]) s0 = Inr s'"
  by (simp add: run_events_def res_fold_append)

lemma slot_ok_mono:
  assumes "slot_ok own s i w" and "writer_tx w < length (tasks s)"
    and "task_closed (tasks s' ! writer_tx w) = task_closed (tasks s ! writer_tx w)"
  shows "slot_ok own s' i w"
  using assms by (simp add: slot_ok_def)

lemma task_closed_sched: "task_closed (tasks (sched k s) ! j) = task_closed (tasks s ! j)"
proof (cases "k < length (tasks s)")
  case True
  have "task_closed t' = task_closed t" if "run_task t dk = Some (t', dk')" for t dk t' dk'
    using that by (auto simp: run_task_def split: task_pc.splits list.splits if_splits option.splits prod.splits)
  with True show ?thesis by (auto simp: sched_def nth_list_update split: option.split)
next
  case False
  then show ?thesis by (simp add: sched_def)
qed

lemma length_sched: "length (tasks (sched k s)) = length (tasks s)"
  by (auto simp: sched_def split: option.split)

lemma own_names_sched: "own_names (tasks (sched k s) ! j) = own_names (tasks s ! j)"
proof (cases "k < length (tasks s)")
  case True
  have "own_names t' = own_names t" if "run_task t dk = Some (t', dk')" for t dk t' dk'
    using that by (auto simp: own_names_def run_task_def split: task_pc.splits list.splits if_splits option.splits prod.splits)
  with True show ?thesis by (auto simp: sched_def nth_list_update split: option.split)
qed (simp add: sched_def)

lemma own_names_drop: "own_names (tasks (drop_writer w s) ! j) = own_names (tasks s ! j)"
  by (cases "writer_tx w < length (tasks s)")
    (auto simp: drop_writer_def close_task_def own_names_def nth_list_update list_update_beyond)

lemma made_for_frame:
  "made_for dir own ts \<Longrightarrow> (\<And>k. k < length own \<Longrightarrow> own_names (ts' ! k) = own_names (ts ! k)) \<Longrightarrow> made_for dir own ts'"
  unfolding made_for_def own_names_def list.inject by metis

lemma made_for_snoc:
  "length own = length ts \<Longrightarrow> made_for dir (own @ [i]) (ts @ [t]) \<longleftrightarrow> made_for dir own ts \<and> made_for dir [i] [t]"
  by (auto simp: made_for_def nth_append less_Suc_eq split: if_splits) 

lemma collector_inv_step:
  assumes "collector_inv s0 dir es own data st"
  shows "collector_inv s0 dir (es @ [Sched k]) own data (st\<lparr>col_sys := sched k (col_sys st)\<rparr>)"
  using assms
  by (auto simp: collector_inv_def cpu_files_idle length_sched slot_ok_def task_closed_sched own_names_sched
      intro!: run_events_snoc elim: made_for_frame)

lemma DataWriter_write_Inr:
  assumes "DataWriter_write b buff sz (w, s) = Inr (w', s')"
  shows "try_send (writer_tx w) (take sz buff) s = Inr s'" and "writer_tx w' = writer_tx w"
    and "writer_dir w' = writer_dir w" and "write_size w' = write_size w + of_nat sz"
    and "sz \<le> length buff"
  using assms by (auto simp: DataWriter_write_def res_simps dest: uadd_value)

lemma try_send_frame:
  assumes "try_send k d s = Inr s'"
  shows "length (tasks s') = length (tasks s)" and "task_closed (tasks s' ! j) = task_closed (tasks s ! j)"
    and "k < length (tasks s)" and "own_names (tasks s' ! j) = own_names (tasks s ! j)"
  using assms by (auto simp: try_send_def res_simps nth_list_update own_names_def split: if_splits)

lemma DataWriter_new_names:
  assumes "DataWriter_new time idx dir ''tmp'' s = (w, s')"
  shows "s' = s\<lparr>tasks := tasks s @ [\<lparr>task_file = get_file_name time idx dir ''tmp'',
      task_complete = get_file_name time idx dir ''data'', task_pc = Starting, task_queue = [], task_closed = False\<rparr>]\<rparr>"
    and "w = \<lparr>writer_tx = length (tasks s), file_name = get_file_name time idx dir ''tmp'', writer_dir = dir, write_size = 0\<rparr>"
  using assms by (auto simp: DataWriter_new_def create_async_writer_def get_file_name_def Let_def)

text \<open>A new writer for processor \<open>i\<close>, made after the old one has been written to.\<close>

lemma collector_inv_spawn:
  assumes inv: "collector_inv s0 dir es own data st" and tasks0: "tasks s0 = []"
    and wts: "WT st = Some wts" "i < length wts" "wts ! i = Some w"
    and new: "DataWriter_new time (of_nat i) (writer_dir w) ''tmp'' (col_sys st) = (w2, s2)"
  shows "\<exists>es' own'. collector_inv s0 dir es' own' data
    (st\<lparr>WT := Some (wts[i := Some w2]), col_sys := drop_writer w s2\<rparr>)"
proof -
  let ?s = "col_sys st" and ?n = "length own"
  note i = inv [unfolded collector_inv_def]
  note N = DataWriter_new_names [OF new]
  define f c where "f = get_file_name time (of_nat i) (writer_dir w) ''tmp''"
    and "c = get_file_name time (of_nat i) (writer_dir w) ''data''"
  note f = this
  have s2: "s2 = snd (create_async_writer f c ?s)" and tx: "writer_tx w2 = length (tasks ?s)"
    using N by (simp_all add: create_async_writer_def f)
  have dir: "writer_dir w = dir" using i wts by auto
  have n: "?n = length (tasks ?s)" using i by blast
  have w: "slot_ok own ?s i w" using i wts by auto
  have slots: "wts ! j = Some v \<Longrightarrow> j < length wts \<Longrightarrow> slot_ok own ?s j v \<and> writer_dir v = dir" for j v
    using i wts(1) by fastforce
  have some: "j < length wts \<Longrightarrow> \<exists>v. wts ! j = Some v" for j
    using i wts(1) by fastforce
  have w_lt: "writer_tx w < length (tasks ?s)" using w n by (simp add: slot_ok_def)
  have sent0: "sent ?n es = []"
    using i n tasks0 by (intro sent_bound [of es s0 ?s]) simp_all
  let ?es = "es @ [Spawn f c] @ [Close (writer_tx w)]" and ?own = "own @ [i]" and ?s' = "drop_writer w s2"
  have spawn: "run_events (es @ [Spawn f c]) s0 = Inr s2" using i s2 by (intro run_events_snoc) simp_all
  have "run_events ((es @ [Spawn f c]) @ [Close (writer_tx w)]) s0 = Inr ?s'"
    by (rule run_events_snoc [OF spawn]) (use w_lt in \<open>simp add: drop_writer_def create_async_writer_def s2\<close>)
  then have run: "run_events ?es s0 = Inr ?s'" by simp
  have nth: "tasks ?s' ! j = (if j = writer_tx w then (tasks ?s ! j)\<lparr>task_closed := True\<rparr> else tasks ?s ! j)"
    if "j < length (tasks ?s)" for j
    using that w_lt s2 by (auto simp: drop_writer_def close_task_def create_async_writer_def nth_append nth_list_update)
  have nth_new: "\<not> task_closed (tasks ?s' ! length (tasks ?s))"
    using w_lt s2 by (simp add: drop_writer_def close_task_def create_async_writer_def nth_append nth_list_update)
  have len: "length (tasks ?s') = Suc (length (tasks ?s))"
    using s2 by (simp add: drop_writer_def close_task_def create_async_writer_def)
  have files: "cpu_files ?own ?es j = data j" for j
    using i cpu_files_spawn [OF sent0, of i f c j] cpu_files_idle(2) [of ?own "es @ [Spawn f c]" "writer_tx w" j]
    by simp
  have slot_new: "slot_ok ?own ?s' i w2"
    using tx n nth_new by (simp add: slot_ok_def nth_append)
  have slot_old: "slot_ok ?own ?s' j v" if j: "j < length wts" "j \<noteq> i" "wts ! j = Some v" for j v
  proof -
    note v = slots [OF j(3,1), THEN conjunct1, unfolded slot_ok_def]
    have "writer_tx v \<noteq> writer_tx w" using v w j(2) by (auto simp: slot_ok_def)
    with v nth n j(2) show ?thesis by (auto simp: slot_ok_def nth_append less_Suc_eq)
  qed
  have "\<exists>v. wts[i := Some w2] ! j = Some v \<and> slot_ok ?own ?s' j v \<and> writer_dir v = dir" if "j < length wts" for j
    using some [OF that] slot_new slot_old [OF that] slots [OF _ that] wts(2) N(2) dir by (cases "j = i") auto
  moreover have "made_for dir ?own (tasks s2)"
    using N(1) dir n i by (simp add: made_for_snoc) (auto simp: made_for_def)
  then have "made_for dir ?own (tasks ?s')"
    by (rule made_for_frame) (simp add: own_names_drop)
  moreover have "\<forall>j \<in> set ?own. j < length wts" using i wts by auto
  ultimately have "collector_inv s0 dir ?es ?own data
      (st\<lparr>WT := Some (wts[i := Some w2]), col_sys := ?s'\<rparr>)"
    unfolding collector_inv_def using run len n files by simp
  then show ?thesis by blast
qed

lemma collector_processor_inv:
  assumes inv: "collector_inv s0 dir es own data st" and tasks0: "tasks s0 = []"
    and call: "collector_processor b time i buff sz st = Inr (go, st')"
  shows "go \<and> (\<exists>es' own'. collector_inv s0 dir es' own' (data(i := data i @ take sz buff)) st')"
proof -
  from inv obtain wts where wts: "WT st = Some wts" unfolding collector_inv_def by blast
  with call have i: "i < length wts" by (auto simp: collector_processor_def res_simps)
  with inv wts obtain w where w: "wts ! i = Some w" "slot_ok own (col_sys st) i w" "writer_dir w = dir"
    unfolding collector_inv_def by auto
  from call wts i w(1) obtain w' s where wr: "DataWriter_write b buff sz (w, col_sys st) = Inr (w', s)"
    by (auto simp: collector_processor_def res_simps index_at_def)
  note W = DataWriter_write_Inr [OF wr]
  note F = try_send_frame [OF W(1)]
  let ?st = "st\<lparr>WT := Some (wts[i := Some w']), col_sys := s\<rparr>"
  let ?data = "data(i := data i @ take sz buff)"
  have "collector_inv s0 dir (es @ [Send (writer_tx w) (take sz buff)]) own ?data ?st"
  proof -
    note I = inv [unfolded collector_inv_def]
    have "apply_event (Send (writer_tx w) (take sz buff)) (col_sys st) = Inr s"
      using W(1) w(2) by (simp add: slot_ok_def)
    then have run: "run_events (es @ [Send (writer_tx w) (take sz buff)]) s0 = Inr s"
      using I by (intro run_events_snoc) auto
    have "\<exists>v. wts[i := Some w'] ! j = Some v \<and> slot_ok own s j v \<and> writer_dir v = dir" if "j < length wts" for j
    proof (cases "j = i")
      case True
      with w(2,3) W(2,3) F(2) i show ?thesis by (simp add: slot_ok_def)
    next
      case False
      with I wts that obtain v where "wts ! j = Some v" "slot_ok own (col_sys st) j v" "writer_dir v = dir" by auto
      with F(2) False show ?thesis by (simp add: slot_ok_def)
    qed
    moreover have "made_for dir own (tasks s)" using I F(4) made_for_frame by metis
    ultimately show ?thesis using run I wts F(1) cpu_files_send [OF w(2), of es "take sz buff"]
      by (auto simp: collector_inv_def)
  qed
  note sent = this
  show ?thesis
  proof (cases "write_size w' > FILE_SIZE st \<and> RT st")
    case False
    with call wts i w(1) wr have "go" "st' = ?st"
      by (auto simp: collector_processor_def index_at_def Let_def split: if_splits)
    with sent show ?thesis by blast
  next
    case True
    obtain w2 s2 where new: "DataWriter_new time (of_nat i) (writer_dir w') ''tmp'' s = (w2, s2)" by fastforce
    with True call wts i w(1) wr have
      "go" "st' = ?st\<lparr>WT := Some ((wts[i := Some w'])[i := Some w2]), col_sys := drop_writer w' s2\<rparr>"
      by (auto simp: collector_processor_def index_at_def Let_def)
    with collector_inv_spawn [OF sent tasks0, of "wts[i := Some w']" i w'] new i show ?thesis by auto
  qed
qed

lemma collect_inv:
  assumes "collector_inv s0 dir es own data st" and "tasks s0 = []" and "collect b cs st = Inr st'"
  shows "\<exists>es' own'. collector_inv s0 dir es' own' (\<lambda>i. data i @ cpu_data i cs) st'"
  using assms(1,3)
proof (induction b cs st arbitrary: es own data rule: collect.induct)
  case (1 b st)
  then show ?case by (auto simp: cpu_data_def)
next
  case (2 b k cs st)
  from 2(1) [OF collector_inv_step [OF 2(2)]] 2(3) show ?case by (simp add: cpu_data_def)
next
  case (3 b time i buff sz cs st)
  from 3(3) obtain go st1 where st1: "collector_processor b time i buff sz st = Inr (go, st1)"
    "collect b cs st1 = Inr st'" by (auto simp: res_simps)
  from collector_processor_inv [OF 3(2) assms(2) st1(1)] obtain es1 own1 where
    inv1: "collector_inv s0 dir es1 own1 (data(i := data i @ take sz buff)) st1" by blast
  from 3(1) [OF st1(1) refl inv1 st1(2)] obtain es' own' where
    "collector_inv s0 dir es' own' (\<lambda>j. (data(i := data i @ take sz buff)) j @ cpu_data j cs) st'" by blast
  moreover have "(\<lambda>j. (data(i := data i @ take sz buff)) j @ cpu_data j cs)
      = (\<lambda>j. data j @ cpu_data j (Call time i buff sz # cs))"
    by (auto simp: cpu_data_def)
  ultimately show ?case by auto
qed

lemma make_writers_inv:
  assumes "make_writers clock dir ''tmp'' [m..<n] s = (ws, s')" and "m \<le> n" and "length (tasks s) = m"
    and "run_events es s0 = Inr s" and "tasks s0 = []" and "\<forall>t \<in> set (tasks s). \<not> task_closed t"
    and "\<forall>k. concat (sent k es) = []" and "made_for dir [0..<m] (tasks s)"
  shows "length ws = n - m \<and> length (tasks s') = n \<and> (\<forall>t \<in> set (tasks s'). \<not> task_closed t)
     \<and> (\<forall>j < n - m. \<exists>w. ws ! j = Some w \<and> writer_tx w = m + j \<and> writer_dir w = dir)
     \<and> made_for dir [0..<n] (tasks s') \<and> (\<exists>es'. run_events es' s0 = Inr s' \<and> (\<forall>k. concat (sent k es') = []))"
  using assms
proof (induction "n - m" arbitrary: m s ws es)
  case 0
  then show ?case by auto
next
  case (Suc k)
  let ?f = "get_file_name (clock m) (of_nat m) dir ''tmp''" and ?c = "get_file_name (clock m) (of_nat m) dir ''data''"
  let ?s1 = "snd (create_async_writer ?f ?c s)"
  obtain w1 s1 where new: "DataWriter_new (clock m) (of_nat m) dir ''tmp'' s = (w1, s1)" by fastforce
  note N = DataWriter_new_names [OF new]
  have s1_eq: "s1 = ?s1" using N(1) by (simp add: create_async_writer_def)
  have up: "[m..<n] = m # [Suc m..<n]" using Suc.hyps(2) by (intro upt_conv_Cons) simp
  obtain ws1 where ws1: "make_writers clock dir ''tmp'' [Suc m..<n] ?s1 = (ws1, s')"
    "ws = Some w1 # ws1"
    using Suc.prems(1) new s1_eq unfolding up by (auto split: prod.splits)
  have s1: "length (tasks ?s1) = Suc m" "\<forall>t \<in> set (tasks ?s1). \<not> task_closed t"
    "run_events (es @ [Spawn ?f ?c]) s0 = Inr ?s1" "\<forall>k. concat (sent k (es @ [Spawn ?f ?c])) = []"
    using Suc.prems(3,6,7) run_events_snoc [OF Suc.prems(4), of "Spawn ?f ?c" ?s1]
    by (auto simp: create_async_writer_def sent_append)
  have "made_for dir ([0..<m] @ [m]) (tasks ?s1)"
    using Suc.prems(3,8) by (simp add: create_async_writer_def made_for_snoc) (auto simp: made_for_def)
  then have made: "made_for dir [0..<Suc m] (tasks ?s1)" by simp
  have k: "k = n - Suc m" "Suc m \<le> n" using Suc.hyps(2) by auto
  from Suc.hyps(1) [OF k(1) ws1(1) k(2) s1(1,3) Suc.prems(5) s1(2,4) made]
  have IH: "length ws1 = n - Suc m" "length (tasks s') = n" "\<forall>t \<in> set (tasks s'). \<not> task_closed t"
    "\<forall>j < n - Suc m. \<exists>w. ws1 ! j = Some w \<and> writer_tx w = Suc m + j \<and> writer_dir w = dir" "made_for dir [0..<n] (tasks s')"
    "\<exists>es'. run_events es' s0 = Inr s' \<and> (\<forall>k. concat (sent k es') = [])" by auto
  have "\<exists>w. ws ! j = Some w \<and> writer_tx w = m + j \<and> writer_dir w = dir" if "j < n - m" for j
    using that IH(4) Suc.prems(3) ws1(2) N(2) by (cases j) auto
  with IH ws1(2) k Suc.hyps(2) show ?case by auto
qed

lemma collector_env_inv:
  assumes "collector_env b n clock out_dir file_size dk = Inr st"
  shows "\<exists>es own. collector_inv \<lparr>tasks = [], disk_of = dk\<rparr> out_dir es own (\<lambda>_. []) st"
proof -
  let ?s0 = "\<lparr>tasks = [], disk_of = dk\<rparr>"
  obtain ws s where mk: "make_writers clock out_dir ''tmp'' [0..<n] ?s0 = (ws, s)" by fastforce
  with assms obtain sz where st: "st = \<lparr>WT = Some ws, RT = True, FILE_SIZE = sz, col_sys = s\<rparr>"
    by (auto simp: collector_env_def res_simps)
  have "made_for out_dir [0..<0] (tasks ?s0)" by (simp add: made_for_def)
  with make_writers_inv [OF mk, of "[]" ?s0]
  have w: "length ws = n" "length (tasks s) = n" "\<forall>t \<in> set (tasks s). \<not> task_closed t"
    "\<forall>j < n. \<exists>w. ws ! j = Some w \<and> writer_tx w = j \<and> writer_dir w = out_dir"
    "made_for out_dir [0..<n] (tasks s)"
    "\<exists>es'. run_events es' ?s0 = Inr s \<and> (\<forall>k. concat (sent k es') = [])"
    by (auto simp: run_events_def)
  then obtain es where es: "run_events es ?s0 = Inr s" "\<forall>k. concat (sent k es) = []" by blast
  have "\<exists>w. ws ! j = Some w \<and> slot_ok [0..<n] s j w \<and> writer_dir w = out_dir" if "j < length ws" for j
  proof -
    obtain v where "ws ! j = Some v" "writer_tx v = j" "writer_dir v = out_dir" using w(1,4) \<open>j < length ws\<close> by auto
    with w \<open>j < length ws\<close> show ?thesis by (auto simp: slot_ok_def)
  qed
  moreover have "cpu_files [0..<n] es j = []" for j
    using es(2) by (simp add: cpu_files_def)
  ultimately have "collector_inv ?s0 out_dir es [0..<n] (\<lambda>_. []) st"
    unfolding collector_inv_def st using w es by simp
  then show ?thesis by blast
qed

section \<open>The files\<close>

text \<open>
  What a task has put into its file so far, under whatever name the file has, and what of a
  processor's bytes is in its files and in the channels to their tasks.
\<close>

definition saved :: "disk \<Rightarrow> wtask \<Rightarrow> bytes" where
  "saved dk t = (case task_pc t of Starting \<Rightarrow> [] | Writing f pos \<Rightarrow> contents dk f | Flushed f \<Rightarrow> contents dk f
     | Finished \<Rightarrow> (case names dk (task_complete t) of None \<Rightarrow> [] | Some f \<Rightarrow> contents dk f)
     | Panicked \<Rightarrow> [])"

definition waiting :: "wtask \<Rightarrow> bytes" where
  "waiting t = (case task_pc t of Starting \<Rightarrow> concat (task_queue t) | Writing f pos \<Rightarrow> concat (task_queue t) | _ \<Rightarrow> [])"

definition cpu_stored :: "nat list \<Rightarrow> system \<Rightarrow> nat \<Rightarrow> bytes" where
  "cpu_stored own s i = concat (map (\<lambda>k. saved (disk_of s) (tasks s ! k) @ waiting (tasks s ! k))
     (filter (\<lambda>k. own ! k = i) [0..<length own]))"

lemma task_ok_stored: "task_ok dk ds t \<Longrightarrow> saved dk t @ waiting t = concat ds"
  by (auto simp: task_ok_def saved_def waiting_def split: task_pc.splits option.splits)

lemma spawned_names:
  assumes "run_events es s0 = Inr s" and "tasks s0 = []"
  shows "map own_names (tasks s) = spawned es"
  using assms(1)
proof (induction es arbitrary: s rule: rev_induct)
  case Nil
  with assms(2) show ?case by (simp add: run_events_def)
next
  case (snoc e es)
  from snoc.prems obtain s1 where s1: "run_events es s0 = Inr s1" "apply_event e s1 = Inr s"
    by (auto simp: run_events_def res_fold_append res_simps)
  note IH = snoc.IH [OF s1(1)]
  show ?case
  proof (cases e)
    case (Sched k)
    have "map own_names (tasks (sched k s1)) = map own_names (tasks s1)"
      by (rule nth_equalityI) (simp_all add: length_sched own_names_sched)
    with IH s1(2) Sched show ?thesis by (simp add: spawned_append)
  next
    case (Send k d)
    with s1(2) have "try_send k d s1 = Inr s" by (auto split: if_splits)
    from try_send_frame [OF this] have "map own_names (tasks s) = map own_names (tasks s1)"
      by (intro nth_equalityI) simp_all
    with IH Send show ?thesis by (simp add: spawned_append)
  next
    case (Close k)
    have "map own_names (tasks (close_task k s1)) = map own_names (tasks s1)"
      using own_names_drop [of "\<lparr>writer_tx = k, file_name = [], writer_dir = [], write_size = 0\<rparr>" s1]
      by - (rule nth_equalityI, simp add: close_task_def, simp add: drop_writer_def close_task_def)
    with IH s1(2) Close show ?thesis by (auto simp: spawned_append split: if_splits)
  next
    case (Spawn f c)
    with IH s1(2) show ?thesis by (auto simp: spawned_append create_async_writer_def own_names_def)
  qed
qed

lemma collector_inv_stored:
  assumes inv: "collector_inv s0 dir es own data st" and s0: "tasks s0 = []" "names_ok (disk_of s0)"
    and names: "distinct (concat (map own_names (tasks (col_sys st))))"
  shows "cpu_stored own (col_sys st) i = data i" and "\<forall>t \<in> set (tasks (col_sys st)). task_pc t \<noteq> Panicked"
proof -
  note I = inv [unfolded collector_inv_def]
  have run: "run_events es s0 = Inr (col_sys st)" using I by blast
  from run_events_ok [OF run _ s0] spawned_names [OF run s0(1)] names
  have ok: "system_ok (\<lambda>k. sent k es) (col_sys st)" by simp
  have "saved (disk_of (col_sys st)) (tasks (col_sys st) ! k) @ waiting (tasks (col_sys st) ! k) = concat (sent k es)"
    if "k < length own" for k
    using system_okD(3) [OF ok, of k] that I by (intro task_ok_stored) simp
  then have "cpu_stored own (col_sys st) i = cpu_files own es i"
    unfolding cpu_stored_def cpu_files_def by (intro arg_cong [where f = concat] map_cong) auto
  with I show "cpu_stored own (col_sys st) i = data i" by simp
  show "\<forall>t \<in> set (tasks (col_sys st)). task_pc t \<noteq> Panicked"
    using system_okD(3) [OF ok] by (fastforce simp: in_set_conv_nth task_ok_def)
qed

section \<open>Properties\<close>


text \<open>A collector on one processor, with files of at most no bytes, for the witnesses.\<close>

definition tiny_run :: "collector_event list" where
  "tiny_run = [Step 0, Call 8 0 [1, 2, 3] 2, Step 0, Call 9 0 [4] 1, Step 0, Step 0]"

lemma tiny_env:
  "\<exists>st. collector_env Debug 1 (\<lambda>i. 7) ''d'' ''0mb'' (disk_of no_tasks) = Inr st \<and> RT st \<and> FILE_SIZE st = 0
     \<and> WT st = Some [Some \<lparr>writer_tx = 0, file_name = ''d7-0.tmp'', writer_dir = ''d'', write_size = 0\<rparr>]
     \<and> col_sys st = \<lparr>tasks = [\<lparr>task_file = ''d7-0.tmp'', task_complete = ''d7-0.data'', task_pc = Starting,
          task_queue = [], task_closed = False\<rparr>], disk_of = disk_of no_tasks\<rparr>"
proof -
  have "dec 0 = ''0''" "to_uppercase ''mb'' = ''MB''" by code_simp+
  then have "set_file_size Debug ''0mb'' (1 * GB) = Inr 0"
    using set_file_size_unit [of "''mb''" MB 0 Debug "1 * GB"] by (simp add: MB_def)
  moreover have "get_file_name 7 0 ''d'' ''tmp'' = ''d7-0.tmp''" by code_simp
  ultimately show ?thesis
    by (simp add: collector_env_def DataWriter_new_def create_async_writer_def Let_def)
qed


text \<open>
  Also: a writer that outgrows the limit within the second in which it was
  made is replaced by one with the same file name, while the first is still writing; that is
  the situation in which the first one's data is lost.
\<close>

theorem rotation_same_second:
  assumes "WT st = Some wts" and "i < length wts" and "wts ! i = Some w" and "RT st"
    and "file_name w = get_file_name time (of_nat i) (writer_dir w) ''tmp''"
    and "DataWriter_write b buff sz (w, col_sys st) = Inr (w', s)" and "FILE_SIZE st < write_size w'"
  shows "\<exists>st' w2. collector_processor b time i buff sz st = Inr (True, st')
     \<and> WT st' = Some (wts[i := Some w2]) \<and> file_name w2 = file_name w \<and> writer_tx w2 \<noteq> writer_tx w"
proof -
  note W = DataWriter_write_Inr [OF assms(6)]
  have "writer_tx w < length (tasks s)" using try_send_frame [OF W(1)] by simp
  then show ?thesis
    using assms W(3) by (auto simp: collector_processor_def index_at_def DataWriter_new_def
        create_async_writer_def Let_def)
qed

theorem rotation_same_second_witness:
  "\<exists>st0 st' w2. collector_env Debug 1 (\<lambda>i. 7) ''d'' ''0mb'' (disk_of no_tasks) = Inr st0
     \<and> collector_processor Debug 7 0 [1] 1 st0 = Inr (True, st')
     \<and> WT st' = Some [Some w2] \<and> file_name w2 = ''d7-0.tmp'' \<and> writer_tx w2 \<noteq> 0"
proof -
  let ?w = "\<lparr>writer_tx = 0, file_name = ''d7-0.tmp'', writer_dir = ''d'', write_size = 0\<rparr> :: DataWriter"
  obtain st0 where st0: "collector_env Debug 1 (\<lambda>i. 7) ''d'' ''0mb'' (disk_of no_tasks) = Inr st0"
    "RT st0" "FILE_SIZE st0 = 0" "WT st0 = Some [Some ?w]"
    "col_sys st0 = \<lparr>tasks = [\<lparr>task_file = ''d7-0.tmp'', task_complete = ''d7-0.data'', task_pc = Starting,
          task_queue = [], task_closed = False\<rparr>], disk_of = disk_of no_tasks\<rparr>"
    using tiny_env by blast
  have "get_file_name 7 0 ''d'' ''tmp'' = ''d7-0.tmp''" by code_simp
  then have fn: "file_name ?w = get_file_name 7 (of_nat 0) (writer_dir ?w) ''tmp''" by simp
  have "\<exists>s. DataWriter_write Debug [1] 1 (?w, col_sys st0) = Inr (?w\<lparr>write_size := 1\<rparr>, s)"
    using st0(5) by (simp add: DataWriter_write_def slice_def try_send_def index_at_def task_live_def uadd_def)
  then obtain s where "DataWriter_write Debug [1] 1 (?w, col_sys st0) = Inr (?w\<lparr>write_size := 1\<rparr>, s)" by blast
  note wr = this
  have "0 < length [Some ?w]" "[Some ?w] ! 0 = Some ?w" "FILE_SIZE st0 < write_size (?w\<lparr>write_size := 1\<rparr>)"
    using st0(3) by simp_all
  from rotation_same_second [OF st0(4) this(1,2) st0(2) fn wr this(3)] obtain st' w2 where
    "collector_processor Debug 7 0 [1] 1 st0 = Inr (True, st')" "WT st' = Some ([Some ?w][0 := Some w2])"
    "file_name w2 = file_name ?w" "writer_tx w2 \<noteq> writer_tx ?w" by blast
  with st0(1) show ?thesis by auto
qed

text \<open>
  Also: a number followed by a unit in either case sets the limit to that many
  gigabytes or megabytes, in either build, as long as it fits 64 bits.
\<close>

theorem set_file_size_exact:
  assumes "to_uppercase u = ''GB'' \<and> unit = GB \<or> to_uppercase u = ''MB'' \<and> unit = MB"
    and "n * unat unit < 2 ^ 64"
  shows "set_file_size b (dec n @ u) old = Inr (of_nat n * unit) \<and> unat (of_nat n * unit) = n * unat unit"
  using assms by (rule set_file_size_unit)

theorem set_file_size_exact_witness:
  "set_file_size Debug ''12Mb'' GB = Inr 0xC00000"
proof -
  have "dec 12 @ ''Mb'' = ''12Mb''" by code_simp
  moreover have "to_uppercase ''Mb'' = ''MB''" by code_simp
  ultimately show ?thesis using set_file_size_exact [of "''Mb''" MB 12 Debug GB]
    by (simp add: MB_def)
qed

end
