(* ===== verification/Wire.thy ===== *)
theory Wire
  imports ExecCounts
begin

text \<open>
  The messages between the tracing server and the machines that decode for it
  (\<open>src/src/server_consumer/interface.rs\<close>, \<open>msg_adapter.rs\<close>, \<open>communator.rs\<close>). A message is
  serialised by the \<open>postcard\<close> crate and sent as one frame of \<open>tokio_util\<close>'s length-delimited
  codec; both are parameters, and what the program relies on is stated as a predicate:
  deserialising gives back what was serialised, and frames arrive in order.
\<close>

section \<open>Messages\<close>

datatype PtProcMsg =
    RegReq u32
  | RegRsp u32
  | UnReg u32
  | Init
  | DataReq bytes
  | DataRsp sparse_table
  | MemReq usize usize
  | MemRsp usize bytes

section \<open>The adapter\<close>

record postcard =
  to_stdvec :: "PtProcMsg \<Rightarrow> bytes option"
  from_bytes :: "bytes \<Rightarrow> PtProcMsg option"

text \<open>Both directions unwrap: a failure of \<open>postcard\<close> is a panic, never an \<open>Err\<close>.\<close>

definition adapter_decode :: "postcard \<Rightarrow> bytes \<Rightarrow> (unit + PtProcMsg) res" where
  "adapter_decode pc data = (case from_bytes pc data of None \<Rightarrow> Inl UnwrapErr | Some r \<Rightarrow> Inr (Inr r))"

definition adapter_encode :: "postcard \<Rightarrow> PtProcMsg \<Rightarrow> (unit + bytes) res" where
  "adapter_encode pc data = (case to_stdvec pc data of None \<Rightarrow> Inl UnwrapErr | Some r \<Rightarrow> Inr (Inr r))"

section \<open>The connection\<close>

text \<open>
  A framed TCP connection with state \<open>'c\<close>: sending a frame succeeds or fails; the next frame
  is a frame, an error, or the end of the stream (\<open>None\<close>).
\<close>

record 'c transport =
  frame_send :: "bytes \<Rightarrow> 'c \<Rightarrow> bool \<times> 'c"
  frame_next :: "'c \<Rightarrow> (unit + bytes) option \<times> 'c"

datatype io_error = SendFailed | EncodeError | OhError | SendError | DecodeError | FrameError | RecvNone | RecvError

definition Communator_send_data ::
    "'c transport \<Rightarrow> postcard \<Rightarrow> PtProcMsg \<Rightarrow> 'c \<Rightarrow> ((io_error + unit) \<times> 'c) res" where
  "Communator_send_data tr pc data conn =
     res_bind (adapter_encode pc data) (\<lambda>enc.
     case enc of
       Inl _ \<Rightarrow> Inr (Inl EncodeError, conn)
     | Inr bs \<Rightarrow> (let (ok, conn') = frame_send tr bs conn in
         Inr (if \<not> ok then Inl SendFailed else Inr (), conn')))"

definition Communator_recv_data ::
    "'c transport \<Rightarrow> postcard \<Rightarrow> 'c \<Rightarrow> ((io_error + PtProcMsg) \<times> 'c) res" where
  "Communator_recv_data tr pc conn =
     (let (s, conn') = frame_next tr conn in
      case s of
        Some (Inr r) \<Rightarrow> res_bind (adapter_decode pc r) (\<lambda>d.
          case d of Inr m \<Rightarrow> Inr (Inr m, conn') | Inl _ \<Rightarrow> Inr (Inl RecvError, conn'))
      | _ \<Rightarrow> Inr (Inl RecvError, conn'))"

text \<open>
  The split halves. The sending half owns a task that takes a frame and a reply channel,
  sends, and replies; it panics when nobody waits for the reply any more, and from then on
  every send fails. \<open>waits\<close>: the caller is still there when the reply comes.
\<close>

record 'c sender =
  task_alive :: bool
  sender_conn :: 'c

definition sender_task :: "'c transport \<Rightarrow> bytes \<Rightarrow> bool option \<Rightarrow> 'c sender \<Rightarrow> (io_error + unit) \<times> 'c sender" where
  "sender_task tr data oh s =
     (let (ok, conn') = frame_send tr data (sender_conn s);
          r = (if \<not> ok then Inl SendFailed else Inr ())
      in case oh of
           None \<Rightarrow> (r, s\<lparr>sender_conn := conn'\<rparr>)
         | Some waits \<Rightarrow> (r, s\<lparr>sender_conn := conn', task_alive := waits\<rparr>))"

definition CommunatorSender_send_data ::
    "'c transport \<Rightarrow> postcard \<Rightarrow> PtProcMsg \<Rightarrow> bool \<Rightarrow> 'c sender \<Rightarrow> ((io_error + unit) \<times> 'c sender) res" where
  "CommunatorSender_send_data tr pc data waits s =
     res_bind (adapter_encode pc data) (\<lambda>enc.
     case enc of
       Inl _ \<Rightarrow> Inr (Inl EncodeError, s)
     | Inr bs \<Rightarrow>
         if \<not> task_alive s then Inr (Inl SendError, s)
         else (let (v, s') = sender_task tr bs (Some waits) s in
           Inr (case v of Inr _ \<Rightarrow> Inr () | Inl e \<Rightarrow> Inl OhError, s')))"

definition CommunatorReceiver_recv_data ::
    "'c transport \<Rightarrow> postcard \<Rightarrow> 'c \<Rightarrow> ((io_error + PtProcMsg) \<times> 'c) res" where
  "CommunatorReceiver_recv_data tr pc conn =
     (let (read_rst, conn') = frame_next tr conn in
      case read_rst of
        None \<Rightarrow> Inr (Inl RecvNone, conn')
      | Some (Inl e) \<Rightarrow> Inr (Inl FrameError, conn')
      | Some (Inr r) \<Rightarrow> res_bind (adapter_decode pc r) (\<lambda>d.
          case d of Inr m \<Rightarrow> Inr (Inr m, conn') | Inl _ \<Rightarrow> Inr (Inl DecodeError, conn')))"

section \<open>What the program relies on\<close>

definition codec_law :: "postcard \<Rightarrow> bool" where
  "codec_law pc \<longleftrightarrow> (\<forall>m bs. to_stdvec pc m = Some bs \<longrightarrow> from_bytes pc bs = Some m)"

text \<open>\<open>flight\<close>: the frames sent and not yet received.\<close>

definition fifo_transport :: "'c transport \<Rightarrow> ('c \<Rightarrow> bytes list) \<Rightarrow> bool" where
  "fifo_transport tr flight \<longleftrightarrow>
     (\<forall>bs c c'. frame_send tr bs c = (True, c') \<longrightarrow> flight c' = flight c @ [bs])
     \<and> (\<forall>bs c c'. frame_send tr bs c = (False, c') \<longrightarrow> flight c' = flight c)
     \<and> (\<forall>c x xs. flight c = x # xs \<longrightarrow> (\<exists>c'. frame_next tr c = (Some (Inr x), c') \<and> flight c' = xs))"

text \<open>Sending a list of messages, and receiving a number of them, each until a failure.\<close>

fun send_all :: "'c transport \<Rightarrow> postcard \<Rightarrow> PtProcMsg list \<Rightarrow> 'c sender \<Rightarrow> ((io_error + unit) list \<times> 'c sender) res" where
  "send_all tr pc [] s = Inr ([], s)"
| "send_all tr pc (m # ms) s =
     res_bind (CommunatorSender_send_data tr pc m True s) (\<lambda>(r, s').
     res_bind (send_all tr pc ms s') (\<lambda>(rs, s''). Inr (r # rs, s'')))"

fun recv_all :: "'c transport \<Rightarrow> postcard \<Rightarrow> nat \<Rightarrow> 'c \<Rightarrow> ((io_error + PtProcMsg) list \<times> 'c) res" where
  "recv_all tr pc 0 c = Inr ([], c)"
| "recv_all tr pc (Suc n) c =
     res_bind (CommunatorReceiver_recv_data tr pc c) (\<lambda>(r, c').
     res_bind (recv_all tr pc n c') (\<lambda>(rs, c''). Inr (r # rs, c'')))"

text \<open>The messages whose sending was reported as a success.\<close>

definition delivered :: "PtProcMsg list \<Rightarrow> (io_error + unit) list \<Rightarrow> PtProcMsg list" where
  "delivered ms rs = map fst (filter (\<lambda>(m, r). r = Inr ()) (zip ms rs))"

lemma send_all_flight:
  assumes "codec_law pc" and "fifo_transport tr flight" and "task_alive s"
    and "send_all tr pc ms s = Inr (rs, s')"
  shows "task_alive s' \<and> (\<exists>fs. flight (sender_conn s') = flight (sender_conn s) @ fs
     \<and> map (from_bytes pc) fs = map Some (delivered ms rs))"
  using assms(3,4)
proof (induction ms arbitrary: s rs)
  case Nil
  then show ?case by (simp add: delivered_def)
next
  case (Cons m ms)
  from Cons.prems(2) obtain r s1 rs1 where r: "CommunatorSender_send_data tr pc m True s = Inr (r, s1)"
    "send_all tr pc ms s1 = Inr (rs1, s')" "rs = r # rs1" by (auto simp: res_simps)
  obtain bs where bs: "to_stdvec pc m = Some bs"
    using r(1) by (cases "to_stdvec pc m") (auto simp: CommunatorSender_send_data_def adapter_encode_def)
  obtain ok c' where f: "frame_send tr bs (sender_conn s) = (ok, c')" by fastforce
  have s1: "s1 = s\<lparr>sender_conn := c', task_alive := True\<rparr>" "r = (if ok then Inr () else Inl OhError)"
    using r(1) bs f Cons.prems(1)
    by (auto simp: CommunatorSender_send_data_def adapter_encode_def sender_task_def)
  have bck: "from_bytes pc bs = Some m" using assms(1) bs by (simp add: codec_law_def)
  have fl: "flight c' = flight (sender_conn s) @ (if ok then [bs] else [])"
    using assms(2) f by (cases ok) (auto simp: fifo_transport_def)
  from Cons.IH [of s1 rs1] s1(1) r(2) obtain fs where fs: "task_alive s'"
    "flight (sender_conn s') = flight c' @ fs" "map (from_bytes pc) fs = map Some (delivered ms rs1)" by auto
  have "delivered (m # ms) rs = (if ok then [m] else []) @ delivered ms rs1"
    by (simp add: delivered_def r(3) s1(2))
  with fs fl bck show ?case by (intro conjI exI [of _ "(if ok then [bs] else []) @ fs"]) auto
qed

lemma recv_all_flight:
  assumes "fifo_transport tr flight" and "flight c = fs" and "map (from_bytes pc) fs = map Some ms"
  shows "\<exists>c'. recv_all tr pc (length fs) c = Inr (map Inr ms, c') \<and> flight c' = []"
  using assms(2,3)
proof (induction fs arbitrary: c ms)
  case Nil
  then show ?case by simp
next
  case (Cons f fs)
  from Cons.prems obtain m ms' where ms: "ms = m # ms'" "from_bytes pc f = Some m"
    "map (from_bytes pc) fs = map Some ms'" by (cases ms) auto
  from assms(1) Cons.prems(1) obtain c1 where c1: "frame_next tr c = (Some (Inr f), c1)" "flight c1 = fs"
    unfolding fifo_transport_def by blast
  from Cons.IH [OF c1(2) ms(3)] c1 ms show ?case
    by (auto simp: CommunatorReceiver_recv_data_def adapter_decode_def)
qed

section \<open>Properties\<close>

text \<open>
  C21: over an initially empty connection, the receiver gets exactly the
  messages whose sending was reported as a success, unchanged and in order.
\<close>

theorem messages_in_order:
  assumes "codec_law pc" and "fifo_transport tr flight"
    and "task_alive s" and "flight (sender_conn s) = []"
    and "send_all tr pc ms s = Inr (rs, s')"
  shows "\<exists>c. recv_all tr pc (length (delivered ms rs)) (sender_conn s') = Inr (map Inr (delivered ms rs), c)
     \<and> flight c = []"
proof -
  from send_all_flight [OF assms(1-3,5)] assms(4) obtain fs where
    fs: "flight (sender_conn s') = fs" "map (from_bytes pc) fs = map Some (delivered ms rs)" by auto
  then have "length fs = length (delivered ms rs)" by (metis length_map)
  with recv_all_flight [OF assms(2) fs] show ?thesis by metis
qed

text \<open>A list of frames of at most four bytes, and a codec for two messages, for the witness.\<close>

definition list_transport :: "bytes list transport" where
  "list_transport = \<lparr>frame_send = (\<lambda>bs c. if length bs \<le> 4 then (True, c @ [bs]) else (False, c)),
     frame_next = (\<lambda>c. case c of [] \<Rightarrow> (None, []) | x # xs \<Rightarrow> (Some (Inr x), xs))\<rparr>"

definition data_codec :: postcard where
  "data_codec = \<lparr>to_stdvec = (\<lambda>m. case m of Init \<Rightarrow> Some [] | DataReq d \<Rightarrow> Some (1 # d) | _ \<Rightarrow> None),
     from_bytes = (\<lambda>bs. case bs of [] \<Rightarrow> Some Init | x # xs \<Rightarrow> Some (DataReq xs))\<rparr>"

theorem messages_in_order_witness:
  "\<exists>rs s' c. send_all list_transport data_codec [DataReq [5], DataReq [1, 2, 3, 4], Init]
       \<lparr>task_alive = True, sender_conn = []\<rparr> = Inr (rs, s')
     \<and> recv_all list_transport data_codec 2 (sender_conn s') = Inr ([Inr (DataReq [5]), Inr Init], c)"
proof -
  let ?ms = "[DataReq [5], DataReq [1, 2, 3, 4], Init]" and ?s = "\<lparr>task_alive = True, sender_conn = []\<rparr>"
  have law: "codec_law data_codec"
    by (auto simp: codec_law_def data_codec_def split: PtProcMsg.splits)
  have fifo: "fifo_transport list_transport (\<lambda>c. c)"
    by (auto simp: fifo_transport_def list_transport_def split: if_splits)
  obtain s' where send: "send_all list_transport data_codec ?ms ?s = Inr ([Inr (), Inl OhError, Inr ()], s')"
    by (simp add: CommunatorSender_send_data_def adapter_encode_def data_codec_def sender_task_def list_transport_def)
  have "delivered ?ms [Inr (), Inl OhError, Inr ()] = [DataReq [5], Init]" by (simp add: delivered_def)
  with messages_in_order [OF law fifo _ _ send] send show ?thesis by (auto simp: numeral_2_eq_2)
qed

end
