(* ===== verification/ClientAgent.thy ===== *)
theory ClientAgent
  imports Wire PtCtrl
begin

text \<open>
  The server's side of one decoding client (\<open>src/src/server_consumer/client_agent.rs\<close>): a
  receiving task that registers the client, answers its memory requests and adds up the
  counts it reports, a sending task that forwards pieces of the trace, and the operations the
  pool calls.

  The two tasks and the pool run concurrently; the model is a step relation with one step per
  received message, forwarded piece or call. \<open>ok\<close> in a step is whether the connection took
  the message that was sent.
\<close>

section \<open>State\<close>

datatype ClientState = Connected | Activate | Working | InActivate | DisConnect

text \<open>The states in the order in which a client goes through them.\<close>

primrec state_rank :: "ClientState \<Rightarrow> nat" where
  "state_rank Connected = 0"
| "state_rank Activate = 1"
| "state_rank Working = 2"
| "state_rank InActivate = 3"
| "state_rank DisConnect = 4"

lemma state_rank_inj: "state_rank s = state_rank t \<Longrightarrow> s = t"
  by (cases s; cases t) simp_all

instantiation ClientState :: linorder
begin

definition less_eq_ClientState :: "ClientState \<Rightarrow> ClientState \<Rightarrow> bool" where
  "less_eq_ClientState s t \<longleftrightarrow> state_rank s \<le> state_rank t"

definition less_ClientState :: "ClientState \<Rightarrow> ClientState \<Rightarrow> bool" where
  "less_ClientState s t \<longleftrightarrow> state_rank s < state_rank t"

instance
  by standard (auto simp: less_eq_ClientState_def less_ClientState_def intro: state_rank_inj)

end

text \<open>
  \<open>h_alive\<close> and \<open>h2_alive\<close>: the tasks are running; \<open>handles\<close>, \<open>tx_proc_data\<close> and \<open>has_rst\<close>:
  the fields that \<open>take\<close> empties are still there; \<open>out_msgs\<close>: what went out on the connection.
\<close>

record agent =
  ag_state :: ClientState
  h_alive :: bool
  h2_alive :: bool
  handles :: bool
  tx_proc_data :: bool
  task_chan :: "bytes list"
  has_rst :: bool
  rst_data :: page_table
  out_msgs :: "PtProcMsg list"

definition ClientAgent_new :: agent where
  "ClientAgent_new = \<lparr>ag_state = Connected, h_alive = True, h2_alive = True, handles = True,
     tx_proc_data = True, task_chan = [], has_rst = True, rst_data = [], out_msgs = []\<rparr>"

section \<open>Operations\<close>

definition set_state :: "ClientState \<Rightarrow> agent \<Rightarrow> agent" where
  "set_state new_state a = a\<lparr>ag_state := new_state\<rparr>"

text \<open>
  \<open>set_state\<close> is an \<open>async fn\<close>: calling it makes a future, and a future that is not awaited
  never runs. \<open>unawaited f\<close> is such a call.
\<close>

definition unawaited :: "(agent \<Rightarrow> agent) \<Rightarrow> agent \<Rightarrow> agent" where
  "unawaited f a = a"

text \<open>
  \<open>OpenProcess\<close> and \<open>ReadProcessMemory\<close> are parameters: the second gives the number of bytes
  read and what it stored at the start of the buffer.
\<close>

definition read_memory ::
    "(u32 \<Rightarrow> u64) \<Rightarrow> u64 \<Rightarrow> (u64 \<Rightarrow> u64 \<Rightarrow> usize \<Rightarrow> usize \<times> bytes)
     \<Rightarrow> u32 \<Rightarrow> u64 \<Rightarrow> usize \<Rightarrow> bytes \<Rightarrow> (usize \<times> bytes) res" where
  "read_memory open_process INVALID_HANDLE_VALUE rpm pid addr len ouput_buff =
     (let h = open_process pid in
      if h = INVALID_HANDLE_VALUE then Inr (0, ouput_buff)
      else let (rst_len, stored) = rpm h addr len in
        res_bind (store stored ouput_buff) (\<lambda>buf. Inr (rst_len, buf)))"

definition agent_send :: "PtProcMsg \<Rightarrow> bool \<Rightarrow> agent \<Rightarrow> agent" where
  "agent_send m ok a = (if ok then a\<lparr>out_msgs := out_msgs a @ [m]\<rparr> else a)"

text \<open>
  One message in the receiving task; \<open>rm\<close> is \<open>read_memory\<close> with the process chosen. The
  answer is whether the loop goes on.
\<close>

fun handle_msg ::
    "build \<Rightarrow> (u64 \<Rightarrow> usize \<Rightarrow> bytes \<Rightarrow> (usize \<times> bytes) res) \<Rightarrow> PtProcMsg \<Rightarrow> bool \<Rightarrow> agent
     \<Rightarrow> (bool \<times> agent) res" where
  "handle_msg b rm (RegReq cid) ok a = Inr (True, agent_send (RegRsp cid) ok (set_state Activate a))"
| "handle_msg b rm (MemReq addr len) ok a =
     res_bind (rm addr len (replicate 8192 0)) (\<lambda>(n, output_buff).
     Inr (True, agent_send (MemRsp addr output_buff) ok a))"
| "handle_msg b rm (DataRsp data) ok a =
     res_bind (merge_sparse b data (rst_data a)) (\<lambda>t. Inr (True, a\<lparr>rst_data := t\<rparr>))"
| "handle_msg b rm _ ok a = Inr (False, a)"

definition end_recv :: "agent \<Rightarrow> agent" where
  "end_recv a = unawaited (set_state DisConnect) (a\<lparr>h_alive := False\<rparr>)"

definition end_send :: "agent \<Rightarrow> agent" where
  "end_send a = unawaited (set_state DisConnect) (a\<lparr>h2_alive := False\<rparr>)"

definition wait_stop :: "agent \<Rightarrow> agent res" where
  "wait_stop a = (if handles a then Inr (a\<lparr>tx_proc_data := False, has_rst := False, handles := False\<rparr>)
                  else Inl UnwrapNone)"

definition agent_disconnect :: "agent \<Rightarrow> agent res" where
  "agent_disconnect a = (if handles a
     then Inr (unawaited (set_state DisConnect) (a\<lparr>h_alive := False, h2_alive := False, handles := False\<rparr>))
     else Inl UnwrapNone)"

definition is_disconnected :: "agent \<Rightarrow> bool" where
  "is_disconnected a \<longleftrightarrow> ag_state a = DisConnect"

definition has_result :: "agent \<Rightarrow> bool res" where
  "has_result a = (if has_rst a then Inr (rst_data a = []) else Inl UnwrapNone)"

definition fetch_result :: "agent \<Rightarrow> (page_table \<times> agent) res" where
  "fetch_result a = (if has_rst a then Inr (rst_data a, a\<lparr>rst_data := []\<rparr>) else Inl UnwrapNone)"

definition is_full :: "agent \<Rightarrow> bool res" where
  "is_full a = (if ag_state a \<noteq> Activate then Inr True
     else if tx_proc_data a then Inr (length (task_chan a) \<ge> 1024) else Inl UnwrapNone)"

text \<open>\<open>None\<close>: the channel is full and the caller waits.\<close>

definition publish_task :: "bytes \<Rightarrow> agent \<Rightarrow> agent res option" where
  "publish_task d a =
     (if \<not> tx_proc_data a then Some (Inl UnwrapNone)
      else if \<not> h2_alive a then Some (Inl UnwrapErr)
      else if length (task_chan a) \<ge> 1024 then None
      else Some (Inr (a\<lparr>task_chan := task_chan a @ [d]\<rparr>)))"

section \<open>Steps\<close>

datatype agent_event =
    Recv PtProcMsg
  | RecvFails
  | RecvPanics
  | SendTask bytes
  | SendFails bytes
  | SendEnds
  | Publish bytes
  | Fetch page_table
  | Abort

text \<open>
  A panic in the receiving task ends that task only. It may leave the table half updated; the
  model lets it leave any table.
\<close>

inductive agent_step ::
    "build \<Rightarrow> (u64 \<Rightarrow> usize \<Rightarrow> bytes \<Rightarrow> (usize \<times> bytes) res) \<Rightarrow> agent \<Rightarrow> agent_event \<Rightarrow> agent \<Rightarrow> bool"
  for b rm where
  recv: "h_alive a \<Longrightarrow> handle_msg b rm m ok a = Inr (True, a') \<Longrightarrow> agent_step b rm a (Recv m) a'"
| recv_other: "h_alive a \<Longrightarrow> handle_msg b rm m ok a = Inr (False, a')
    \<Longrightarrow> agent_step b rm a (Recv m) (end_recv a')"
| recv_fails: "h_alive a \<Longrightarrow> agent_step b rm a RecvFails (end_recv a)"
| recv_panics: "h_alive a \<Longrightarrow> handle_msg b rm m ok a = Inl e
    \<Longrightarrow> agent_step b rm a RecvPanics (a\<lparr>h_alive := False, rst_data := t\<rparr>)"
| send_task: "h2_alive a \<Longrightarrow> task_chan a = d # ds
    \<Longrightarrow> agent_step b rm a (SendTask d) (agent_send (DataReq d) True (a\<lparr>task_chan := ds\<rparr>))"
| send_fails: "h2_alive a \<Longrightarrow> task_chan a = d # ds
    \<Longrightarrow> agent_step b rm a (SendFails d) (end_send (a\<lparr>task_chan := ds\<rparr>))"
| send_ends: "h2_alive a \<Longrightarrow> task_chan a = [] \<Longrightarrow> \<not> tx_proc_data a \<Longrightarrow> agent_step b rm a SendEnds (end_send a)"
| publish: "publish_task d a = Some (Inr a') \<Longrightarrow> agent_step b rm a (Publish d) a'"
| fetch: "fetch_result a = Inr (t, a') \<Longrightarrow> agent_step b rm a (Fetch t) a'"
| abort: "agent_disconnect a = Inr a' \<Longrightarrow> agent_step b rm a Abort a'"

inductive agent_run ::
    "build \<Rightarrow> (u64 \<Rightarrow> usize \<Rightarrow> bytes \<Rightarrow> (usize \<times> bytes) res) \<Rightarrow> agent_event list \<Rightarrow> agent \<Rightarrow> bool"
  for b rm where
  start: "agent_run b rm [] ClientAgent_new"
| step: "agent_run b rm es a \<Longrightarrow> agent_step b rm a e a' \<Longrightarrow> agent_run b rm (es @ [e]) a'"

inductive_cases agent_stepE: "agent_step b rm a e a'"

inductive_simps agent_step_simps [simp]:
  "agent_step b rm a (Recv m) a'" "agent_step b rm a RecvFails a'" "agent_step b rm a (SendTask d) a'"
  "agent_step b rm a (SendFails d) a'" "agent_step b rm a (Publish d) a'" "agent_step b rm a (Fetch t) a'"

fun_cases handle_msg_TrueE: "handle_msg b rm m ok a = Inr (True, a')"
fun_cases handle_msg_FalseE: "handle_msg b rm m ok a = Inr (False, a')"

lemmas agent_defs = set_state_def unawaited_def agent_send_def end_recv_def end_send_def

definition data_reqs :: "PtProcMsg list \<Rightarrow> bytes list" where
  "data_reqs ms = concat (map (\<lambda>m. case m of DataReq d \<Rightarrow> [d] | _ \<Rightarrow> []) ms)"

lemma data_reqs_simps [simp]:
  "data_reqs [] = []" "data_reqs (ms @ [DataReq d]) = data_reqs ms @ [d]"
  "data_reqs (ms @ [RegRsp i]) = data_reqs ms" "data_reqs (ms @ [MemRsp a d]) = data_reqs ms"
  by (simp_all add: data_reqs_def)

lemma handle_msg_frame:
  assumes "handle_msg b rm m ok a = Inr (go, a')"
  shows "task_chan a' = task_chan a" and "has_rst a' = has_rst a" and "handles a' = handles a"
    and "tx_proc_data a' = tx_proc_data a" and "ag_state a' \<in> {ag_state a, Activate}"
    and "h2_alive a' = h2_alive a"
    and "ag_state a' = Activate \<Longrightarrow> ag_state a = Activate \<or> (\<exists>cid. m = RegReq cid)"
    and "data_reqs (out_msgs a') = data_reqs (out_msgs a)"
proof -
  have "task_chan a' = task_chan a \<and> has_rst a' = has_rst a \<and> handles a' = handles a
    \<and> tx_proc_data a' = tx_proc_data a \<and> ag_state a' \<in> {ag_state a, Activate} \<and> h2_alive a' = h2_alive a
    \<and> (ag_state a' = Activate \<longrightarrow> ag_state a = Activate \<or> (\<exists>cid. m = RegReq cid))
    \<and> data_reqs (out_msgs a') = data_reqs (out_msgs a)"
    using assms
    by (cases m) (auto simp: agent_defs res_bind_Inr_iff split: prod.splits if_splits)
  then show "task_chan a' = task_chan a" "has_rst a' = has_rst a" "handles a' = handles a"
    "tx_proc_data a' = tx_proc_data a" "ag_state a' \<in> {ag_state a, Activate}" "h2_alive a' = h2_alive a"
    "ag_state a' = Activate \<Longrightarrow> ag_state a = Activate \<or> (\<exists>cid. m = RegReq cid)"
    "data_reqs (out_msgs a') = data_reqs (out_msgs a)" by auto
qed

lemma unknown_msg:
  "handle_msg b rm m ok a = Inr (False, a') \<Longrightarrow> a' = a \<and> (\<forall>w. m \<noteq> DataRsp w)"
  by (cases m) (auto simp: res_simps)

section \<open>The state is never \<open>DisConnect\<close>\<close>

lemma agent_never_disconnected:
  assumes "agent_run b rm es a"
  shows "ag_state a \<in> {Connected, Activate} \<and> (ag_state a = Activate \<longrightarrow> (\<exists>cid. Recv (RegReq cid) \<in> set es))"
  using assms
proof (induction rule: agent_run.induct)
  case start
  then show ?case by (simp add: ClientAgent_new_def)
next
  case (step es a e a')
  from step.hyps(2) step.IH show ?case
    by (cases rule: agent_stepE)
      (auto simp: agent_defs publish_task_def fetch_result_def agent_disconnect_def
        dest: handle_msg_frame(5,7) unknown_msg split: if_splits)
qed

text \<open>A client never falls back to an earlier state.\<close>

lemma agent_state_mono:
  assumes "agent_run b rm es a" and "agent_step b rm a e a'"
  shows "ag_state a \<le> ag_state a'"
proof -
  have "ag_state a' \<in> {ag_state a, Activate}"
    using assms(2)
    by (cases rule: agent_stepE)
      (auto simp: agent_defs publish_task_def fetch_result_def agent_disconnect_def
        dest: handle_msg_frame(5) unknown_msg split: if_splits)
  moreover have "ag_state a \<le> Activate"
    using agent_never_disconnected [OF assms(1)] by (auto simp: less_eq_ClientState_def)
  ultimately show ?thesis by auto
qed

section \<open>No piece and no count is lost\<close>

definition published :: "agent_event list \<Rightarrow> bytes list" where
  "published es = concat (map (\<lambda>e. case e of Publish d \<Rightarrow> [d] | _ \<Rightarrow> []) es)"

definition forwarded :: "agent_event list \<Rightarrow> bytes list" where
  "forwarded es = concat (map (\<lambda>e. case e of SendTask d \<Rightarrow> [d] | _ \<Rightarrow> []) es)"

definition taken :: "agent_event list \<Rightarrow> bytes list" where
  "taken es = concat (map (\<lambda>e. case e of SendTask d \<Rightarrow> [d] | SendFails d \<Rightarrow> [d] | _ \<Rightarrow> []) es)"

lemma agent_pieces:
  assumes "agent_run b rm es a"
  shows "published es = taken es @ task_chan a \<and> data_reqs (out_msgs a) = forwarded es"
  using assms
proof (induction rule: agent_run.induct)
  case start
  then show ?case by (simp add: published_def taken_def forwarded_def ClientAgent_new_def)
next
  case (step es a e a')
  from step.hyps(2) step.IH show ?case
    by (cases rule: agent_stepE)
      (auto simp: published_def taken_def forwarded_def agent_defs publish_task_def fetch_result_def
        agent_disconnect_def handle_msg_frame(1,8) dest: unknown_msg split: if_splits)
qed

text \<open>The counts reported by the client, and the tables the pool has fetched.\<close>

definition reported :: "agent_event list \<Rightarrow> sparse_table list" where
  "reported es = concat (map (\<lambda>e. case e of Recv (DataRsp w) \<Rightarrow> [w] | _ \<Rightarrow> []) es)"

definition fetched :: "agent_event list \<Rightarrow> page_table list" where
  "fetched es = concat (map (\<lambda>e. case e of Fetch t \<Rightarrow> [t] | _ \<Rightarrow> []) es)"

lemma reported_append: "reported (es @ fs) = reported es @ reported fs"
  by (simp add: reported_def)

lemma fetched_append: "fetched (es @ fs) = fetched es @ fetched fs"
  by (simp add: fetched_def)

lemma fetched_single [simp]:
  "fetched [Fetch t] = [t]" "fetched [Recv m] = []" "fetched [RecvFails] = []" "fetched [SendTask d] = []"
  "fetched [SendFails d] = []" "fetched [SendEnds] = []" "fetched [Publish d] = []" "fetched [Abort] = []"
  by (simp_all add: fetched_def)

lemma reported_single [simp]:
  "reported [Recv (DataRsp w)] = [w]" "reported [RecvFails] = []" "reported [SendTask d] = []"
  "reported [SendFails d] = []" "reported [SendEnds] = []" "reported [Publish d] = []"
  "reported [Fetch t] = []" "reported [Abort] = []"
  by (simp_all add: reported_def)

lemma handle_msg_counts:
  assumes "handle_msg b rm m ok a = Inr (go, a')" and "wf_table (rst_data a)" and "\<forall>w \<in> set (reported [Recv m]). wf_sparse w"
  shows "wf_table (rst_data a')
    \<and> count_at (rst_data a') x = count_at (rst_data a) x + (\<Sum>w \<leftarrow> reported [Recv m]. sparse_count_at w x)"
proof (cases "\<exists>w. m = DataRsp w")
  case True
  then obtain w where m: "m = DataRsp w" by blast
  with assms(1) obtain t where t: "merge_sparse b w (rst_data a) = Inr t" "a' = a\<lparr>rst_data := t\<rparr>"
    by (auto simp: res_bind_Inr_iff)
  from merge_sparse_Inr [OF t(1) _ assms(2)] assms(3) m t(2) show ?thesis by simp
next
  case False
  then have "reported [Recv m] = []" by (cases m) (auto simp: reported_def)
  moreover have "rst_data a' = rst_data a"
    using assms(1) False by (cases m) (auto simp: agent_defs res_bind_Inr_iff)
  ultimately show ?thesis using assms(2) by simp
qed

lemma agent_counts:
  assumes "agent_run b rm es a" and "RecvPanics \<notin> set es" and "\<forall>w \<in> set (reported es). wf_sparse w"
  shows "wf_table (rst_data a) \<and> (\<Sum>t \<leftarrow> fetched es. count_at t x) + count_at (rst_data a) x
    = (\<Sum>w \<leftarrow> reported es. sparse_count_at w x)"
  using assms
proof (induction rule: agent_run.induct)
  case start
  then show ?case by (simp add: fetched_def reported_def ClientAgent_new_def)
next
  case (step es a e a')
  then have IH: "wf_table (rst_data a)" "(\<Sum>t \<leftarrow> fetched es. count_at t x) + count_at (rst_data a) x
    = (\<Sum>w \<leftarrow> reported es. sparse_count_at w x)"
    and wf: "\<forall>w \<in> set (reported [e]). wf_sparse w" by (auto simp: reported_append)
  from step.hyps(2) show ?case
  proof (cases rule: agent_step.cases)
    case (recv m ok)
    from handle_msg_counts [OF recv(3) IH(1)] wf IH(2) recv(1) show ?thesis
      by (simp add: fetched_append reported_append add.assoc [symmetric])
  next
    case (recv_other m ok a1)
    from handle_msg_counts [OF recv_other(4) IH(1)] wf IH(2) recv_other(1,2) show ?thesis
      by (simp add: fetched_append reported_append add.assoc [symmetric] agent_defs)
  next
    case (recv_panics m ok f t)
    with step.prems show ?thesis by simp
  next
    case (fetch t)
    with IH show ?thesis
      by (auto simp: fetch_result_def fetched_append reported_append split: if_splits)
  qed (use IH in \<open>auto simp: agent_defs publish_task_def agent_disconnect_def fetched_append reported_append
        split: if_splits\<close>)
qed

section \<open>Properties\<close>

text \<open>
  C15: for every run of a client's agent without a panic, and at every
  address, the counts the pool has fetched and the count still held add up to the counts the
  client reported.
\<close>

theorem agent_counts_exact:
  assumes "agent_run b rm es a" and "RecvPanics \<notin> set es" and "\<forall>w \<in> set (reported es). wf_sparse w"
  shows "(\<Sum>t \<leftarrow> fetched es. count_at t x) + count_at (rst_data a) x
    = (\<Sum>w \<leftarrow> reported es. sparse_count_at w x)"
  using agent_counts [OF assms] by blast

text \<open>
  C26: the pieces published to an agent are the pieces its sending task
  has taken, in order, followed by those still waiting; the data requests that went out on the
  connection are the taken ones that did not fail, each once.
\<close>

theorem agent_pieces_in_order:
  assumes "agent_run b rm es a"
  shows "published es = taken es @ task_chan a \<and> data_reqs (out_msgs a) = forwarded es"
  using assms by (rule agent_pieces)

text \<open>
  Also: an agent is only ever connected or active, and active only after its client
  registered; in particular \<open>is_disconnected\<close> is false in every reachable state, also after
  both tasks have ended: none of the three calls of \<open>set_state\<close> is awaited.
\<close>

theorem agent_states:
  assumes "agent_run b rm es a"
  shows "ag_state a \<in> {Connected, Activate} \<and> \<not> is_disconnected a
     \<and> (ag_state a = Activate \<longrightarrow> (\<exists>cid. Recv (RegReq cid) \<in> set es))"
  using agent_never_disconnected [OF assms] by (auto simp: is_disconnected_def)

text \<open>
  A run for the witnesses: a client registers, gets a piece, reports two counts, the pool
  fetches them, and the connection ends.
\<close>

definition no_memory :: "u64 \<Rightarrow> usize \<Rightarrow> bytes \<Rightarrow> (usize \<times> bytes) res" where
  "no_memory addr len buf = Inr (0, buf)"

definition two_counts :: sparse_table where
  "two_counts = [(0x1000, [(4, \<lparr>exec_cnt = 2\<rparr>)])]"

lemma two_counts_wf: "wf_sparse two_counts"
  by (simp add: two_counts_def wf_sparse_def page_of_def)

lemma demo_run:
  "\<exists>t a. agent_run Debug no_memory
     [Recv (RegReq 7), Publish [9], SendTask [9], Recv (DataRsp two_counts), Fetch t, RecvFails] a
     \<and> rst_data a = [] \<and> task_chan a = [] \<and> out_msgs a = [RegRsp 7, DataReq [9]] \<and> \<not> h_alive a"
proof -
  let ?a1 = "ClientAgent_new\<lparr>ag_state := Activate, out_msgs := [RegRsp 7]\<rparr>"
  let ?a2 = "?a1\<lparr>task_chan := [[9]]\<rparr>" and ?a3 = "?a1\<lparr>out_msgs := [RegRsp 7, DataReq [9]]\<rparr>"
  have "\<exists>u. merge_sparse Debug two_counts [] = Inr u"
    using two_counts_wf by (simp add: two_counts_def merge_sparse_def merge_sparse_page_def add_sparse_def
        bump_def index_at_def update_at_def uadd_def)
  then obtain u where u: "merge_sparse Debug two_counts [] = Inr u" by blast
  have s1: "agent_step Debug no_memory ClientAgent_new (Recv (RegReq 7)) ?a1"
    by (simp add: agent_defs ClientAgent_new_def) (intro exI [of _ True], simp)
  have s2: "agent_step Debug no_memory ?a1 (Publish [9]) ?a2"
    by (simp add: publish_task_def ClientAgent_new_def)
  have s3: "agent_step Debug no_memory ?a2 (SendTask [9]) ?a3"
    by (simp add: agent_defs ClientAgent_new_def)
  have s4: "agent_step Debug no_memory ?a3 (Recv (DataRsp two_counts)) (?a3\<lparr>rst_data := u\<rparr>)"
    using u by (simp add: ClientAgent_new_def)
  have s5: "agent_step Debug no_memory (?a3\<lparr>rst_data := u\<rparr>) (Fetch u) ?a3"
    by (simp add: fetch_result_def ClientAgent_new_def)
  have s6: "agent_step Debug no_memory ?a3 RecvFails (end_recv ?a3)"
    by (simp add: ClientAgent_new_def)
  note run = agent_run.step [OF agent_run.step [OF agent_run.step [OF agent_run.step
      [OF agent_run.step [OF agent_run.step [OF agent_run.start s1] s2] s3] s4] s5] s6]
  then show ?thesis by (intro exI [of _ u] exI [of _ "end_recv ?a3"]) (simp add: end_recv_def unawaited_def ClientAgent_new_def)
qed

theorem agent_counts_exact_witness:
  "\<exists>t a. agent_run Debug no_memory
     [Recv (RegReq 7), Publish [9], SendTask [9], Recv (DataRsp two_counts), Fetch t, RecvFails] a
     \<and> count_at t 0x1004 = 2"
proof -
  obtain t a where run: "agent_run Debug no_memory
     [Recv (RegReq 7), Publish [9], SendTask [9], Recv (DataRsp two_counts), Fetch t, RecvFails] a"
    "rst_data a = []" using demo_run by blast
  have r: "reported [Recv (RegReq 7), Publish [9], SendTask [9], Recv (DataRsp two_counts), Fetch t, RecvFails] = [two_counts]"
    "fetched [Recv (RegReq 7), Publish [9], SendTask [9], Recv (DataRsp two_counts), Fetch t, RecvFails] = [t]"
    by (simp_all add: reported_def fetched_def)
  have "sparse_count_at two_counts 0x1004 = 2"
    by (simp add: sparse_count_at_def two_counts_def page_of_def page_off_def)
  with agent_counts_exact [OF run(1), of "0x1004"] run show ?thesis
    unfolding r by (auto simp: two_counts_wf)
qed

theorem agent_pieces_in_order_witness:
  "\<exists>t a. agent_run Debug no_memory
     [Recv (RegReq 7), Publish [9], SendTask [9], Recv (DataRsp two_counts), Fetch t, RecvFails] a
     \<and> data_reqs (out_msgs a) = [[9]]"
  using demo_run agent_pieces_in_order by (fastforce simp: forwarded_def)

theorem agent_states_witness:
  "\<exists>t a. agent_run Debug no_memory
     [Recv (RegReq 7), Publish [9], SendTask [9], Recv (DataRsp two_counts), Fetch t, RecvFails] a
     \<and> \<not> h_alive a \<and> \<not> is_disconnected a"
  using demo_run agent_states by blast

text \<open>
  Also: the length of a memory request comes from the client and the buffer of
  the reply has 8192 bytes; a request for more that the system can satisfy writes past it.
\<close>

theorem mem_req_overrun:
  assumes "open_process pid \<noteq> inv_h" and "rpm (open_process pid) addr len = (len, stored)"
    and "length stored = unat len" and "8192 < unat len"
  shows "handle_msg b (read_memory open_process inv_h rpm pid) (MemReq addr len) ok a = Inl BufferOverrun"
  using assms by (simp add: read_memory_def store_def Let_def)

theorem mem_req_overrun_witness:
  "handle_msg Release (read_memory (\<lambda>_. 1) (- 1) (\<lambda>h a n. (n, replicate (unat n) 0)) 5) (MemReq 0x1000 8193) True
     ClientAgent_new = Inl BufferOverrun"
proof (rule mem_req_overrun)
  show "length (replicate (unat (8193 :: usize)) (0 :: u8)) = unat (8193 :: usize)" by (rule length_replicate)
qed simp_all

lemma read_memory_length:
  "read_memory open_process inv_h rpm pid addr len buf = Inr (n, buf') \<Longrightarrow> length buf' = length buf"
  by (auto simp: read_memory_def store_def Let_def split: if_splits prod.splits)

text \<open>
  Also: every memory reply that went out carries 8192 bytes, whatever length was
  asked for and whether the memory could be read or not.
\<close>

theorem mem_replies_full:
  assumes "agent_run b (read_memory open_process inv_h rpm pid) es a" and "MemRsp addr d \<in> set (out_msgs a)"
  shows "length d = 8192"
  using assms
proof (induction rule: agent_run.induct)
  case start
  then show ?case by (simp add: ClientAgent_new_def)
next
  case (step es a e a')
  have msg: "MemRsp addr d \<in> set (out_msgs a') \<Longrightarrow> MemRsp addr d \<in> set (out_msgs a) \<or> length d = 8192"
    if "handle_msg b (read_memory open_process inv_h rpm pid) m ok a = Inr (go, a')" for m ok go a'
    using that
    by (cases m) (auto simp: agent_defs res_bind_Inr_iff dest!: read_memory_length split: if_splits)
  from step.hyps(2) step.IH step.prems show ?case
    by (cases rule: agent_stepE)
      (auto simp: agent_defs publish_task_def fetch_result_def agent_disconnect_def
        dest: msg unknown_msg split: if_splits)
qed

theorem mem_replies_full_witness:
  "\<exists>a. agent_run Debug (read_memory (\<lambda>_. 0) 0 (\<lambda>h a n. (n, [])) 5) [Recv (MemReq 0x1000 16)] a
     \<and> out_msgs a = [MemRsp 0x1000 (replicate 8192 0)]"
proof -
  let ?rm = "read_memory (\<lambda>_. 0) 0 (\<lambda>h a n. (n, [])) 5"
  let ?a = "ClientAgent_new\<lparr>out_msgs := [MemRsp 0x1000 (replicate 8192 0)]\<rparr>"
  have "handle_msg Debug ?rm (MemReq 0x1000 16) True ClientAgent_new = Inr (True, ?a)"
    by (simp add: read_memory_def agent_defs ClientAgent_new_def)
  then have "agent_step Debug ?rm ClientAgent_new (Recv (MemReq 0x1000 16)) ?a"
    by (intro agent_step.recv) (simp_all add: ClientAgent_new_def)
  from agent_run.step [OF agent_run.start this] have run: "agent_run Debug ?rm [Recv (MemReq 0x1000 16)] ?a" by simp
  then have "\<forall>d. MemRsp 0x1000 d \<in> set (out_msgs ?a) \<longrightarrow> length d = 8192" using mem_replies_full by blast
  with run show ?thesis by (intro exI [of _ ?a]) simp
qed

end
