(* ===== verification/ClientPool.thy ===== *)
theory ClientPool
  imports ClientAgent
begin

text \<open>
  The pool of decoding clients (\<open>src/src/server_consumer/client_pool.rs\<close>): it accepts
  connections, hands each piece of a trace to a client, and collects the counts.

  An operation of the pool is one step of the model, except that the agents' tasks may run
  between the two locks \<open>get_result\<close> takes of one agent: what they do there is the argument
  \<open>between\<close>.
\<close>

section \<open>State\<close>

record pool =
  clients :: "agent option list"
  stop_flag :: bool
  accepting :: bool
  pool_handle :: bool

text \<open>\<open>bind\<close> fails when the address is in use; the failure reaches the caller as a panic.\<close>

definition start_server :: "bool \<Rightarrow> pool res" where
  "start_server bound = (if bound
     then Inr \<lparr>clients = [], stop_flag = False, accepting = True, pool_handle = True\<rparr>
     else Inl UnwrapErr)"

section \<open>Operations\<close>

definition accept :: "pool \<Rightarrow> pool" where
  "accept p = (if accepting p
     then let cs = clients p @ [Some ClientAgent_new] in
       p\<lparr>clients := cs, accepting := \<not> (length cs > 32 \<or> stop_flag p)\<rparr>
     else p)"

fun disconnect_all :: "agent option list \<Rightarrow> agent option list res" where
  "disconnect_all [] = Inr []"
| "disconnect_all (None # cs) = res_bind (disconnect_all cs) (\<lambda>cs'. Inr (None # cs'))"
| "disconnect_all (Some a # cs) =
     res_bind (agent_disconnect a) (\<lambda>_. res_bind (disconnect_all cs) (\<lambda>cs'. Inr (None # cs')))"

definition pool_stop :: "pool \<Rightarrow> pool res" where
  "pool_stop p = (if \<not> pool_handle p then Inl UnwrapNone
     else res_bind (disconnect_all (clients p)) (\<lambda>cs.
       Inr (p\<lparr>stop_flag := True, accepting := False, pool_handle := False, clients := cs\<rparr>)))"

text \<open>\<open>None\<close>: the accepting task is still running and \<open>wait_stop\<close> waits for it.\<close>

definition pool_wait_stop :: "pool \<Rightarrow> pool res option" where
  "pool_wait_stop p = (if \<not> pool_handle p then Some (Inl UnwrapNone)
     else if accepting p then None
     else Some (Inr (p\<lparr>pool_handle := False\<rparr>)))"

text \<open>The index of the first client that is not full, or else of slot 0.\<close>

fun first_free :: "agent option list \<Rightarrow> nat \<Rightarrow> nat option res" where
  "first_free [] i = Inr None"
| "first_free (None # cs) i = first_free cs (Suc i)"
| "first_free (Some a # cs) i =
     res_bind (is_full a) (\<lambda>full. if \<not> full then Inr (Some i) else first_free cs (Suc i))"

definition select_client :: "agent option list \<Rightarrow> nat option res" where
  "select_client cs =
     res_bind (first_free cs 0) (\<lambda>r. Inr (case r of Some i \<Rightarrow> Some i
       | None \<Rightarrow> if cs = [] then None else Some 0))"

text \<open>\<open>None\<close>: publishing waits for room in the client's channel.\<close>

definition pool_decode :: "bytes \<Rightarrow> pool \<Rightarrow> pool res option" where
  "pool_decode data p =
     (case select_client (clients p) of
        Inl e \<Rightarrow> Some (Inl e)
      | Inr None \<Rightarrow> Some (Inr p)
      | Inr (Some i) \<Rightarrow>
          (case clients p ! i of
             None \<Rightarrow> Some (Inr p)
           | Some clt \<Rightarrow>
               map_option (map_sum id (\<lambda>clt'. p\<lparr>clients := (clients p)[i := Some clt']\<rparr>))
                 (publish_task data clt)))"

text \<open>One client in \<open>get_result\<close>: the client afterwards, and the result so far.\<close>

definition poll_client ::
    "build \<Rightarrow> (agent \<Rightarrow> agent) \<Rightarrow> agent \<Rightarrow> page_table \<Rightarrow> (agent \<times> page_table) res" where
  "poll_client b between a rst =
     res_bind (has_result a) (\<lambda>has.
     if has then
       res_bind (fetch_result (between a)) (\<lambda>(r, a').
       res_bind (merge_table b r rst) (\<lambda>rst'. Inr (a', rst')))
     else Inr (a, rst))"

fun poll_clients ::
    "build \<Rightarrow> (agent \<Rightarrow> agent) \<Rightarrow> nat \<Rightarrow> agent option list \<Rightarrow> page_table
     \<Rightarrow> (agent option list \<times> page_table \<times> nat list) res" where
  "poll_clients b between idx [] rst = Inr ([], rst, [])"
| "poll_clients b between idx (None # cs) rst =
     res_bind (poll_clients b between (Suc idx) cs rst) (\<lambda>(cs', rst', dis). Inr (None # cs', rst', dis))"
| "poll_clients b between idx (Some a # cs) rst =
     res_bind (poll_client b between a rst) (\<lambda>(a', rst1).
     res_bind (poll_clients b between (Suc idx) cs rst1) (\<lambda>(cs', rst', dis).
     Inr (Some a' # cs', rst', if is_disconnected a' then idx # dis else dis)))"

fun drop_clients :: "nat list \<Rightarrow> agent option list \<Rightarrow> agent option list res" where
  "drop_clients [] cs = Inr cs"
| "drop_clients (i # is) cs =
     res_bind (index_at cs i) (\<lambda>c.
     case c of None \<Rightarrow> Inl UnwrapNone
     | Some a \<Rightarrow> res_bind (wait_stop a) (\<lambda>_. drop_clients is (cs[i := None])))"

definition get_result :: "build \<Rightarrow> (agent \<Rightarrow> agent) \<Rightarrow> pool \<Rightarrow> (page_table \<times> pool) res" where
  "get_result b between p =
     res_bind (poll_clients b between 0 (clients p) []) (\<lambda>(cs, rst, dis).
     res_bind (drop_clients dis cs) (\<lambda>cs'. Inr (rst, p\<lparr>clients := cs'\<rparr>)))"

section \<open>Reachable clients\<close>

definition client_ok :: "agent \<Rightarrow> bool" where
  "client_ok a \<longleftrightarrow> ag_state a \<in> {Connected, Activate} \<and> has_rst a \<and> tx_proc_data a"

lemma agent_run_fields:
  assumes "agent_run b rm es a"
  shows "has_rst a \<and> tx_proc_data a"
  using assms
proof (induction rule: agent_run.induct)
  case start
  then show ?case by (simp add: ClientAgent_new_def)
next
  case (step es a e a')
  from step.hyps(2) step.IH show ?case
    by (cases rule: agent_stepE)
      (auto simp: agent_defs publish_task_def fetch_result_def agent_disconnect_def handle_msg_frame(2,4)
        dest: unknown_msg split: if_splits)
qed

lemma agent_run_ok: "agent_run b rm es a \<Longrightarrow> client_ok a"
  using agent_never_disconnected agent_run_fields by (simp add: client_ok_def)

definition free :: "agent option \<Rightarrow> bool" where
  "free c = (case c of None \<Rightarrow> False | Some a \<Rightarrow> ag_state a = Activate \<and> length (task_chan a) < 1024)"

lemma free_None [simp]: "\<not> free None"
  by (simp add: free_def)

lemma is_full_ok: "client_ok a \<Longrightarrow> is_full a = Inr (\<not> free (Some a))"
  by (auto simp: is_full_def client_ok_def free_def)

fun first_index :: "('a \<Rightarrow> bool) \<Rightarrow> 'a list \<Rightarrow> nat option" where
  "first_index P [] = None"
| "first_index P (x # xs) = (if P x then Some 0 else map_option Suc (first_index P xs))"

lemma first_index_Some:
  "first_index P xs = Some i \<Longrightarrow> i < length xs \<and> P (xs ! i) \<and> (\<forall>j < i. \<not> P (xs ! j))"
  by (induction xs arbitrary: i) (auto simp: nth_Cons split: if_splits nat.splits)

lemma first_free_index:
  assumes "\<forall>a. Some a \<in> set cs \<longrightarrow> client_ok a"
  shows "first_free cs i = Inr (map_option ((+) i) (first_index free cs))"
  using assms
proof (induction cs arbitrary: i)
  case Nil
  then show ?case by simp
next
  case (Cons c cs)
  then have IH: "first_free cs (Suc i) = Inr (map_option ((+) (Suc i)) (first_index free cs))" by auto
  have shift: "map_option ((+) (Suc i)) r = map_option ((+) i) (map_option Suc r)" for r
    by (cases r) auto
  show ?case
  proof (cases c)
    case None
    with IH shift show ?thesis by simp
  next
    case (Some a)
    with Cons.prems have "client_ok a" by simp
    with IH shift Some show ?thesis by (simp add: is_full_ok)
  qed
qed

lemma poll_clients_quiet:
  assumes "\<forall>a. Some a \<in> set cs \<longrightarrow> client_ok a"
  shows "poll_clients b (\<lambda>a. a) idx cs [] = Inr (cs, [], [])"
  using assms
proof (induction cs arbitrary: idx)
  case Nil
  then show ?case by simp
next
  case (Cons c cs)
  then have IH: "poll_clients b (\<lambda>a. a) (Suc idx) cs [] = Inr (cs, [], [])" by simp
  show ?case
  proof (cases c)
    case None
    with IH show ?thesis by simp
  next
    case (Some a)
    with Cons.prems have ok: "client_ok a" by simp
    then have "poll_client b (\<lambda>a. a) a [] = Inr (a, [])"
      by (auto simp: poll_client_def has_result_def fetch_result_def client_ok_def merge_table_def)
    moreover have "\<not> is_disconnected a" using ok by (auto simp: is_disconnected_def client_ok_def)
    ultimately show ?thesis using IH Some by simp
  qed
qed

section \<open>Properties\<close>


text \<open>
  Also: with reachable clients, a piece goes to the end of the queue of the first
  client that has registered and has room, and no other client changes.
\<close>

theorem decode_routes:
  assumes "\<forall>a. Some a \<in> set (clients p) \<longrightarrow> (\<exists>b' rm es. agent_run b' rm es a)"
    and "first_index free (clients p) = Some i" and "clients p ! i = Some c" and "h2_alive c"
  shows "pool_decode d p = Some (Inr (p\<lparr>clients := (clients p)[i := Some (c\<lparr>task_chan := task_chan c @ [d]\<rparr>)]\<rparr>))"
proof -
  have ok: "\<forall>a. Some a \<in> set (clients p) \<longrightarrow> client_ok a" using assms(1) agent_run_ok by blast
  note i = first_index_Some [OF assms(2)]
  have "client_ok c" using ok i assms(3) by (metis nth_mem)
  with first_free_index [OF ok, of 0] assms(2-4) i show ?thesis
    by (auto simp: pool_decode_def select_client_def publish_task_def client_ok_def free_def)
qed


text \<open>
  Also: the pool accepts the first 33 connections and no more.
\<close>

theorem pool_accepts_33:
  assumes "start_server True = Inr p"
  shows "length (clients ((accept ^^ n) p)) = min n 33"
proof -
  have "length (clients ((accept ^^ n) p)) = min n 33 \<and> \<not> stop_flag ((accept ^^ n) p)
      \<and> (accepting ((accept ^^ n) p) \<longleftrightarrow> n < 33)" for n
    using assms by (induction n) (auto simp: start_server_def accept_def Let_def)
  then show ?thesis by blast
qed

text \<open>
  For the witnesses: a pool whose first client has not registered and whose second has, holds
  counts, and in one case has lost its sending task.
\<close>

definition active_client :: agent where
  "active_client = ClientAgent_new\<lparr>ag_state := Activate, out_msgs := [RegRsp 7]\<rparr>"

lemma active_client_run: "agent_run Debug no_memory [Recv (RegReq 7)] active_client"
proof -
  have "agent_step Debug no_memory ClientAgent_new (Recv (RegReq 7)) active_client"
    by (rule agent_step.recv [where ok = True]) (simp_all add: active_client_def agent_defs ClientAgent_new_def)
  from agent_run.step [OF agent_run.start this] show ?thesis by simp
qed

definition dead_client :: agent where
  "dead_client = active_client\<lparr>h2_alive := False\<rparr>"

lemma dead_client_run: "agent_run Debug no_memory [Recv (RegReq 7), Publish [1], SendFails [1]] dead_client"
proof -
  let ?a = "active_client\<lparr>task_chan := [[1]]\<rparr>"
  have p: "agent_step Debug no_memory active_client (Publish [1]) ?a"
    by (simp add: publish_task_def active_client_def ClientAgent_new_def)
  have f: "agent_step Debug no_memory ?a (SendFails [1]) dead_client"
    by (simp add: dead_client_def active_client_def ClientAgent_new_def agent_defs)
  from agent_run.step [OF agent_run.step [OF active_client_run p] f] show ?thesis by simp
qed

definition pool_of :: "agent option list \<Rightarrow> pool" where
  "pool_of cs = \<lparr>clients = cs, stop_flag = False, accepting = True, pool_handle = True\<rparr>"

lemma pool_of_reachable:
  "\<forall>a. Some a \<in> set (clients (pool_of [Some ClientAgent_new, None, Some active_client]))
     \<longrightarrow> (\<exists>b' rm es. agent_run b' rm es a)"
  "\<forall>a. Some a \<in> set (clients (pool_of [Some ClientAgent_new, Some dead_client]))
     \<longrightarrow> (\<exists>b' rm es. agent_run b' rm es a)"
proof -
  have "\<exists>b' rm es. agent_run b' rm es ClientAgent_new" "\<exists>b' rm es. agent_run b' rm es active_client"
    "\<exists>b' rm es. agent_run b' rm es dead_client"
    using agent_run.start active_client_run dead_client_run by blast+
  then show "\<forall>a. Some a \<in> set (clients (pool_of [Some ClientAgent_new, None, Some active_client]))
     \<longrightarrow> (\<exists>b' rm es. agent_run b' rm es a)"
    and "\<forall>a. Some a \<in> set (clients (pool_of [Some ClientAgent_new, Some dead_client]))
     \<longrightarrow> (\<exists>b' rm es. agent_run b' rm es a)" by (auto simp: pool_of_def)
qed

lemma pool_of_free:
  "first_index free (clients (pool_of [Some ClientAgent_new, None, Some active_client])) = Some 2"
  "first_index free (clients (pool_of [Some ClientAgent_new, Some dead_client])) = Some 1"
  by (simp_all add: pool_of_def free_def ClientAgent_new_def active_client_def dead_client_def)


theorem decode_routes_witness:
  "pool_decode [5] (pool_of [Some ClientAgent_new, None, Some active_client]) =
     Some (Inr (pool_of [Some ClientAgent_new, None, Some (active_client\<lparr>task_chan := [[5]]\<rparr>)]))"
  using decode_routes [OF pool_of_reachable(1) pool_of_free(1), of active_client "[5]"]
  by (simp add: pool_of_def active_client_def ClientAgent_new_def)


theorem pool_accepts_33_witness:
  "\<exists>p. start_server True = Inr p \<and> length (clients ((accept ^^ 40) p)) = 33"
proof -
  obtain p where p: "start_server True = Inr p" by (simp add: start_server_def)
  with pool_accepts_33 [OF p, of 40] show ?thesis by auto
qed

end
