(* ===== verification/ServerAgent.thy ===== *)
theory ServerAgent
  imports Decode Wire
begin

text \<open>
  The decoding client (\<open>src/src/server_consumer/client_proc.rs\<close>): it connects to the server,
  hands the pieces it gets to two worker tasks, and asks the server for the memory the
  workers need to decode them.
\<close>

section \<open>Remote memory\<close>

text \<open>
  What becomes of a memory request: nobody takes it, the reply channel is dropped, or an
  answer. \<open>ask\<close> is the rest of the client, which answers and changes the world.
\<close>

datatype mem_answer = NoTaker | Disconnected | Answer bytes

type_synonym 'w asker = "usize \<Rightarrow> usize \<Rightarrow> 'w \<Rightarrow> mem_answer \<times> 'w"

text \<open>
  An answer is copied through a vector made from the raw parts of the caller's buffer, which
  the vector then owns: dropping it, or growing it past its capacity, frees the buffer while
  the caller still borrows it. A vector of capacity 0 owns nothing.
\<close>

definition read_mem :: "'w asker \<Rightarrow> usize \<Rightarrow> usize \<Rightarrow> bytes \<Rightarrow> 'w \<Rightarrow> (bytes \<times> 'w) res" where
  "read_mem ask addr len output_buff w =
     (case ask addr len w of
        (NoTaker, w') \<Rightarrow> Inl UnwrapErr
      | (Disconnected, w') \<Rightarrow> Inr (output_buff, w')
      | (Answer data, w') \<Rightarrow> if len = 0 then Inr (output_buff, w') else Inl DanglingDeref)"

section \<open>The workers\<close>

datatype ProcCtrl = ProcInit | Proc bytes

text \<open>One message of \<open>proc_data\<close>: the reply it sends, if any, and the cache.\<close>

definition proc_data_step ::
    "build \<Rightarrow> ('d, 'w MemCacher \<times> 'w) libipt \<Rightarrow> 'w asker \<Rightarrow> ProcCtrl \<Rightarrow> 'w MemCacher \<times> 'w
     \<Rightarrow> (PtProcMsg option \<times> 'w MemCacher \<times> 'w) res option" where
  "proc_data_step b L ask ctrl = (\<lambda>(cacher, w).
     case ctrl of
       ProcInit \<Rightarrow> Some (Inr (None, clear_data cacher, w))
     | Proc data \<Rightarrow>
         map_option (map_sum id (\<lambda>(cnt, data_rst_tmp, cacher', w').
             (Some (DataRsp (to_sparse data_rst_tmp)), cacher', w')))
           (async_decode b L (read_mem ask) data cacher [] w))"

section \<open>The connection\<close>

text \<open>
  The reply channel of a request: its receiver waits, has an answer it has not taken, has gone
  away with it, or was told that the sender is gone.
\<close>

datatype reply_chan = Waits | Holds bytes | Gone | SenderGone

record server_agent =
  mem_req_queue :: "(usize \<times> usize \<times> nat) list"
  mem_req_lst :: "(usize, nat) hash_map"
  reply_chans :: "(usize \<times> reply_chan) list"
  proc_queue :: "ProcCtrl list"
  loop_alive :: bool
  sent_msgs :: "PtProcMsg list"

definition ServerAgent_connect :: server_agent where
  "ServerAgent_connect = \<lparr>mem_req_queue = [], mem_req_lst = [], reply_chans = [], proc_queue = [],
     loop_alive = True, sent_msgs = [RegReq 0]\<rparr>"

text \<open>
  A step of the client: a worker asks for memory, the forwarding task takes a request, a
  message arrives, a worker takes its answer, or a worker takes a job.
\<close>

datatype client_event =
    Ask usize usize
  | Forward
  | Arrive PtProcMsg
  | TakeAnswer nat
  | TakeJob

definition set_chan :: "nat \<Rightarrow> reply_chan \<Rightarrow> server_agent \<Rightarrow> server_agent" where
  "set_chan k r a = a\<lparr>reply_chans := (reply_chans a)[k := (fst (reply_chans a ! k), r)]\<rparr>"

text \<open>Inserting a request under an address drops the sender kept there before.\<close>

definition insert_req :: "usize \<Rightarrow> nat \<Rightarrow> server_agent \<Rightarrow> server_agent" where
  "insert_req addr k a =
     (let a' = (case hm_get (mem_req_lst a) addr of
          Some j \<Rightarrow> if snd (reply_chans a ! j) = Waits then set_chan j SenderGone a else a
        | None \<Rightarrow> a)
      in a'\<lparr>mem_req_lst := hm_insert (mem_req_lst a') addr k\<rparr>)"

definition forward_req :: "server_agent \<Rightarrow> server_agent" where
  "forward_req a =
     (case mem_req_queue a of
        [] \<Rightarrow> a
      | (addr, len, k) # q \<Rightarrow>
          (insert_req addr k a)\<lparr>mem_req_queue := q, sent_msgs := sent_msgs a @ [MemReq addr len]\<rparr>)"

text \<open>The receiving loop; \<open>None\<close>: it waits for room in a reply channel.\<close>

fun client_msg :: "PtProcMsg \<Rightarrow> server_agent \<Rightarrow> server_agent res option" where
  "client_msg Init a = Some (Inr (a\<lparr>proc_queue := proc_queue a @ [ProcInit]\<rparr>))"
| "client_msg (RegRsp rst) a = Some (Inr a)"
| "client_msg (DataReq data) a = Some (Inr (a\<lparr>proc_queue := proc_queue a @ [Proc data]\<rparr>))"
| "client_msg (MemRsp addr data) a =
     (case hm_get (mem_req_lst a) addr of
        None \<Rightarrow> Some (Inr a)
      | Some k \<Rightarrow>
          (case snd (reply_chans a ! k) of
             Waits \<Rightarrow> Some (Inr (set_chan k (Holds data) a))
           | Holds d \<Rightarrow> None
           | _ \<Rightarrow> Some (Inr (a\<lparr>loop_alive := False\<rparr>))))"
| "client_msg _ a = Some (Inl Unimplemented)"

fun client_step :: "client_event \<Rightarrow> server_agent \<Rightarrow> server_agent res option" where
  "client_step (Ask addr len) a = Some (Inr (a\<lparr>
     mem_req_queue := mem_req_queue a @ [(addr, len, length (reply_chans a))],
     reply_chans := reply_chans a @ [(addr, Waits)]\<rparr>))"
| "client_step Forward a = Some (Inr (forward_req a))"
| "client_step (Arrive m) a = (if loop_alive a then client_msg m a else Some (Inr a))"
| "client_step (TakeAnswer k) a = Some (Inr (if k < length (reply_chans a)
     then (case snd (reply_chans a ! k) of Holds d \<Rightarrow> set_chan k Gone a | _ \<Rightarrow> a) else a))"
| "client_step TakeJob a = Some (Inr (a\<lparr>proc_queue := tl (proc_queue a)\<rparr>))"

fun client_run :: "client_event list \<Rightarrow> server_agent \<Rightarrow> server_agent res option" where
  "client_run [] a = Some (Inr a)"
| "client_run (e # es) a =
     (case client_step e a of
        None \<Rightarrow> None
      | Some (Inl f) \<Rightarrow> Some (Inl f)
      | Some (Inr a') \<Rightarrow> client_run es a')"

section \<open>Answers go to the requests they answer\<close>

text \<open>
  Channels are numbered in the order of the requests. Every channel listed under an address
  was made for that address, and holds only what arrived for it.
\<close>

definition client_inv :: "client_event list \<Rightarrow> server_agent \<Rightarrow> bool" where
  "client_inv es a \<longleftrightarrow>
     (\<forall>addr k. hm_get (mem_req_lst a) addr = Some k \<longrightarrow>
        k < length (reply_chans a) \<and> fst (reply_chans a ! k) = addr)
     \<and> (\<forall>addr len k. (addr, len, k) \<in> set (mem_req_queue a) \<longrightarrow>
        k < length (reply_chans a) \<and> fst (reply_chans a ! k) = addr)
     \<and> (\<forall>k < length (reply_chans a). \<forall>d. snd (reply_chans a ! k) = Holds d \<longrightarrow>
        Arrive (MemRsp (fst (reply_chans a ! k)) d) \<in> set es)
     \<and> map fst (reply_chans a) = concat (map (\<lambda>e. case e of Ask addr len \<Rightarrow> [addr] | _ \<Rightarrow> []) es)"

lemma map_fst_update: "map fst (xs[k := (fst (xs ! k), r)]) = map fst xs"
proof (cases "k < length xs")
  case True
  then have "(map fst xs)[k := fst (xs ! k)] = map fst xs"
    using list_update_id [of "map fst xs" k] by simp
  then show ?thesis by (simp add: map_update)
next
  case False
  then show ?thesis by (simp add: list_update_beyond)
qed

lemma set_chan_simps [simp]:
  "mem_req_lst (set_chan k r a) = mem_req_lst a" "mem_req_queue (set_chan k r a) = mem_req_queue a"
  "length (reply_chans (set_chan k r a)) = length (reply_chans a)"
  "map fst (reply_chans (set_chan k r a)) = map fst (reply_chans a)"
  "proc_queue (set_chan k r a) = proc_queue a" "loop_alive (set_chan k r a) = loop_alive a"
  by (simp_all add: set_chan_def map_fst_update)

lemma set_chan_fst: "k < length (reply_chans a) \<Longrightarrow>
    fst (reply_chans (set_chan k r a) ! j) = fst (reply_chans a ! j)"
  by (cases "j = k") (simp_all add: set_chan_def nth_list_update)

lemma set_chan_snd: "k < length (reply_chans a) \<Longrightarrow>
    snd (reply_chans (set_chan k r a) ! j) = (if j = k then r else snd (reply_chans a ! j))"
  by (cases "j = k") (simp_all add: set_chan_def nth_list_update)

lemma client_invD:
  assumes "client_inv es a"
  shows "hm_get (mem_req_lst a) addr = Some k \<Longrightarrow> k < length (reply_chans a)"
    and "hm_get (mem_req_lst a) addr = Some k \<Longrightarrow> fst (reply_chans a ! k) = addr"
    and "(addr, len, k) \<in> set (mem_req_queue a) \<Longrightarrow> k < length (reply_chans a)"
    and "(addr, len, k) \<in> set (mem_req_queue a) \<Longrightarrow> fst (reply_chans a ! k) = addr"
    and "k < length (reply_chans a) \<Longrightarrow> snd (reply_chans a ! k) = Holds d
      \<Longrightarrow> Arrive (MemRsp (fst (reply_chans a ! k)) d) \<in> set es"
    and "map fst (reply_chans a) = concat (map (\<lambda>e. case e of Ask addr len \<Rightarrow> [addr] | _ \<Rightarrow> []) es)"
  using assms unfolding client_inv_def by blast+

lemma client_inv_set_chan:
  assumes inv: "client_inv es a" and k: "k < length (reply_chans a)"
    and "\<And>d. r = Holds d \<Longrightarrow> Arrive (MemRsp (fst (reply_chans a ! k)) d) \<in> set es"
  shows "client_inv es (set_chan k r a)"
  unfolding client_inv_def set_chan_simps set_chan_fst [OF k] set_chan_snd [OF k]
proof (intro conjI allI impI)
  fix j d
  assume "j < length (reply_chans a)" and "(if j = k then r else snd (reply_chans a ! j)) = Holds d"
  then show "Arrive (MemRsp (fst (reply_chans a ! j)) d) \<in> set es"
    using assms(3) client_invD(5) [OF inv] by (cases "j = k") auto
qed (use client_invD [OF inv] in blast)+

lemma insert_req_cases:
  obtains a' where "insert_req addr k a = a'\<lparr>mem_req_lst := hm_insert (mem_req_lst a) addr k\<rparr>"
    and "a' = a \<or> (\<exists>j. hm_get (mem_req_lst a) addr = Some j \<and> a' = set_chan j SenderGone a)"
proof (cases "hm_get (mem_req_lst a) addr")
  case None
  then show ?thesis using that [of a] by (simp add: insert_req_def)
next
  case (Some j)
  then show ?thesis using that [of a] that [of "set_chan j SenderGone a"]
    by (cases "snd (reply_chans a ! j) = Waits") (simp_all add: insert_req_def Let_def)
qed

lemma client_inv_list:
  assumes inv: "client_inv es a" and k: "k < length (reply_chans a)" "fst (reply_chans a ! k) = addr"
  shows "client_inv es (a\<lparr>mem_req_lst := hm_insert (mem_req_lst a) addr k\<rparr>)"
  unfolding client_inv_def
proof (intro conjI allI impI, goal_cases)
  case (1 a' j)
  then show ?case using k client_invD(1) [OF inv, of a' j] by (cases "a' = addr") auto
next
  case (2 a' j)
  then show ?case using k client_invD(2) [OF inv, of a' j] by (cases "a' = addr") auto
qed (use client_invD [OF inv] in simp_all)

lemma client_inv_insert_req:
  assumes inv: "client_inv es a" and k: "k < length (reply_chans a)" "fst (reply_chans a ! k) = addr"
  shows "client_inv es (insert_req addr k a)"
proof -
  obtain a' where eq: "insert_req addr k a = a'\<lparr>mem_req_lst := hm_insert (mem_req_lst a) addr k\<rparr>"
    and a': "a' = a \<or> (\<exists>j. hm_get (mem_req_lst a) addr = Some j \<and> a' = set_chan j SenderGone a)"
    by (rule insert_req_cases)
  have inv': "client_inv es a'" and len: "k < length (reply_chans a')"
    and fst': "fst (reply_chans a' ! k) = addr" and lst: "mem_req_lst a' = mem_req_lst a"
    using a' inv k client_inv_set_chan [OF inv client_invD(1) [OF inv]]
    by (auto simp: set_chan_fst client_invD(1) [OF inv])
  show ?thesis using client_inv_list [OF inv' len fst'] eq lst by simp
qed

lemma insert_req_queue [simp]: "mem_req_queue (insert_req addr k a) = mem_req_queue a"
  by (rule insert_req_cases [of addr k a]) auto

lemma client_inv_queue:
  assumes "client_inv es a" and "set q \<subseteq> set (mem_req_queue a)"
  shows "client_inv es (a\<lparr>mem_req_queue := q, sent_msgs := ms\<rparr>)"
  using assms(1) subsetD [OF assms(2)] unfolding client_inv_def by simp blast

lemma client_inv_forward:
  assumes inv: "client_inv es a"
  shows "client_inv es (forward_req a)"
proof (cases "mem_req_queue a")
  case Nil
  then show ?thesis using inv by (simp add: forward_req_def)
next
  case (Cons r q)
  obtain addr len k where r: "r = (addr, len, k)" by (cases r)
  with Cons have "(addr, len, k) \<in> set (mem_req_queue a)" by simp
  then have "client_inv es (insert_req addr k a)"
    using client_inv_insert_req [OF inv] client_invD(3,4) [OF inv] by blast
  moreover have "set q \<subseteq> set (mem_req_queue (insert_req addr k a))" using Cons by auto
  ultimately show ?thesis using client_inv_queue Cons r by (simp add: forward_req_def)
qed

lemma client_inv_more:
  assumes "client_inv es a" and "\<And>addr len. e \<noteq> Ask addr len"
  shows "client_inv (es @ [e]) a"
proof -
  have "concat (map (\<lambda>e. case e of Ask addr len \<Rightarrow> [addr] | _ \<Rightarrow> []) [e]) = []"
    using assms(2) by (cases e) auto
  then show ?thesis using assms(1) unfolding client_inv_def by auto
qed

lemma client_inv_ask:
  assumes inv: "client_inv es a"
  shows "client_inv (es @ [Ask addr len]) (a\<lparr>
     mem_req_queue := mem_req_queue a @ [(addr, len, length (reply_chans a))],
     reply_chans := reply_chans a @ [(addr, Waits)]\<rparr>)"
  unfolding client_inv_def
proof (intro conjI allI impI, goal_cases)
  case (1 a' k) then show ?case using client_invD(1) [OF inv] by fastforce
next
  case (2 a' k) then show ?case using client_invD(1,2) [OF inv] by (fastforce simp: nth_append)
next
  case (3 a' l k) then show ?case using client_invD(3) [OF inv] by fastforce
next
  case (4 a' l k) then show ?case using client_invD(3,4) [OF inv] by (fastforce simp: nth_append)
next
  case (5 k d) then show ?case using client_invD(5) [OF inv]
    by (fastforce simp: nth_append less_Suc_eq split: if_splits)
next
  case 6 then show ?case using client_invD(6) [OF inv] by simp
qed

lemma client_inv_plain:
  assumes "client_inv es a"
  shows "client_inv es (a\<lparr>proc_queue := q\<rparr>)" "client_inv es (a\<lparr>loop_alive := l\<rparr>)"
  using assms unfolding client_inv_def by simp_all

lemma client_inv_msg:
  assumes inv: "client_inv es a" and run: "client_msg m a = Some (Inr a')"
  shows "client_inv (es @ [Arrive m]) a'"
proof (cases m)
  case (MemRsp addr data)
  note more = client_inv_more [OF inv, of "Arrive m"]
  show ?thesis
  proof (cases "hm_get (mem_req_lst a) addr")
    case None
    then show ?thesis using run more MemRsp by simp
  next
    case (Some k)
    note k = client_invD(1,2) [OF inv Some]
    show ?thesis
    proof (cases "snd (reply_chans a ! k)")
      case Waits
      then show ?thesis using run MemRsp Some k more client_inv_set_chan [of _ a k "Holds data"] by simp
    qed (use run MemRsp Some client_inv_plain(2) [OF more] in auto)
  qed
qed (use run client_inv_plain client_inv_more [OF inv, of "Arrive m"] in auto)

lemma client_inv_step:
  assumes inv: "client_inv es a" and run: "client_step e a = Some (Inr a')"
  shows "client_inv (es @ [e]) a'"
proof (cases e)
  case (Ask addr len)
  then show ?thesis using run client_inv_ask [OF inv, of addr len] by auto
next
  case Forward
  then show ?thesis using run client_inv_more [OF client_inv_forward [OF inv]] by auto
next
  case (Arrive m)
  then show ?thesis using run client_inv_msg [OF inv] client_inv_more [OF inv]
    by (simp split: if_splits)
next
  case (TakeAnswer k)
  note more = client_inv_more [OF inv, of e, unfolded TakeAnswer, simplified]
  show ?thesis
  proof (cases "k < length (reply_chans a)")
    case True
    show ?thesis using run TakeAnswer True more client_inv_set_chan [OF more True, of Gone]
      by (cases "snd (reply_chans a ! k)") simp_all
  qed (use run TakeAnswer more in simp)
next
  case TakeJob
  then show ?thesis using run client_inv_plain client_inv_more [OF inv] by auto
qed

lemma client_inv_run:
  "client_run fs a = Some (Inr a') \<Longrightarrow> client_inv es a \<Longrightarrow> client_inv (es @ fs) a'"
proof (induction fs arbitrary: a es)
  case (Cons f fs)
  then obtain b where b: "client_step f a = Some (Inr b)" "client_run fs b = Some (Inr a')"
    by (auto split: option.splits sum.splits)
  show ?case using Cons.IH [OF b(2) client_inv_step [OF Cons.prems(2) b(1)]] by simp
qed simp

lemma client_inv_init: "client_inv [] ServerAgent_connect"
  by (simp add: client_inv_def ServerAgent_connect_def)

text \<open>The addresses asked for, in order: channel \<open>k\<close> is that of the \<open>k\<close>-th.\<close>

definition asked :: "client_event list \<Rightarrow> usize list" where
  "asked es = concat (map (\<lambda>e. case e of Ask addr len \<Rightarrow> [addr] | _ \<Rightarrow> []) es)"

text \<open>
  C22: over any run of the connection, an answer waiting for the \<open>k\<close>-th
  memory request arrived from the server for the very address that request asked for, and a
  request waiting to be forwarded carries the channel of its own address.
\<close>

theorem answers_match:
  assumes "client_run es ServerAgent_connect = Some (Inr a)"
  shows "length (reply_chans a) = length (asked es)
     \<and> (\<forall>k d. k < length (asked es) \<longrightarrow> snd (reply_chans a ! k) = Holds d
          \<longrightarrow> Arrive (MemRsp (asked es ! k) d) \<in> set es)
     \<and> (\<forall>addr len k. (addr, len, k) \<in> set (mem_req_queue a) \<longrightarrow>
          k < length (asked es) \<and> asked es ! k = addr)"
proof -
  have inv: "client_inv es a" using client_inv_run [OF assms client_inv_init] by simp
  have m: "map fst (reply_chans a) = asked es" using client_invD(6) [OF inv] by (simp add: asked_def)
  then have len: "length (asked es) = length (reply_chans a)" by (metis length_map)
  have nth: "asked es ! k = fst (reply_chans a ! k)" if "k < length (reply_chans a)" for k
    using that by (simp add: m [symmetric])
  show ?thesis using client_invD(3-5) [OF inv] nth len by auto
qed

theorem answers_match_witness:
  "\<exists>a. client_run [Ask 0x1000 8, Ask 0x2000 8, Forward, Forward, Arrive (MemRsp 0x2000 [7])]
      ServerAgent_connect = Some (Inr a) \<and> snd (reply_chans a ! 1) = Holds [7]
     \<and> Arrive (MemRsp 0x2000 [7]) \<in> set [Ask 0x1000 8, Ask 0x2000 8, Forward, Forward, Arrive (MemRsp 0x2000 [7])]"
proof -
  let ?es = "[Ask 0x1000 8, Ask 0x2000 8, Forward, Forward, Arrive (MemRsp 0x2000 [7])]"
  obtain a where a: "client_run ?es ServerAgent_connect = Some (Inr a)" "snd (reply_chans a ! 1) = Holds [7]"
    by (simp add: ServerAgent_connect_def forward_req_def insert_req_def set_chan_def)
  have "asked ?es = [0x1000, 0x2000]" by (simp add: asked_def)
  then have "1 < length (asked ?es)" "asked ?es ! 1 = 0x2000" by simp_all
  with answers_match [OF a(1)] a show ?thesis by metis
qed

text \<open>
  Also: when both workers ask for the same address before it is answered,
  the first is told that its channel is gone, and the second answer ends the receiving loop.
\<close>

theorem concurrent_same_page:
  "\<exists>a. client_run [Ask p n, Ask p n, Forward, Forward, Arrive (MemRsp p d), TakeAnswer 1, Arrive (MemRsp p d')]
       ServerAgent_connect = Some (Inr a)
     \<and> map snd (reply_chans a) = [SenderGone, Gone] \<and> \<not> loop_alive a
     \<and> sent_msgs a = [RegReq 0, MemReq p n, MemReq p n]"
  by (simp add: ServerAgent_connect_def forward_req_def insert_req_def set_chan_def)

section \<open>The reply to a piece\<close>

lemma proc_data_Some:
  assumes "proc_data_step b L ask (Proc data) (cacher, w) = Some (Inr (msg, cacher', w'))"
  obtains cnt t where "decode_with b L (async_reader (read_mem ask)) data cacher [] w = Some (Inr (cnt, t, cacher', w'))"
    and "msg = Some (DataRsp (to_sparse t))"
proof -
  from assms obtain r where r: "decode_with b L (async_reader (read_mem ask)) data cacher [] w = Some r"
    "map_sum id (\<lambda>(cnt, t, c, w). (Some (DataRsp (to_sparse t)), c, w)) r = Inr (msg, cacher', w')"
    by (auto simp: proc_data_step_def async_decode_def)
  then show ?thesis using that by (cases r) auto
qed

lemma reply_run:
  assumes "proc_data_step b L ask (Proc data) (cacher, w) = Some (Inr (msg, cacher', w'))"
    and "lib_new L data = Some d" and "lib_sync_forward L d = Inr d1"
  shows "\<exists>d2 ips m. drain_events L d1 = Some d2
     \<and> decodes L (image_cb b) d2 (cacher\<lparr>reader_fn := Some (async_reader (read_mem ask))\<rparr>, w) ips (cacher', w')
     \<and> msg = Some (DataRsp m) \<and> wf_sparse m
     \<and> (\<forall>x. sparse_count_at m x = of_nat (count_list ips x))"
proof -
  obtain cnt t where t: "decode_with b L (async_reader (read_mem ask)) data cacher [] w = Some (Inr (cnt, t, cacher', w'))"
    "msg = Some (DataRsp (to_sparse t))" using proc_data_Some [OF assms(1)] .
  from decode_with_run [OF t(1) assms(2,3)] obtain d2 ips where run: "drain_events L d1 = Some d2"
    "decodes L (image_cb b) d2 (cacher\<lparr>reader_fn := Some (async_reader (read_mem ask))\<rparr>, w) ips (cacher', w')"
    "res_fold (record_hit b) ips [] = Inr t" by blast
  from table.hits_count [OF run(3) wf_table_Nil] have "wf_table t"
    "\<forall>x. count_at t x = of_nat (count_list ips x)" by simp_all
  with run(1,2) t(2) to_sparse_wf to_sparse_count show ?thesis by metis
qed

text \<open>
  C16: whatever the decoder library does, the reply to a piece holds, for every
  address, how often the library's run executed it (in 64 bits), and nothing else; its pages
  and offsets are well formed.
\<close>

theorem reply_exact:
  assumes "proc_data_step b L ask (Proc data) (cacher, w) = Some (Inr (msg, cacher', w'))"
    and "lib_new L data = Some d" and "lib_sync_forward L d = Inr d1"
  shows "\<exists>d2 ips m. drain_events L d1 = Some d2
     \<and> decodes L (image_cb b) d2 (cacher\<lparr>reader_fn := Some (async_reader (read_mem ask))\<rparr>, w) ips (cacher', w')
     \<and> msg = Some (DataRsp m) \<and> wf_sparse m
     \<and> (\<forall>x. sparse_count_at m x = of_nat (count_list ips x))"
  using assms by (rule reply_run)

lemma quiet_reply:
  "\<exists>t c. proc_data_step Debug quiet_lib (\<lambda>_ _ w. (NoTaker, w)) (Proc [1, 5, 0, 9, 5]) (MemCacher_new, ())
     = Some (Inr (Some (DataRsp t), c, ()))"
proof -
  let ?f = "async_reader (read_mem (\<lambda>_ _ w. (NoTaker, w)))"
  let ?s = "(MemCacher_new\<lparr>reader_fn := Some ?f\<rparr>, ())"
  obtain t' where "decode_loop Debug quiet_lib (image_cb Debug) [5, 0, 9, 5] ?s 0 [] =
      Some (Inr (of_nat (length [5, 5 :: u64]), t', ?s))"
    using decode_loop_run [OF quiet_run [of "image_cb Debug" ?s], of 0 "[]" Debug] by fastforce
  then have "decode_with Debug quiet_lib ?f [1, 5, 0, 9, 5] MemCacher_new [] () = Some (Inr (2, t', ?s))"
    by (simp add: decode_with_def quiet_drain quiet_new)
  then show ?thesis by (simp add: proc_data_step_def async_decode_def)
qed

theorem reply_exact_witness:
  "\<exists>msg c w' m. proc_data_step Debug quiet_lib (\<lambda>_ _ w. (NoTaker, w)) (Proc [1, 5, 0, 9, 5]) (MemCacher_new, ())
       = Some (Inr (msg, c, w')) \<and> msg = Some (DataRsp m) \<and> wf_sparse m"
proof -
  obtain t c where run: "proc_data_step Debug quiet_lib (\<lambda>_ _ w. (NoTaker, w)) (Proc [1, 5, 0, 9, 5]) (MemCacher_new, ())
     = Some (Inr (Some (DataRsp t), c, ()))" using quiet_reply by blast
  from reply_exact [OF run quiet_new] run show ?thesis by metis
qed

section \<open>Fetching remote memory\<close>



text \<open>
  Also: a page whose request is dropped unanswered is reported as read in
  full, as zeros, and is cached as such.
\<close>

theorem lost_fetch_is_zeros:
  assumes "reader_fn c = Some (async_reader (read_mem ask))"
    and "last_page c \<noteq> page_of addr" and "hm_get (cache_lst c) (page_of addr) = None"
    and "ask (page_of addr) 4096 w = (Disconnected, w')"
    and "unat (page_off addr) + length rst \<le> 4096"
  shows "\<exists>c' bx. get_content_in_one_page rst addr (c, w) = Inr (of_nat (length rst), replicate (length rst) 0, c', w')
     \<and> hm_get (cache_lst c') (page_of addr) = Some bx \<and> boxes c' bx = Some (replicate 4096 0)"
  using assms by (simp add: get_content_in_one_page_def async_reader_def read_mem_def Let_def
      get_content_in_cache_item_def slice_def)

theorem lost_fetch_is_zeros_witness:
  "\<exists>c'. get_content_in_one_page [3, 4] 0x1234
     (MemCacher_new\<lparr>reader_fn := Some (async_reader (read_mem (\<lambda>_ _ w. (Disconnected, w))))\<rparr>, ())
     = Inr (2, [0, 0], c', ())"
proof -
  have "unat (page_off 0x1234) + length [3, 4 :: u8] \<le> 4096"
    by (simp add: page_off_def)
  from lost_fetch_is_zeros [OF _ _ _ _ this, of
      "MemCacher_new\<lparr>reader_fn := Some (async_reader (read_mem (\<lambda>_ _ w. (Disconnected, w))))\<rparr>" _ "()"]
  show ?thesis by (auto simp: MemCacher_new_def page_of_def)
qed

end
