(* ===== verification/OnlineProc.thy ===== *)
theory OnlineProc
  imports Splitter Decode Collector
begin

text \<open>
  The online processor (\<open>src/src/bin/online_proc.rs\<close>): the capture loop's callback hands the
  bytes of each processor to a splitter thread of its own; the splitters send their pieces into
  one channel; the workers, one less than there are processors, take pieces from it and decode
  them, each into a table of its own; when the capture has ended and the threads have been
  joined, the tables are merged.

  The threads are interleaved at the granularity of a message: an event is a call of the
  callback, a splitter handling one message, or a worker decoding one piece. A panic of a
  thread is a fault of the run, since joining the thread panics.

  \<open>PD\<close> and its slots are \<open>Some\<close> from \<open>create_env\<close>, which fills them, to the end of
  \<open>collect_all_data\<close>, which drops them; the record is the state in between. A splitter's
  local \<open>assemed_data\<close> and a worker's local \<open>cacher\<close> are kept with their processor.
\<close>

section \<open>State\<close>

record 'w ProcessorData =
  tx_queue :: "bytes list"
  assemed_data :: bytes
  pd_data :: page_table
  worker :: "'w MemCacher option"

definition ProcessorData_new :: "'w ProcessorData" where
  "ProcessorData_new = \<lparr>tx_queue = [], assemed_data = [], pd_data = [], worker = None\<rparr>"

record 'w online =
  PD :: "'w ProcessorData list"
  work_chan :: "bytes list"
  G_STOP :: bool
  DEV_HANDLE :: usize
  PID :: usize
  ON_FILE_SIZE :: usize
  on_sys :: system
  drv_world :: 'w

section \<open>Operations\<close>

text \<open>
  \<open>for i in 0..n\<close> with a worker for each: an index past the processors panics.
\<close>

definition create_workers :: "nat \<Rightarrow> 'w ProcessorData list \<Rightarrow> 'w ProcessorData list res" where
  "create_workers n pds =
     (if n > length pds then Inl OutOfBounds
      else Inr (map (\<lambda>pd. pd\<lparr>worker := Some MemCacher_new\<rparr>) (take n pds) @ drop n pds))"

definition create_env ::
    "build \<Rightarrow> nat \<Rightarrow> (nat \<Rightarrow> nat) \<Rightarrow> string \<Rightarrow> usize \<Rightarrow> usize \<Rightarrow> disk \<Rightarrow> 'w \<Rightarrow> 'w online res" where
  "create_env b cpu_nums clock file_size dev_handle pid dk w =
     (let pds = replicate cpu_nums ProcessorData_new;
          (wts, s) = make_writers clock [CHR ''x'', CHR '':'', CHR 0x5C] ''dat'' [0..<cpu_nums]
             \<lparr>tasks = [], disk_of = dk\<rparr>
      in res_bind (usub b (of_nat cpu_nums) (1 :: usize)) (\<lambda>n.
         res_bind (create_workers (unat n) pds) (\<lambda>pds'.
         res_bind (set_file_size b file_size (1 * GB)) (\<lambda>fs.
         Inr \<lparr>PD = pds', work_chan = [], G_STOP = False, DEV_HANDLE = dev_handle, PID = pid,
              ON_FILE_SIZE = fs, on_sys = s, drv_world = w\<rparr>))))"

text \<open>The capture loop's callback; its result tells whether to go on.\<close>

definition processor :: "nat \<Rightarrow> bytes \<Rightarrow> nat \<Rightarrow> 'w online \<Rightarrow> (bool \<times> 'w online) res" where
  "processor i buff sz st =
     res_bind (index_at (PD st) i) (\<lambda>pd.
     if sz > 0 then
       res_bind (slice buff 0 sz) (\<lambda>d.
       Inr (\<not> G_STOP st, st\<lparr>PD := (PD st)[i := pd\<lparr>tx_queue := tx_queue pd @ [d]\<rparr>]\<rparr>))
     else Inr (\<not> G_STOP st, st))"

text \<open>
  Pieces can be sent while some worker holds the receiving end; \<open>conn\<close> below is whether
  anyone does.
\<close>

definition connected :: "'w online \<Rightarrow> bool" where
  "connected st \<longleftrightarrow> list_ex (\<lambda>pd. worker pd \<noteq> None) (PD st)"

definition split_with ::
    "('d, 'w MemCacher \<times> 'w) libipt \<Rightarrow> bool \<Rightarrow> nat \<Rightarrow> 'w online \<Rightarrow> 'w online res option" where
  "split_with L conn i st =
     (if i < length (PD st) then
        (case tx_queue (PD st ! i) of
           [] \<Rightarrow> Some (Inr st)
         | d # ds \<Rightarrow>
             map_option (map_sum id (\<lambda>(sent, rest). st\<lparr>
                PD := (PD st)[i := (PD st ! i)\<lparr>tx_queue := ds, assemed_data := rest\<rparr>],
                work_chan := work_chan st @ sent\<rparr>))
               (spliter_step L conn d (assemed_data (PD st ! i))))
      else Some (Inr st))"

definition split_step ::
    "('d, 'w MemCacher \<times> 'w) libipt \<Rightarrow> nat \<Rightarrow> 'w online \<Rightarrow> 'w online res option" where
  "split_step L i st = split_with L (connected st) i st"

definition work_step ::
    "build \<Rightarrow> ('d, 'w MemCacher \<times> 'w) libipt \<Rightarrow> (u32 \<Rightarrow> u32) \<Rightarrow> 'w ioctl \<Rightarrow> ('w \<Rightarrow> u64)
     \<Rightarrow> nat \<Rightarrow> 'w online \<Rightarrow> 'w online res option" where
  "work_step b L ctl_code ioctl ptr i st =
     (if i < length (PD st) then
        (case (worker (PD st ! i), work_chan st) of
           (Some cacher, d # ds) \<Rightarrow>
             map_option (map_sum id (\<lambda>(cnt, data, cacher', w). st\<lparr>
                PD := (PD st)[i := (PD st ! i)\<lparr>pd_data := data, worker := Some cacher'\<rparr>],
                work_chan := ds, drv_world := w\<rparr>))
               (decode b L ctl_code ioctl ptr (DEV_HANDLE st) (PID st) d cacher (pd_data (PD st ! i)) (drv_world st))
         | _ \<Rightarrow> Some (Inr st))
      else Some (Inr st))"

datatype online_event = Feed nat bytes nat | CtrlC | Split nat | Work nat

fun online_step ::
    "build \<Rightarrow> ('d, 'w MemCacher \<times> 'w) libipt \<Rightarrow> (u32 \<Rightarrow> u32) \<Rightarrow> 'w ioctl \<Rightarrow> ('w \<Rightarrow> u64)
     \<Rightarrow> online_event \<Rightarrow> 'w online \<Rightarrow> 'w online res option" where
  "online_step b L ctl_code ioctl ptr (Feed i buff sz) st = Some (map_sum id snd (processor i buff sz st))"
| "online_step b L ctl_code ioctl ptr CtrlC st = Some (Inr (st\<lparr>G_STOP := True\<rparr>))"
| "online_step b L ctl_code ioctl ptr (Split i) st = split_step L i st"
| "online_step b L ctl_code ioctl ptr (Work i) st = work_step b L ctl_code ioctl ptr i st"

fun online_run ::
    "build \<Rightarrow> ('d, 'w MemCacher \<times> 'w) libipt \<Rightarrow> (u32 \<Rightarrow> u32) \<Rightarrow> 'w ioctl \<Rightarrow> ('w \<Rightarrow> u64)
     \<Rightarrow> online_event list \<Rightarrow> 'w online \<Rightarrow> 'w online res option" where
  "online_run b L ctl_code ioctl ptr [] st = Some (Inr st)"
| "online_run b L ctl_code ioctl ptr (e # es) st =
     (case online_step b L ctl_code ioctl ptr e st of
        None \<Rightarrow> None
      | Some (Inl f) \<Rightarrow> Some (Inl f)
      | Some (Inr st') \<Rightarrow> online_run b L ctl_code ioctl ptr es st')"

text \<open>
  Joining the splitters and then the workers returns once their channels are closed and empty.
\<close>

definition wait_for_complete :: "'w online \<Rightarrow> bool" where
  "wait_for_complete st \<longleftrightarrow> list_all (\<lambda>pd. tx_queue pd = []) (PD st) \<and> work_chan st = []"

definition collect_all_data :: "build \<Rightarrow> 'w online \<Rightarrow> page_table res" where
  "collect_all_data b st = res_fold (\<lambda>pd data. merge_table b (pd_data pd) data) (PD st) []"

section \<open>Decoding one piece\<close>

text \<open>
  What is asked of the decoder library here: what it yields next depends only on the decoder
  and on the bytes of memory in the range it asks for, whoever supplies them: \<open>nxt\<close>, for the
  memory at hand.
\<close>

definition cb_reads :: "('s \<Rightarrow> bool) \<Rightarrow> (u64 \<Rightarrow> nat \<Rightarrow> bool) \<Rightarrow> (u64 \<Rightarrow> u8) \<Rightarrow> 's image_callback \<Rightarrow> bool" where
  "cb_reads I rng mem cb \<longleftrightarrow> (\<forall>s a buf. I s \<longrightarrow> rng a (length buf) \<longrightarrow>
     (\<exists>s'. cb buf a s = Inr (of_nat (length buf), mem_bytes mem a (length buf), s') \<and> I s'))"

definition mem_only ::
    "('d, 's) libipt \<Rightarrow> (u64 \<Rightarrow> nat \<Rightarrow> bool) \<Rightarrow> (u64 \<Rightarrow> u8) \<Rightarrow> ('d \<Rightarrow> (pt_error_code + u64) \<times> 'd) \<Rightarrow> bool" where
  "mem_only L rng mem nxt \<longleftrightarrow> (\<forall>I cb d s. cb_reads I rng mem cb \<longrightarrow> I s \<longrightarrow>
     (\<exists>s'. lib_next L cb d s = Inr (fst (nxt d), snd (nxt d), s') \<and> I s'))"

text \<open>The instructions a piece yields, resynchronising in between.\<close>

inductive yields :: "('d, 's) libipt \<Rightarrow> ('d \<Rightarrow> (pt_error_code + u64) \<times> 'd) \<Rightarrow> 'd \<Rightarrow> u64 list \<Rightarrow> bool"
  for L nxt where
  y_finished: "nxt d = (Inl code, d') \<Longrightarrow> code \<noteq> Nosync \<Longrightarrow> code \<noteq> BadQuery \<Longrightarrow> yields L nxt d []"
| y_no_more_syncs: "nxt d = (Inl code, d') \<Longrightarrow> code = Nosync \<or> code = BadQuery
     \<Longrightarrow> lib_sync_forward L d' = Inl e \<Longrightarrow> yields L nxt d []"
| y_resync: "nxt d = (Inl code, d') \<Longrightarrow> code = Nosync \<or> code = BadQuery
     \<Longrightarrow> lib_sync_forward L d' = Inr d'' \<Longrightarrow> yields L nxt d'' ips \<Longrightarrow> yields L nxt d ips"
| y_insn: "nxt d = (Inr ip, d') \<Longrightarrow> drain_events L d' = Some d'' \<Longrightarrow> yields L nxt d'' ips
     \<Longrightarrow> yields L nxt d (ip # ips)"

definition piece_yields ::
    "('d, 's) libipt \<Rightarrow> ('d \<Rightarrow> (pt_error_code + u64) \<times> 'd) \<Rightarrow> bytes \<Rightarrow> u64 list \<Rightarrow> bool" where
  "piece_yields L nxt piece ips \<longleftrightarrow> (\<exists>d. lib_new L piece = Some d
     \<and> (case lib_sync_forward L d of
          Inl e \<Rightarrow> ips = []
        | Inr d1 \<Rightarrow> \<exists>d2. drain_events L d1 = Some d2 \<and> yields L nxt d2 ips))"

lemma yields_decodes:
  assumes "yields L nxt d ips" and mo: "mem_only L rng mem nxt" and cb: "cb_reads I rng mem cb" and "I s"
  shows "\<exists>s'. decodes L cb d s ips s' \<and> I s'"
  using assms(1,4)
proof (induction arbitrary: s rule: yields.induct)
  case (y_finished d code d')
  obtain s1 where s1: "lib_next L cb d s = Inr (Inl code, d', s1)" "I s1"
    using mo cb y_finished unfolding mem_only_def by (metis fst_conv snd_conv)
  with decodes.finished [OF s1(1)] y_finished show ?case by blast
next
  case (y_no_more_syncs d code d' e)
  obtain s1 where s1: "lib_next L cb d s = Inr (Inl code, d', s1)" "I s1"
    using mo cb y_no_more_syncs unfolding mem_only_def by (metis fst_conv snd_conv)
  with decodes.no_more_syncs [OF s1(1)] y_no_more_syncs show ?case by blast
next
  case (y_resync d code d' d'' ips)
  obtain s1 where s1: "lib_next L cb d s = Inr (Inl code, d', s1)" "I s1"
    using mo cb y_resync unfolding mem_only_def by (metis fst_conv snd_conv)
  with decodes.resync [OF s1(1) y_resync.hyps(2,3)] y_resync.IH show ?case by blast
next
  case (y_insn d ip d' d'' ips)
  obtain s1 where s1: "lib_next L cb d s = Inr (Inr ip, d', s1)" "I s1"
    using mo cb y_insn unfolding mem_only_def by (metis fst_conv snd_conv)
  with decodes.insn [OF s1(1) y_insn.hyps(2)] y_insn.IH show ?case by blast
qed

text \<open>Reading the process through the cache, with a driver that serves every request.\<close>

definition full_cache :: "(u64 \<Rightarrow> u8) \<Rightarrow> 'w MemCacher \<times> 'w \<Rightarrow> bool" where
  "full_cache mem = (\<lambda>(c, w). coherent mem c \<and> (\<exists>rd. reader_fn c = Some rd \<and> faithful rd mem \<and> reads_all rd))"

lemma image_cb_reads: "cb_reads (full_cache mem) cache_range mem (image_cb b)"
  unfolding cb_reads_def
proof (intro allI impI)
  fix s :: "'a MemCacher \<times> 'a" and a :: u64 and buf :: bytes
  obtain c w where s: "s = (c, w)" by (cases s)
  assume "full_cache mem s" and rng: "cache_range a (length buf)"
  with s obtain rd where rd: "coherent mem c" "reader_fn c = Some rd" "faithful rd mem" "reads_all rd"
    by (auto simp: full_cache_def)
  from get_content_ok [OF rd(1-3), of a buf b w] rng rd(4) obtain c' w' where
    "get_content b buf a (c, w) = Inr (of_nat (length buf), mem_bytes mem a (length buf), c', w')"
    "coherent mem c'" "reader_fn c' = Some rd" by (auto simp: cache_range_def)
  moreover have "ucast (of_nat (length buf) :: u64) = (of_nat (length buf) :: u32)"
    using rng by (simp add: cache_range_def word_eq_iff_unsigned [where ?'a = nat] unsigned_ucast_eq
        take_bit_eq_mod unat_of_nat)
  ultimately show "\<exists>s'. image_cb b buf a s = Inr (of_nat (length buf), mem_bytes mem a (length buf), s')
      \<and> full_cache mem s'"
    using rd s by (auto simp: image_cb_def full_cache_def)
qed

lemma decode_piece:
  assumes yl: "piece_yields L nxt piece ips" and mo: "mem_only L cache_range mem nxt"
    and rd: "faithful f mem" "reads_all f" and co: "coherent mem c"
    and wf: "wf_table t" and fits: "\<forall>x. unat (count_at t x) + count_list ips x < 2 ^ 64" "length ips < 2 ^ 64"
  shows "\<exists>t' c' w'. decode_with b L f piece c t w = Some (Inr (of_nat (length ips), t', c', w'))
     \<and> coherent mem c' \<and> res_fold (record_hit b) ips t = Inr t'"
proof -
  from yl obtain d where d: "lib_new L piece = Some d" and
    run: "case lib_sync_forward L d of Inl e \<Rightarrow> ips = []
        | Inr d1 \<Rightarrow> \<exists>d2. drain_events L d1 = Some d2 \<and> yields L nxt d2 ips"
    by (auto simp: piece_yields_def)
  show ?thesis
  proof (cases "lib_sync_forward L d")
    case (Inl e)
    with d run co show ?thesis by (simp add: decode_with_def)
  next
    case (Inr d1)
    with run obtain d2 where d2: "drain_events L d1 = Some d2" "yields L nxt d2 ips" by auto
    have "full_cache mem (c\<lparr>reader_fn := Some f\<rparr>, w)"
      using rd co by (simp add: full_cache_def coherent_set_reader)
    from yields_decodes [OF d2(2) mo image_cb_reads this] obtain c' w' where
      dc: "decodes L (image_cb b) d2 (c\<lparr>reader_fn := Some f\<rparr>, w) ips (c', w')" "full_cache mem (c', w')"
      by fastforce
    from decode_loop_run [OF dc(1), of 0 t b] wf fits obtain t' where
      "decode_loop b L (image_cb b) d2 (c\<lparr>reader_fn := Some f\<rparr>, w) 0 t = Some (Inr (of_nat (length ips), t', c', w'))"
      "res_fold (record_hit b) ips t = Inr t'" by auto
    with d Inr d2(1) dc(2) show ?thesis by (simp add: decode_with_def full_cache_def)
  qed
qed

section \<open>The pipeline's invariant\<close>

text \<open>
  \<open>fed i es\<close>: the messages processor \<open>i\<close>'s splitter was sent; \<open>pieces offs i es\<close>: the pieces of
  its trace; \<open>all_pieces offs n es\<close>: those of all processors.
\<close>

definition fed :: "nat \<Rightarrow> online_event list \<Rightarrow> bytes list" where
  "fed i es = concat (map (\<lambda>e. case e of
     Feed j buff sz \<Rightarrow> if j = i \<and> sz > 0 then [take sz buff] else [] | _ \<Rightarrow> []) es)"

definition segs :: "(bytes \<Rightarrow> nat list) \<Rightarrow> bytes list \<Rightarrow> bytes list" where
  "segs offs ms = segments (concat ms) (offs (concat ms))"

definition all_pieces :: "(bytes \<Rightarrow> nat list) \<Rightarrow> nat \<Rightarrow> online_event list \<Rightarrow> bytes list" where
  "all_pieces offs n es = concat (map (\<lambda>i. segs offs (fed i es)) [0..<n])"

definition ok_event :: "nat \<Rightarrow> online_event \<Rightarrow> bool" where
  "ok_event n e = (case e of Feed i buff sz \<Rightarrow> i < n \<and> sz \<le> length buff | _ \<Rightarrow> True)"

lemma fed_append [simp]: "fed i (es @ fs) = fed i es @ fed i fs"
  by (simp add: fed_def)

lemma fed_single [simp]:
  "fed i [Feed j buff sz] = (if j = i \<and> sz > 0 then [take sz buff] else [])"
  "fed i [CtrlC] = []" "fed i [Split k] = []" "fed i [Work k] = []" "fed i [] = []"
  by (simp_all add: fed_def)

lemma fed_not_Nil: "\<forall>e \<in> set es. ok_event n e \<Longrightarrow> d \<in> set (fed i es) \<Longrightarrow> d \<noteq> []"
  by (induction es) (auto simp: fed_def ok_event_def split: online_event.splits if_splits)

lemma segs_prefix:
  assumes "sync_points offs"
  shows "\<exists>more. segs offs (ms @ ns) = segs offs ms @ more"
proof -
  let ?d = "concat ms" and ?e = "concat ns"
  obtain ps where ps: "offs (?d @ ?e) = offs ?d @ ps" using sync_pointsD(3) [OF assms] by blast
  have "segments (?d @ ?e) (offs ?d) = segments ?d (offs ?d)"
    using sync_pointsD(2) [OF assms, of _ ?d] by (intro segments_data_append) (auto intro: less_imp_le)
  then show ?thesis using segments_snoc_last [of "offs ?d" "?d @ ?e" ps]
    by (cases "offs ?d = []") (auto simp: segs_def ps)
qed

text \<open>
  \<open>handled i\<close>: the messages splitter \<open>i\<close> has handled; \<open>dn i\<close>: the pieces worker \<open>i\<close> has decoded.
\<close>

definition online_inv ::
    "build \<Rightarrow> (bytes \<Rightarrow> nat list) \<Rightarrow> (u64 \<Rightarrow> u8) \<Rightarrow> (bytes \<Rightarrow> u64 list) \<Rightarrow> nat \<Rightarrow> usize \<Rightarrow> usize
     \<Rightarrow> (nat \<Rightarrow> bytes list) \<Rightarrow> (nat \<Rightarrow> bytes list) \<Rightarrow> (nat \<Rightarrow> bytes list) \<Rightarrow> 'w online \<Rightarrow> bool" where
  "online_inv b offs mem ips_of n h pid fd handled dn st \<longleftrightarrow>
     length (PD st) = n \<and> DEV_HANDLE st = h \<and> PID st = pid \<and> 2 \<le> n
     \<and> (\<forall>i < n. fd i = handled i @ tx_queue (PD st ! i)
          \<and> assemed_data (PD st ! i) = rest_of (concat (handled i)) (offs (concat (handled i)))
          \<and> (worker (PD st ! i) = None \<longleftrightarrow> i = n - 1)
          \<and> (case worker (PD st ! i) of None \<Rightarrow> dn i = [] | Some c \<Rightarrow> coherent mem c)
          \<and> res_fold (record_hit b) (concat (map ips_of (dn i))) [] = Inr (pd_data (PD st ! i)))
     \<and> mset (concat (map (\<lambda>i. segs offs (handled i)) [0..<n])) =
         mset (work_chan st) + mset (concat (map dn [0..<n]))"

lemma online_inv_connected:
  assumes "online_inv b offs mem ips_of n h pid fd handled dn st"
  shows "connected st"
proof -
  have "0 < length (PD st)" "worker (PD st ! 0) \<noteq> None"
    using assms by (auto simp: online_inv_def)
  then show ?thesis unfolding connected_def list_ex_iff by (meson nth_mem)
qed

lemma mset_concat_update:
  assumes "i < n"
  shows "mset (concat (map (f(i := f i @ xs)) [0..<n])) = mset (concat (map f [0..<n])) + mset xs"
proof -
  have "[0..<n] = [0..<i] @ i # [Suc i..<n]"
    using assms upt_add_eq_append [of 0 i "n - i"] upt_conv_Cons [of i n] by simp
  moreover have "map (f(i := f i @ xs)) [0..<i] = map f [0..<i]"
    "map (f(i := f i @ xs)) [Suc i..<n] = map f [Suc i..<n]" by auto
  ultimately show ?thesis by simp
qed

lemma online_inv_feed:
  assumes inv: "online_inv b offs mem ips_of n h pid fd handled dn st" and i: "i < n" and d: "d = take sz buff" "0 < sz" "sz \<le> length buff"
  shows "\<exists>st'. processor i buff sz st = Inr (\<not> G_STOP st, st')
     \<and> online_inv b offs mem ips_of n h pid (fd(i := fd i @ [d])) handled dn st'"
proof -
  let ?pd = "PD st ! i"
  let ?st = "st\<lparr>PD := (PD st)[i := ?pd\<lparr>tx_queue := tx_queue ?pd @ [d]\<rparr>]\<rparr>"
  have "processor i buff sz st = Inr (\<not> G_STOP st, ?st)"
    using inv i d by (simp add: processor_def online_inv_def index_at_def slice_def)
  moreover have "online_inv b offs mem ips_of n h pid (fd(i := fd i @ [d])) handled dn ?st"
    using inv i unfolding online_inv_def by (auto simp: nth_list_update)
  ultimately show ?thesis by blast
qed

text \<open>A splitter that handles a message sends the pieces the message completes.\<close>

lemma split_with_cuts:
  assumes L: "syncs_at L offs" "sync_points offs" and q: "i < length (PD st)" "tx_queue (PD st ! i) = d # ds"
    and rest: "assemed_data (PD st ! i) = rest_of (concat ms) (offs (concat ms))"
    and d: "d \<noteq> []" "length (concat ms @ d) < 2 ^ 64"
  shows "\<exists>new. split_with L True i st = Some (Inr (st\<lparr>PD := (PD st)[i := (PD st ! i)\<lparr>tx_queue := ds,
        assemed_data := rest_of (concat (ms @ [d])) (offs (concat (ms @ [d])))\<rparr>], work_chan := work_chan st @ new\<rparr>))
     \<and> segs offs (ms @ [d]) = segs offs ms @ new"
proof -
  from spliter_step_segments [OF L d] obtain new where new:
    "spliter_step L True d (rest_of (concat ms) (offs (concat ms)))
       = Some (Inr (new, rest_of (concat ms @ d) (offs (concat ms @ d))))"
    "segments (concat ms @ d) (offs (concat ms @ d)) = segments (concat ms) (offs (concat ms)) @ new" by blast
  with q rest show ?thesis by (intro exI [of _ new]) (simp add: split_with_def segs_def)
qed

lemma online_inv_split:
  assumes inv: "online_inv b offs mem ips_of n h pid fd handled dn st"
    and L: "syncs_at L offs" "sync_points offs"
    and ne: "\<forall>i < n. (\<forall>e \<in> set (fd i). e \<noteq> []) \<and> length (concat (fd i)) < 2 ^ 64"
  shows "\<exists>st' handled'. split_step L i st = Some (Inr st')
     \<and> online_inv b offs mem ips_of n h pid fd handled' dn st'"
proof (cases "i < n \<and> tx_queue (PD st ! i) \<noteq> []")
  case False
  then have "split_step L i st = Some (Inr st)"
    using inv by (auto simp: split_step_def split_with_def online_inv_def)
  with inv show ?thesis by blast
next
  case True
  then obtain d ds where q: "i < n" "tx_queue (PD st ! i) = d # ds" by (cases "tx_queue (PD st ! i)") auto
  have fd: "fd i = handled i @ d # ds" and len: "length (PD st) = n"
    and rest: "assemed_data (PD st ! i) = rest_of (concat (handled i)) (offs (concat (handled i)))"
    using inv q by (auto simp: online_inv_def)
  have "d \<noteq> []" "length (concat (handled i) @ d) < 2 ^ 64" using ne [rule_format, OF q(1)] by (simp_all add: fd)
  from split_with_cuts [OF L _ q(2) rest this] q(1) len obtain new where new:
    "split_with L True i st = Some (Inr (st\<lparr>PD := (PD st)[i := (PD st ! i)\<lparr>tx_queue := ds,
        assemed_data := rest_of (concat (handled i @ [d])) (offs (concat (handled i @ [d])))\<rparr>], work_chan := work_chan st @ new\<rparr>))"
    "segs offs (handled i @ [d]) = segs offs (handled i) @ new" by blast
  let ?st = "st\<lparr>PD := (PD st)[i := (PD st ! i)\<lparr>tx_queue := ds,
        assemed_data := rest_of (concat (handled i @ [d])) (offs (concat (handled i @ [d])))\<rparr>], work_chan := work_chan st @ new\<rparr>"
  let ?handled = "handled(i := handled i @ [d])"
  have step: "split_step L i st = Some (Inr ?st)"
    using new(1) online_inv_connected [OF inv] by (simp add: split_step_def)
  have upd: "map (\<lambda>j. segs offs (?handled j)) [0..<n] = map ((\<lambda>j. segs offs (handled j))(i := segs offs (handled i) @ new)) [0..<n]"
    using new(2) by auto
  have "mset (concat (map (\<lambda>j. segs offs (?handled j)) [0..<n])) =
      mset (concat (map (\<lambda>j. segs offs (handled j)) [0..<n])) + mset new"
    unfolding upd by (rule mset_concat_update [OF q(1)])
  then have "online_inv b offs mem ips_of n h pid fd ?handled dn ?st"
    using inv q(1) fd unfolding online_inv_def by (auto simp: nth_list_update)
  with step show ?thesis by blast
qed

text \<open>The instructions of some pieces, and what bounds them.\<close>

definition insns :: "(bytes \<Rightarrow> u64 list) \<Rightarrow> bytes list \<Rightarrow> u64 list" where
  "insns ips_of ps = concat (map ips_of ps)"

lemma count_insns: "count_list (insns ips_of ps) x = (\<Sum>p \<in># mset ps. count_list (ips_of p) x)"
  by (induction ps) (auto simp: insns_def)

lemma length_insns: "length (insns ips_of ps) = (\<Sum>p \<in># mset ps. length (ips_of p))"
  by (induction ps) (auto simp: insns_def)

lemma length_insns_mono:
  assumes "mset ps \<subseteq># mset qs"
  shows "length (insns ips_of ps) \<le> length (insns ips_of qs)"
  unfolding length_insns using assms by (auto simp: subset_mset.le_iff_add)

lemma mset_concat_member: "i < n \<Longrightarrow> mset (f i) \<subseteq># mset (concat (map f [0..<n]))"
proof (induction n)
  case (Suc n)
  then show ?case by (cases "i = n") (auto intro: subset_mset.order_trans)
qed simp

lemma decode_unfold: "decode b L ctl_code ioctl ptr h pid = decode_with b L (decode_reader ctl_code ioctl ptr h pid)"
  by (rule decode_def)

lemma online_inv_work:
  assumes inv: "online_inv b offs mem ips_of n h pid fd handled dn st"
    and rd: "faithful (decode_reader ctl_code ioctl ptr h pid) mem" "reads_all (decode_reader ctl_code ioctl ptr h pid)"
    and mo: "mem_only L cache_range mem nxt"
    and yl: "\<forall>p \<in> set (concat (map (\<lambda>i. segs offs (handled i)) [0..<n])). piece_yields L nxt p (ips_of p)"
    and fits: "length (insns ips_of (concat (map (\<lambda>i. segs offs (handled i)) [0..<n]))) < 2 ^ 64"
  shows "\<exists>st' dn'. work_step b L ctl_code ioctl ptr i st = Some (Inr st')
     \<and> online_inv b offs mem ips_of n h pid fd handled dn' st'"
proof (cases "i < n \<and> worker (PD st ! i) \<noteq> None \<and> work_chan st \<noteq> []")
  case False
  then have "work_step b L ctl_code ioctl ptr i st = Some (Inr st)"
    using inv by (auto simp: work_step_def online_inv_def split: option.split list.split)
  with inv show ?thesis by blast
next
  case True
  then obtain c d ds where i: "i < n" and c: "worker (PD st ! i) = Some c" and q: "work_chan st = d # ds"
    by (cases "work_chan st") auto
  let ?t = "pd_data (PD st ! i)" and ?all = "concat (map (\<lambda>i. segs offs (handled i)) [0..<n])"
  have len: "length (PD st) = n" "DEV_HANDLE st = h" "PID st = pid" and co: "coherent mem c"
    and t: "res_fold (record_hit b) (insns ips_of (dn i)) [] = Inr ?t"
    and ms: "mset ?all = mset (d # ds) + mset (concat (map dn [0..<n]))"
    using inv i c q by (auto simp: online_inv_def insns_def)
  have "mset (dn i @ [d]) \<subseteq># mset (concat (map dn [0..<n])) + {#d#}"
    using mset_concat_member [OF i, of dn] by simp
  also have "\<dots> \<subseteq># mset ?all" unfolding ms by (simp add: subset_mset.add_mono)
  finally have "length (insns ips_of (dn i @ [d])) \<le> length (insns ips_of ?all)" by (rule length_insns_mono)
  then have small: "length (insns ips_of (dn i) @ ips_of d) < 2 ^ 64"
    using fits by (simp add: insns_def)
  have cnt: "wf_table ?t \<and> (\<forall>x. unat (count_at ?t x) = count_list (insns ips_of (dn i)) x)"
  proof -
    have "\<forall>x. unat (count_at [] x) + count_list (insns ips_of (dn i)) x < 2 ^ 64"
    proof
      fix x
      show "unat (count_at [] x) + count_list (insns ips_of (dn i)) x < 2 ^ 64"
        using small count_le_length [of "insns ips_of (dn i)" x] by simp
    qed
    from table.hits_exact [OF wf_table_Nil this, of b] t show ?thesis by auto
  qed
  have "\<forall>x. unat (count_at ?t x) + count_list (ips_of d) x < 2 ^ 64"
  proof
    fix x
    show "unat (count_at ?t x) + count_list (ips_of d) x < 2 ^ 64"
      using small count_le_length [of "insns ips_of (dn i) @ ips_of d" x] cnt by simp
  qed
  moreover have "length (ips_of d) < 2 ^ 64" using small by simp
  moreover have "d \<in># mset ?all" unfolding ms by simp
  then have "d \<in> set ?all" by (simp only: set_mset_mset)
  with yl have "piece_yields L nxt d (ips_of d)" by blast
  ultimately obtain t' c' w' where dec:
    "decode b L ctl_code ioctl ptr h pid d c ?t (drv_world st) = Some (Inr (of_nat (length (ips_of d)), t', c', w'))"
    "coherent mem c'" "res_fold (record_hit b) (ips_of d) ?t = Inr t'"
    unfolding decode_unfold using decode_piece [OF _ mo rd co] cnt by blast
  let ?st = "st\<lparr>PD := (PD st)[i := (PD st ! i)\<lparr>pd_data := t', worker := Some c'\<rparr>],
                work_chan := ds, drv_world := w'\<rparr>"
  let ?dn = "dn(i := dn i @ [d])"
  have "work_step b L ctl_code ioctl ptr i st = Some (Inr ?st)"
    using i len c q dec(1) by (simp add: work_step_def)
  moreover have "mset ?all = mset ds + mset (concat (map ?dn [0..<n]))"
    unfolding mset_concat_update [OF i] ms by simp
  moreover have "res_fold (record_hit b) (concat (map ips_of (dn i @ [d]))) [] = Inr t'"
    using t dec(3) by (simp add: insns_def res_fold_append)
  ultimately have "work_step b L ctl_code ioctl ptr i st = Some (Inr ?st)
      \<and> online_inv b offs mem ips_of n h pid fd handled ?dn ?st"
    using inv i c dec(2) unfolding online_inv_def by (auto simp: nth_list_update)
  then show ?thesis by blast
qed

text \<open>The setting of a run: a driver, a library and the memory of the traced process.\<close>

definition online_setting ::
    "('d, 'w MemCacher \<times> 'w) libipt \<Rightarrow> (bytes \<Rightarrow> nat list) \<Rightarrow> ('d \<Rightarrow> (pt_error_code + u64) \<times> 'd)
     \<Rightarrow> (u32 \<Rightarrow> u32) \<Rightarrow> 'w ioctl \<Rightarrow> ('w \<Rightarrow> u64) \<Rightarrow> usize \<Rightarrow> usize \<Rightarrow> (u64 \<Rightarrow> u64 \<Rightarrow> u8) \<Rightarrow> bool" where
  "online_setting L offs nxt ctl_code ioctl ptr h pid mem \<longleftrightarrow>
     syncs_at L offs \<and> sync_points offs \<and> drv_reads ctl_code ioctl mem
     \<and> reads_all (decode_reader ctl_code ioctl ptr h pid)
     \<and> mem_only L cache_range (mem (ucast (ucast pid :: u32))) nxt"

lemma online_setting_faithful:
  "online_setting L offs nxt ctl_code ioctl ptr h pid mem \<Longrightarrow>
     faithful (decode_reader ctl_code ioctl ptr h pid) (mem (ucast (ucast pid :: u32)))"
  using decode_reader_faithful by (auto simp: online_setting_def)

text \<open>A schedule is feasible if its traces fit the machine and each of its pieces decodes.\<close>

definition feasible ::
    "('d, 's) libipt \<Rightarrow> (bytes \<Rightarrow> nat list) \<Rightarrow> ('d \<Rightarrow> (pt_error_code + u64) \<times> 'd) \<Rightarrow> (bytes \<Rightarrow> u64 list)
     \<Rightarrow> nat \<Rightarrow> online_event list \<Rightarrow> bool" where
  "feasible L offs nxt ips_of n es \<longleftrightarrow> (\<forall>e \<in> set es. ok_event n e)
     \<and> (\<forall>i < n. length (concat (fed i es)) < 2 ^ 64)
     \<and> (\<forall>p \<in> set (all_pieces offs n es). piece_yields L nxt p (ips_of p))
     \<and> length (insns ips_of (all_pieces offs n es)) < 2 ^ 64"

lemma mset_concat_prefix:
  assumes "\<And>i. i < n \<Longrightarrow> \<exists>more. g i = f i @ more"
  shows "mset (concat (map f [0..<n])) \<subseteq># mset (concat (map g [0..<n]))"
  using assms
proof (induction n)
  case (Suc n)
  obtain more where "g n = f n @ more" using Suc.prems [of n] by blast
  with Suc show ?case by (simp add: subset_mset.add_mono)
qed simp

lemma all_pieces_mono:
  assumes "sync_points offs"
  shows "mset (all_pieces offs n es) \<subseteq># mset (all_pieces offs n (es @ fs))"
  unfolding all_pieces_def using segs_prefix [OF assms] by (intro mset_concat_prefix) simp

lemma feasible_sub:
  assumes ps: "mset ps \<subseteq># mset (all_pieces offs n es)" and fe: "feasible L offs nxt ips_of n es"
  shows "\<forall>p \<in> set ps. piece_yields L nxt p (ips_of p)" and "length (insns ips_of ps) < 2 ^ 64"
proof -
  have "set ps \<subseteq> set (all_pieces offs n es)" using set_mset_mono [OF ps] by simp
  with fe show "\<forall>p \<in> set ps. piece_yields L nxt p (ips_of p)" unfolding feasible_def by blast
  show "length (insns ips_of ps) < 2 ^ 64"
    using length_insns_mono [OF ps, of ips_of] fe by (simp add: feasible_def)
qed

lemma feasible_prefix:
  assumes "sync_points offs" and fe: "feasible L offs nxt ips_of n (es @ fs)"
  shows "feasible L offs nxt ips_of n es"
proof -
  have "length (concat (fed i es)) < 2 ^ 64" if "i < n" for i
  proof -
    have "length (concat (fed i (es @ fs))) < 2 ^ 64" using fe that unfolding feasible_def by blast
    then show ?thesis by simp
  qed
  with feasible_sub [OF all_pieces_mono [OF assms(1)] fe] fe show ?thesis
    unfolding feasible_def by simp
qed

lemma handled_pieces:
  assumes "sync_points offs" and "online_inv b offs mem ips_of n h pid (\<lambda>i. fed i es) handled dn st"
  shows "mset (concat (map (\<lambda>i. segs offs (handled i)) [0..<n])) \<subseteq># mset (all_pieces offs n es)"
  unfolding all_pieces_def
proof (rule mset_concat_prefix)
  fix i assume "i < n"
  then have "fed i es = handled i @ tx_queue (PD st ! i)" using assms(2) by (simp add: online_inv_def)
  then show "\<exists>more. segs offs (fed i es) = segs offs (handled i) @ more"
    using segs_prefix [OF assms(1)] by simp
qed

lemma online_run_snoc:
  "online_run b L ctl_code ioctl ptr es st = Some (Inr st1) \<Longrightarrow>
   online_run b L ctl_code ioctl ptr (es @ fs) st = online_run b L ctl_code ioctl ptr fs st1"
  by (induction es arbitrary: st) (auto split: option.splits sum.splits)

lemma create_workers_all:
  "0 < n \<Longrightarrow> create_workers (n - 1) (replicate n ProcessorData_new) =
     Inr (replicate (n - 1) (ProcessorData_new\<lparr>worker := Some MemCacher_new\<rparr>) @ [ProcessorData_new])"
  by (simp add: create_workers_def min_def)

lemma create_env_some:
  assumes env: "create_env b n clock file_size h pid dk w = Inr st" and n: "n < 2 ^ 64"
  shows "0 < n" and "PD st = replicate (n - 1) (ProcessorData_new\<lparr>worker := Some MemCacher_new\<rparr>) @ [ProcessorData_new]"
    and "DEV_HANDLE st = h" and "PID st = pid" and "work_chan st = []"
proof -
  obtain k pds where k: "usub b (of_nat n) (1 :: usize) = Inr k"
    "create_workers (unat k) (replicate n ProcessorData_new) = Inr pds" "PD st = pds"
    and rest: "DEV_HANDLE st = h" "PID st = pid" "work_chan st = []"
    using env unfolding create_env_def Let_def by (auto simp: res_simps split: prod.splits)
  have "n \<noteq> 0"
  proof
    assume "n = 0"
    then have "k = - 1" using usub_value [OF k(1)] by simp
    then have "unat k = 2 ^ 64 - 1" by (simp add: unsigned_minus_1_eq_mask mask_eq_exp_minus_1)
    with k(2) \<open>n = 0\<close> show False by (simp add: create_workers_def)
  qed
  then show "0 < n" by simp
  have un: "unat (of_nat n :: usize) = n" using n by (simp add: unat_of_nat)
  have le: "(1 :: usize) \<le> of_nat n" using \<open>0 < n\<close> un by (simp add: word_le_nat_alt)
  have "unat k = n - 1" using usub_value [OF k(1)] unat_sub [OF le] un by simp
  show "PD st = replicate (n - 1) (ProcessorData_new\<lparr>worker := Some MemCacher_new\<rparr>) @ [ProcessorData_new]"
    using k(2,3) unfolding \<open>unat k = n - 1\<close> create_workers_all [OF \<open>0 < n\<close>] by simp
  show "DEV_HANDLE st = h" "PID st = pid" "work_chan st = []" by (fact rest)+
qed

lemma online_inv_env:
  assumes env: "create_env b n clock file_size h pid dk w = Inr st" and n: "2 \<le> n" "n < 2 ^ 64"
    and "sync_points offs"
  shows "online_inv b offs mem ips_of n h pid (\<lambda>_. []) (\<lambda>_. []) (\<lambda>_. []) st"
proof -
  have "offs [] = []" using sync_pointsD(2) [OF assms(4), of _ "[]"] by (cases "offs []") auto
  note PD = create_env_some(2) [OF env n(2)] and rest = create_env_some(3-5) [OF env n(2)]
  have nth: "PD st ! i = (if i = n - 1 then ProcessorData_new else ProcessorData_new\<lparr>worker := Some MemCacher_new\<rparr>)"
    if "i < n" for i
    using that by (auto simp: PD nth_append)
  have "length (PD st) = n" using n(1) by (simp add: PD)
  moreover have "segs offs [] = []"
    using \<open>offs [] = []\<close> by (simp add: segs_def)
  ultimately show ?thesis using n(1) \<open>offs [] = []\<close> rest
    by (auto simp: online_inv_def nth ProcessorData_new_def rest_of_def coherent_new)
qed

lemma online_reach:
  assumes se: "online_setting L offs nxt ctl_code ioctl ptr h pid mem"
    and env: "create_env b n clock file_size h pid dk w = Inr st0" and n: "2 \<le> n" "n < 2 ^ 64"
    and fe: "feasible L offs nxt ips_of n es"
  shows "\<exists>st handled dn. online_run b L ctl_code ioctl ptr es st0 = Some (Inr st)
     \<and> online_inv b offs (mem (ucast (ucast pid :: u32))) ips_of n h pid (\<lambda>i. fed i es) handled dn st"
  using fe
proof (induction es rule: rev_induct)
  case Nil
  show ?case using online_inv_env [OF env n] se by (fastforce simp: online_setting_def)
next
  case (snoc e es)
  let ?mem = "mem (ucast (ucast pid :: u32))"
  have L: "syncs_at L offs" "sync_points offs" "mem_only L cache_range ?mem nxt"
    "reads_all (decode_reader ctl_code ioctl ptr h pid)"
    using se by (simp_all add: online_setting_def)
  note fe' = feasible_prefix [OF L(2) snoc.prems]
  from snoc.IH [OF fe'] obtain st handled dn where
    run: "online_run b L ctl_code ioctl ptr es st0 = Some (Inr st)"
    and inv: "online_inv b offs ?mem ips_of n h pid (\<lambda>i. fed i es) handled dn st" by blast
  have ok: "ok_event n e" using snoc.prems by (simp add: feasible_def)
  have "\<exists>st' handled' dn'. online_step b L ctl_code ioctl ptr e st = Some (Inr st')
     \<and> online_inv b offs ?mem ips_of n h pid (\<lambda>i. fed i (es @ [e])) handled' dn' st'"
  proof (cases e)
    case (Feed i buff sz)
    with ok have i: "i < n" "sz \<le> length buff" by (simp_all add: ok_event_def)
    show ?thesis
    proof (cases "0 < sz")
      case True
      have "(\<lambda>j. fed j (es @ [e])) = (\<lambda>j. fed j es)(i := fed i es @ [take sz buff])"
        using Feed True by auto
      moreover obtain st' where "processor i buff sz st = Inr (\<not> G_STOP st, st')"
        "online_inv b offs ?mem ips_of n h pid ((\<lambda>j. fed j es)(i := fed i es @ [take sz buff])) handled dn st'"
        using online_inv_feed [OF inv i(1) refl True i(2)] by blast
      ultimately show ?thesis using Feed by (intro exI [of _ st'] exI [of _ handled] exI [of _ dn]) simp
    next
      case False
      then have "processor i buff sz st = Inr (\<not> G_STOP st, st)"
        using i inv by (simp add: processor_def index_at_def online_inv_def)
      with inv Feed False show ?thesis by auto
    qed
  next
    case CtrlC
    with inv show ?thesis by (auto simp: online_inv_def)
  next
    case (Split i)
    have "\<forall>i < n. (\<forall>d \<in> set (fed i es). d \<noteq> []) \<and> length (concat (fed i es)) < 2 ^ 64"
      using fe' fed_not_Nil [of es n] by (auto simp: feasible_def)
    from online_inv_split [OF inv L(1,2) this, of i] Split show ?thesis by auto
  next
    case (Work i)
    note sub = feasible_sub [OF handled_pieces [OF L(2) inv] fe']
    from online_inv_work [OF inv online_setting_faithful [OF se] L(4,3) sub, of i] Work show ?thesis by auto
  qed
  then obtain st' handled' dn' where st': "online_step b L ctl_code ioctl ptr e st = Some (Inr st')"
    "online_inv b offs ?mem ips_of n h pid (\<lambda>i. fed i (es @ [e])) handled' dn' st'" by blast
  then have "online_run b L ctl_code ioctl ptr (es @ [e]) st0 = Some (Inr st')"
    by (simp add: online_run_snoc [OF run])
  with st'(2) show ?case by blast
qed

section \<open>Collecting\<close>

lemma collect_map: "collect_all_data b st = res_fold (merge_table b) (map pd_data (PD st)) []"
proof -
  have "res_fold (\<lambda>pd data. merge_table b (pd_data pd) data) pds t = res_fold (merge_table b) (map pd_data pds) t"
    for pds :: "'a ProcessorData list" and t
    by (induction pds arbitrary: t) (auto intro!: res_bind_cong)
  then show ?thesis by (simp add: collect_all_data_def)
qed

lemma mset_concat_insns: "count_list (concat (map (\<lambda>i. insns ips_of (f i)) ks)) x =
    count_list (insns ips_of (concat (map f ks))) x"
  by (induction ks) (simp_all add: insns_def)

lemma length_concat_insns: "length (concat (map (\<lambda>i. insns ips_of (f i)) ks)) =
    length (insns ips_of (concat (map f ks)))"
  by (induction ks) (simp_all add: insns_def)

lemma collect_exact:
  assumes inv: "online_inv b offs mem ips_of n h pid (\<lambda>i. fed i es) handled dn st"
    and fin: "wait_for_complete st"
    and fits: "length (insns ips_of (all_pieces offs n es)) < 2 ^ 64"
  shows "\<exists>t. collect_all_data b st = Inr t \<and> wf_table t
     \<and> (\<forall>x. unat (count_at t x) = count_list (insns ips_of (all_pieces offs n es)) x)"
proof -
  have len: "length (PD st) = n" using inv by (simp add: online_inv_def)
  have idle: "tx_queue (PD st ! i) = []" if "i < n" for i
    using fin that len by (simp add: wait_for_complete_def list_all_length)
  then have "fed i es = handled i" if "i < n" for i
    using inv that by (simp add: online_inv_def)
  then have eq: "map (\<lambda>i. segs offs (handled i)) [0..<n] = map (\<lambda>i. segs offs (fed i es)) [0..<n]" by simp
  have "mset (concat (map (\<lambda>i. segs offs (handled i)) [0..<n])) =
      mset (work_chan st) + mset (concat (map dn [0..<n]))"
    using inv by (simp add: online_inv_def)
  then have all: "mset (all_pieces offs n es) = mset (concat (map dn [0..<n]))"
    using fin unfolding eq by (simp add: wait_for_complete_def all_pieces_def)
  let ?bs = "map (\<lambda>i. insns ips_of (dn i)) [0..<n]" and ?ts = "map pd_data (PD st)"
  have "length (concat ?bs) = length (insns ips_of (concat (map dn [0..<n])))"
    by (rule length_concat_insns)
  also have "\<dots> = length (insns ips_of (all_pieces offs n es))" by (simp only: length_insns all)
  finally have "length (concat ?bs) < 2 ^ 64" using fits by simp
  moreover have "list_all2 (\<lambda>as t. res_fold (record_hit b) as [] = Inr t) ?bs ?ts"
    using inv len by (auto simp: list_all2_conv_all_nth online_inv_def insns_def)
  ultimately obtain t where t: "res_fold (merge_table b) ?ts [] = Inr t" "wf_table t"
    "\<forall>x. unat (count_at t x) = count_list (concat ?bs) x"
    using table.workers_exact [of ?bs b ?ts] by blast
  have "count_list (concat ?bs) x = count_list (insns ips_of (all_pieces offs n es)) x" for x
    unfolding mset_concat_insns count_insns all ..
  with t show ?thesis by (simp add: collect_map)
qed

text \<open>Splitters and workers can always finish: every message and piece is taken by some step.\<close>

definition only_drains :: "online_event list \<Rightarrow> bool" where
  "only_drains es \<longleftrightarrow> (\<forall>e \<in> set es. case e of Split i \<Rightarrow> True | Work i \<Rightarrow> True | _ \<Rightarrow> False)"

lemma only_drains_fed: "only_drains es \<Longrightarrow> fed i es = []"
  by (induction es) (auto simp: only_drains_def fed_def split: online_event.splits)

lemma feasible_drains:
  assumes "feasible L offs nxt ips_of n es" and "only_drains fs"
  shows "feasible L offs nxt ips_of n (es @ fs)"
proof -
  have "ok_event n e" if "e \<in> set fs" for e
    using assms(2) that by (cases e) (auto simp: only_drains_def ok_event_def)
  then show ?thesis using assms only_drains_fed [OF assms(2)]
    by (auto simp: feasible_def all_pieces_def)
qed

lemma split_step_queue:
  assumes "split_step L i st = Some (Inr st')" and "i < length (PD st)" and "tx_queue (PD st ! i) = d # ds"
  shows "(\<Sum>pd \<leftarrow> PD st'. length (tx_queue pd)) < (\<Sum>pd \<leftarrow> PD st. length (tx_queue pd))"
proof -
  from assms obtain r where
    "spliter_step L (connected st) d (assemed_data (PD st ! i)) = Some r" by (auto simp: split_step_def split_with_def)
  with assms obtain sent rest where st': "PD st' = (PD st)[i := (PD st ! i)\<lparr>tx_queue := ds, assemed_data := rest\<rparr>]"
    by (cases r) (auto simp: split_step_def split_with_def)
  have "map (\<lambda>pd. length (tx_queue pd)) (PD st') = (map (\<lambda>pd. length (tx_queue pd)) (PD st))[i := length ds]"
    by (simp add: st' map_update)
  moreover have "sum_list ((map (\<lambda>pd. length (tx_queue pd)) (PD st))[i := length ds]) + 1 =
      (\<Sum>pd \<leftarrow> PD st. length (tx_queue pd))"
    using assms(2,3) elem_le_sum_list [of i "map (\<lambda>pd. length (tx_queue pd)) (PD st)"]
    by (subst sum_list_update) auto
  ultimately show ?thesis by simp
qed

lemma work_step_frame:
  assumes "work_step b L ctl_code ioctl ptr i st = Some (Inr st')" and "i < length (PD st)"
    and "worker (PD st ! i) = Some c" and "work_chan st = d # ds"
  shows "work_chan st' = ds" and "map tx_queue (PD st') = map tx_queue (PD st)"
proof -
  from assms obtain r where "decode b L ctl_code ioctl ptr (DEV_HANDLE st) (PID st) d c (pd_data (PD st ! i)) (drv_world st) = Some r"
    by (auto simp: work_step_def)
  with assms obtain data c' w where
    st': "st' = st\<lparr>PD := (PD st)[i := (PD st ! i)\<lparr>pd_data := data, worker := Some c'\<rparr>], work_chan := ds, drv_world := w\<rparr>"
    by (cases r) (auto simp: work_step_def)
  then show "work_chan st' = ds" by simp
  have "map tx_queue ((PD st)[i := (PD st ! i)\<lparr>pd_data := data, worker := Some c'\<rparr>]) =
      (map tx_queue (PD st))[i := map tx_queue (PD st) ! i]"
    using assms(2) by (simp add: map_update)
  with st' show "map tx_queue (PD st') = map tx_queue (PD st)" by simp
qed

lemma all_idle_iff: "list_all (\<lambda>pd. tx_queue pd = []) pds \<longleftrightarrow> set (map tx_queue pds) \<subseteq> {[]}"
  by (auto simp: list_all_iff)

lemma splitters_finish:
  assumes se: "online_setting L offs nxt ctl_code ioctl ptr h pid mem"
    and env: "create_env b n clock file_size h pid dk w = Inr st0" and n: "2 \<le> n" "n < 2 ^ 64"
    and "feasible L offs nxt ips_of n es" and "online_run b L ctl_code ioctl ptr es st0 = Some (Inr st)"
  shows "\<exists>fs st'. only_drains fs \<and> online_run b L ctl_code ioctl ptr (es @ fs) st0 = Some (Inr st')
     \<and> list_all (\<lambda>pd. tx_queue pd = []) (PD st')"
  using assms(5-)
proof (induction "\<Sum>pd \<leftarrow> PD st. length (tx_queue pd)" arbitrary: es st rule: less_induct)
  case less
  show ?case
  proof (cases "list_all (\<lambda>pd. tx_queue pd = []) (PD st)")
    case True
    with less.prems show ?thesis by (intro exI [of _ "[]"] exI [of _ st]) (simp add: only_drains_def)
  next
    case False
    then obtain i d ds where i: "i < length (PD st)" "tx_queue (PD st ! i) = d # ds"
      by (auto simp: list_all_length neq_Nil_conv)
    have drain: "only_drains [Split i]" by (simp add: only_drains_def)
    have fe: "feasible L offs nxt ips_of n (es @ [Split i])" using feasible_drains [OF less.prems(1) drain] .
    from online_reach [OF se env n fe] obtain st1 where
      st1: "online_run b L ctl_code ioctl ptr (es @ [Split i]) st0 = Some (Inr st1)" by blast
    then have "split_step L i st = Some (Inr st1)"
      by (simp add: online_run_snoc [OF less.prems(2)] split: option.splits sum.splits)
    from less.hyps [OF split_step_queue [OF this i] fe st1] obtain fs st' where
      "only_drains fs" "online_run b L ctl_code ioctl ptr ((es @ [Split i]) @ fs) st0 = Some (Inr st')"
      "list_all (\<lambda>pd. tx_queue pd = []) (PD st')" by blast
    then show ?thesis by (intro exI [of _ "Split i # fs"] exI [of _ st']) (simp add: only_drains_def)
  qed
qed

lemma workers_finish:
  assumes se: "online_setting L offs nxt ctl_code ioctl ptr h pid mem"
    and env: "create_env b n clock file_size h pid dk w = Inr st0" and n: "2 \<le> n" "n < 2 ^ 64"
    and "feasible L offs nxt ips_of n es" and "online_run b L ctl_code ioctl ptr es st0 = Some (Inr st)"
    and "list_all (\<lambda>pd. tx_queue pd = []) (PD st)"
  shows "\<exists>fs st'. only_drains fs \<and> online_run b L ctl_code ioctl ptr (es @ fs) st0 = Some (Inr st')
     \<and> wait_for_complete st'"
  using assms(5-)
proof (induction "work_chan st" arbitrary: es st)
  case Nil
  then show ?case by (intro exI [of _ "[]"] exI [of _ st]) (simp add: only_drains_def wait_for_complete_def)
next
  case (Cons d ds)
  have drain: "only_drains [Work 0]" by (simp add: only_drains_def)
  have fe: "feasible L offs nxt ips_of n (es @ [Work 0])" using feasible_drains [OF Cons.prems(1) drain] .
  from online_reach [OF se env n fe] obtain st1 where
    st1: "online_run b L ctl_code ioctl ptr (es @ [Work 0]) st0 = Some (Inr st1)" by blast
  then have step: "work_step b L ctl_code ioctl ptr 0 st = Some (Inr st1)"
    by (simp add: online_run_snoc [OF Cons.prems(2)] split: option.splits sum.splits)
  from online_reach [OF se env n Cons.prems(1)] Cons.prems(2) obtain c where
    c: "0 < length (PD st)" "worker (PD st ! 0) = Some c" by (fastforce simp: online_inv_def)
  note frame = work_step_frame [OF step c Cons.hyps(2) [symmetric]]
  have "list_all (\<lambda>pd. tx_queue pd = []) (PD st1)"
    using Cons.prems(3) unfolding all_idle_iff frame(2) .
  from Cons.hyps(1) [OF frame(1) [symmetric] fe st1 this] obtain fs st' where
    "only_drains fs" "online_run b L ctl_code ioctl ptr ((es @ [Work 0]) @ fs) st0 = Some (Inr st')"
    "wait_for_complete st'" by blast
  then show ?case by (intro exI [of _ "Work 0 # fs"] exI [of _ st']) (simp add: only_drains_def)
qed

lemma online_finishes:
  assumes "online_setting L offs nxt ctl_code ioctl ptr h pid mem"
    and "create_env b n clock file_size h pid dk w = Inr st0" and "2 \<le> n" and "n < 2 ^ 64"
    and "feasible L offs nxt ips_of n es"
  shows "\<exists>fs st t. only_drains fs \<and> online_run b L ctl_code ioctl ptr (es @ fs) st0 = Some (Inr st)
     \<and> wait_for_complete st \<and> collect_all_data b st = Inr t \<and> wf_table t
     \<and> (\<forall>x. unat (count_at t x) = count_list (insns ips_of (all_pieces offs n es)) x)"
proof -
  from online_reach [OF assms] obtain st1 where
    "online_run b L ctl_code ioctl ptr es st0 = Some (Inr st1)" by blast
  from splitters_finish [OF assms this] obtain fs st2 where fs: "only_drains fs"
    "online_run b L ctl_code ioctl ptr (es @ fs) st0 = Some (Inr st2)"
    "list_all (\<lambda>pd. tx_queue pd = []) (PD st2)" by blast
  from workers_finish [OF assms(1-4) feasible_drains [OF assms(5) fs(1)] fs(2,3)] obtain gs st where
    gs: "only_drains gs" "online_run b L ctl_code ioctl ptr ((es @ fs) @ gs) st0 = Some (Inr st)"
    "wait_for_complete st" by blast
  have drain: "only_drains (fs @ gs)" using fs(1) gs(1) by (auto simp: only_drains_def)
  have pieces: "all_pieces offs n (es @ fs @ gs) = all_pieces offs n es"
    using only_drains_fed [OF drain] by (simp add: all_pieces_def)
  note fe = feasible_drains [OF assms(5) drain]
  from online_reach [OF assms(1-4) fe] gs(2) obtain handled dn where
    "online_inv b offs (mem (ucast (ucast pid :: u32))) ips_of n h pid (\<lambda>i. fed i (es @ fs @ gs)) handled dn st"
    by auto
  from collect_exact [OF this gs(3)] fe obtain t where "collect_all_data b st = Inr t" "wf_table t"
    "\<forall>x. unat (count_at t x) = count_list (insns ips_of (all_pieces offs n es)) x"
    unfolding feasible_def pieces by blast
  with drain gs(2,3) show ?thesis by (intro exI [of _ "fs @ gs"] exI [of _ st] exI [of _ t]) simp
qed

section \<open>Properties\<close>


text \<open>
  Also: from every state of a run, the splitters and workers can empty their
  channels, after which joining them returns and the collected counts are those of the traces.
\<close>

theorem online_completes:
  assumes "online_setting L offs nxt ctl_code ioctl ptr h pid mem"
    and "create_env b n clock file_size h pid dk w = Inr st0" and "2 \<le> n" and "n < 2 ^ 64"
    and "feasible L offs nxt ips_of n es"
  shows "\<exists>fs st t. only_drains fs \<and> online_run b L ctl_code ioctl ptr (es @ fs) st0 = Some (Inr st)
     \<and> wait_for_complete st \<and> collect_all_data b st = Inr t
     \<and> (\<forall>x. unat (count_at t x) = count_list (insns ips_of (all_pieces offs n es)) x)"
  using online_finishes [OF assms] by blast

text \<open>
  Also: \<open>create_env\<close> starts one worker less than there are processors. With no
  processors it panics in either build; with one there is no worker, and the splitter panics
  at the first message that completes a piece.
\<close>

theorem online_env_workers:
  assumes "create_env b n clock file_size h pid dk w = Inr st0" and "n < 2 ^ 64"
    and "syncs_at L offs" and "sync_points offs" and "length buff < 2 ^ 64" and "offs buff = p # q # ps"
  shows "0 < n \<and> length (filter (\<lambda>pd. worker pd \<noteq> None) (PD st0)) = n - 1
     \<and> (n = 1 \<longrightarrow> online_run b L ctl_code ioctl ptr [Feed 0 buff (length buff), Split 0] st0 = Some (Inl UnwrapErr))"
proof -
  note env = create_env_some [OF assms(1,2)]
  have "length (filter (\<lambda>pd. worker pd \<noteq> None) (PD st0)) = n - 1"
    by (simp add: env(2) ProcessorData_new_def)
  moreover have "online_run b L ctl_code ioctl ptr [Feed 0 buff (length buff), Split 0] st0 = Some (Inl UnwrapErr)"
    if "n = 1"
  proof -
    have "buff \<noteq> []" using sync_pointsD(2) [OF assms(4), of p buff] assms(6) by auto
    with spliter_disconnected [OF assms(3,4) this assms(5,6)] show ?thesis
      using that env(2) by (simp add: processor_def index_at_def slice_def split_step_def split_with_def connected_def
          ProcessorData_new_def)
  qed
  ultimately show ?thesis using env(1) by blast
qed

section \<open>A concrete run\<close>

text \<open>
  For the witnesses: a library that finds the packets of \<open>psb\<close> and yields one instruction, at
  \<open>0x2000\<close>, after each.
\<close>

definition one_lib :: "(nat \<times> nat list \<times> bool, 's) libipt" where
  "one_lib = \<lparr>lib_new = (\<lambda>data. Some (0, occurrences psb data, False)),
     lib_sync_forward = (\<lambda>(p, ps, f). case ps of [] \<Rightarrow> Inl (OtherCode 1) | q # qs \<Rightarrow> Inr (q, qs, True)),
     lib_sync_offset = (\<lambda>(p, ps, f). Inr (of_nat p)),
     lib_event = (\<lambda>d. (Inl (OtherCode 1), d)),
     lib_next = (\<lambda>cb (p, ps, f) s. Inr (if f then Inr 0x2000 else Inl (OtherCode 1), (p, ps, False), s))\<rparr>"

definition one_nxt :: "nat \<times> nat list \<times> bool \<Rightarrow> (pt_error_code + u64) \<times> nat \<times> nat list \<times> bool" where
  "one_nxt = (\<lambda>(p, ps, f). (if f then Inr 0x2000 else Inl (OtherCode 1), (p, ps, False)))"

definition one_ips :: "bytes \<Rightarrow> u64 list" where
  "one_ips d = (if occurrences psb d = [] then [] else [0x2000])"

lemma one_lib_chain: "sync_chain one_lib (p, ps, f) (map of_nat ps)"
  by (induction ps arbitrary: p f) (auto simp: one_lib_def)

lemma one_lib_syncs: "syncs_at one_lib (occurrences psb)"
  unfolding syncs_at_def using one_lib_chain by (fastforce simp: one_lib_def)

lemma one_lib_mem_only: "mem_only one_lib rng mem one_nxt"
  by (auto simp: mem_only_def one_lib_def one_nxt_def)

lemma one_drain: "drain_events one_lib x = Some x"
  by (subst drain_events.simps) (simp add: one_lib_def)

lemma one_yields: "yields one_lib one_nxt (p, ps, True) [0x2000]"
proof (rule y_insn [OF _ one_drain])
  show "one_nxt (p, ps, True) = (Inr 0x2000, (p, ps, False))" by (simp add: one_nxt_def)
  show "yields one_lib one_nxt (p, ps, False) []"
    by (rule y_finished [where code = "OtherCode 1"]) (simp_all add: one_nxt_def)
qed

lemma one_lib_new: "lib_new one_lib d = Some (0, occurrences psb d, False)"
    "lib_sync_forward one_lib (0, q # qs, False) = Inr (q, qs, True)"
  by (simp_all add: one_lib_def)

lemma one_piece: "piece_yields one_lib one_nxt d (one_ips d)"
proof (cases "occurrences psb d")
  case Nil
  then show ?thesis by (simp add: piece_yields_def one_ips_def one_lib_def)
next
  case (Cons q qs)
  then show ?thesis
    unfolding piece_yields_def one_ips_def
    by (intro exI [of _ "(0, q # qs, False)"]) (simp add: one_lib_new one_drain one_yields)
qed

lemma const_drv_serves: "reads_all (decode_reader id (const_drv x) ptr h pid)"
  by (auto simp: reads_all_def decode_reader_def read_process_memory_drv_def const_drv_def res_simps
      split: if_splits)

lemma one_setting:
  "online_setting one_lib (occurrences psb) one_nxt id (const_drv 7) (\<lambda>_. 0) h pid (\<lambda>_ _. 7)"
  by (simp add: online_setting_def one_lib_syncs psb_points const_drv_reads const_drv_serves one_lib_mem_only)

lemma some_env:
  assumes "0 < n" and "n < 2 ^ 64"
  shows "\<exists>st0. create_env b n clock [] 1 5 dk () = Inr st0"
proof -
  have un: "unat (of_nat n :: usize) = n" using assms by (simp add: unat_of_nat)
  have le: "(1 :: usize) \<le> of_nat n" using assms(1) un by (simp add: word_le_nat_alt)
  have "unat (of_nat n - 1 :: usize) = n - 1" using unat_sub [OF le] un by simp
  then show ?thesis using usub_ok [OF le, of b]
    by (auto simp: create_env_def create_workers_def set_file_size_def to_uppercase_def ends_with_def Let_def
      split: prod.split)
qed

definition demo_trace :: bytes where
  "demo_trace = psb @ 1 # psb @ [2] @ psb"

lemma demo_trace: "occurrences psb demo_trace = [0, 17, 34]" "length demo_trace = 50"
  by code_simp+

lemma demo_pieces: "segments demo_trace [0, 17, 34] = [psb @ [1], psb @ [2]]"
    "insns one_ips [psb @ [1], psb @ [2]] = [0x2000, 0x2000]"
  by code_simp+

lemma demo_feasible:
  assumes "\<And>i. fed i es = (if i = 0 then [demo_trace] else [])" and "\<forall>e \<in> set es. ok_event 2 e"
  shows "feasible one_lib (occurrences psb) one_nxt one_ips 2 es"
    and "all_pieces (occurrences psb) 2 es = [psb @ [1], psb @ [2]]"
proof -
  have "occurrences psb [] = []" by code_simp
  then have two: "segs (occurrences psb) [demo_trace] = [psb @ [1], psb @ [2]]" "segs (occurrences psb) [] = []"
    by (simp_all add: segs_def demo_trace(1) demo_pieces(1) del: segments.simps(1))
  show *: "all_pieces (occurrences psb) 2 es = [psb @ [1], psb @ [2]]"
    by (simp add: all_pieces_def assms(1) two upt_rec)
  show "feasible one_lib (occurrences psb) one_nxt one_ips 2 es"
    using assms(2) unfolding feasible_def * by (simp add: assms(1) demo_trace demo_pieces one_piece)
qed

definition no_files :: disk where
  "no_files = \<lparr>names = (\<lambda>_. None), contents = (\<lambda>_. []), fresh = 0\<rparr>"

definition demo_events :: "online_event list" where
  "demo_events = [Feed 0 demo_trace 50, Split 0, CtrlC, Work 0]"

lemma demo_events: "fed i demo_events = (if i = 0 then [demo_trace] else [])" "\<forall>e \<in> set demo_events. ok_event 2 e"
  by (simp_all add: demo_events_def fed_def ok_event_def demo_trace)


theorem online_completes_witness:
  "\<exists>st0 fs st t. create_env Release 2 (\<lambda>_. 0) [] 1 5 no_files () = Inr st0
     \<and> online_run Release one_lib id (const_drv 7) (\<lambda>_. 0) (demo_events @ fs) st0 = Some (Inr st)
     \<and> collect_all_data Release st = Inr t \<and> unat (count_at t 0x2000) = 2"
proof -
  obtain st0 where st0: "create_env Release 2 (\<lambda>_. 0) [] 1 5 no_files () = Inr st0" using some_env [of 2, simplified] by blast
  have two: "count_list (insns one_ips (all_pieces (occurrences psb) 2 demo_events)) 0x2000 = 2"
    by (simp add: demo_feasible(2) [OF demo_events] demo_pieces)
  from online_completes [OF one_setting st0 _ _ demo_feasible(1) [OF demo_events]] obtain fs st t where
    "online_run Release one_lib id (const_drv 7) (\<lambda>_. 0) (demo_events @ fs) st0 = Some (Inr st)"
    "collect_all_data Release st = Inr t"
    "unat (count_at t 0x2000) = count_list (insns one_ips (all_pieces (occurrences psb) 2 demo_events)) 0x2000"
    by auto
  with st0 two show ?thesis by metis
qed

theorem online_env_workers_witness:
  "\<exists>st0. create_env Debug 1 (\<lambda>_. 0) [] 1 5 no_files () = Inr st0
     \<and> online_run Debug one_lib id (const_drv 7) (\<lambda>_. 0) [Feed 0 demo_trace 50, Split 0] st0 = Some (Inl UnwrapErr)"
proof -
  have "(0 :: nat) < 1" "(1 :: nat) < 2 ^ 64" by simp_all
  from some_env [OF this] obtain st0 where st0: "create_env Debug 1 (\<lambda>_. 0) [] 1 5 no_files () = Inr st0" by blast
  have "length demo_trace < 2 ^ 64" by (simp add: demo_trace)
  from online_env_workers [OF st0 _ one_lib_syncs psb_points this demo_trace(1),
      where ctl_code = id and ioctl = "const_drv 7" and ptr = "\<lambda>_. 0"] st0 show ?thesis
    by (auto simp: demo_trace(2))
qed

end
