(* ===== verification/Report.thy ===== *)
theory Report
  imports OnlineProc NativeHelper
begin

text \<open>
  The report of a capture (\<open>write_to_file\<close> in \<open>src/src/bin/online_proc.rs\<close>, the same in
  \<open>server.rs\<close> and \<open>client.rs\<close>): each address that was executed becomes a key, the name of its
  module and its offset there, and the JSON object of the keys and their counts is written to a
  file named after the time.

  The text of the JSON object is made by \<open>serde_json\<close>: \<open>to_json\<close> is an argument.
\<close>

section \<open>Operations\<close>

text \<open>\<open>format!("{} + {}", m.0, m.1)\<close>\<close>

definition report_key :: "string \<times> usize \<Rightarrow> string" where
  "report_key m = fst m @ '' + '' @ dec (unat (snd m))"

definition query_or_dummy :: "build \<Rightarrow> usize \<Rightarrow> Process \<Rightarrow> ((string \<times> usize) \<times> Process) res" where
  "query_or_dummy b addr p =
     res_bind (query_module_info_by_addr b addr p) (\<lambda>(r, p').
     Inr (case r of Inr m \<Rightarrow> m | Inl _ \<Rightarrow> (''dummy'', addr), p'))"

definition report_counter ::
    "build \<Rightarrow> usize \<Rightarrow> nat \<times> InsInfo \<Rightarrow> Process \<times> (string, usize) hash_map
     \<Rightarrow> (Process \<times> (string, usize) hash_map) res" where
  "report_counter b page = (\<lambda>(i, ins) (p, data_wt).
     if exec_cnt ins > 0 then
       res_bind (uadd b page (of_nat i)) (\<lambda>addr.
       res_bind (query_or_dummy b addr p) (\<lambda>(m, p').
       Inr (p', hm_insert data_wt (report_key m) (exec_cnt ins))))
     else Inr (p, data_wt))"

definition report_page ::
    "build \<Rightarrow> usize \<times> page_counts \<Rightarrow> Process \<times> (string, usize) hash_map
     \<Rightarrow> (Process \<times> (string, usize) hash_map) res" where
  "report_page b = (\<lambda>(page, insn) s. res_fold (report_counter b page) (List.enumerate 0 insn) s)"

text \<open>\<open>created\<close>: whether the file could be created; \<open>time\<close>: the seconds since 1970.\<close>

definition write_to_file ::
    "build \<Rightarrow> native_lib \<Rightarrow> ((string, usize) hash_map \<Rightarrow> string) \<Rightarrow> bool \<Rightarrow> nat \<Rightarrow> usize \<Rightarrow> page_table
     \<Rightarrow> (string \<times> string) res" where
  "write_to_file b lib to_json created time pid data =
     res_bind (Process_new lib pid) (\<lambda>p.
     if \<not> created then Inl (Expect ''Create restult.txt failed!'')
     else
       res_bind (res_fold (report_page b) data (p, [])) (\<lambda>(p', data_wt).
       Inr (''result-'' @ dec time @ ''.txt'', to_json data_wt)))"

section \<open>Keys\<close>

text \<open>The key of a module and an offset determines both.\<close>

lemma takeWhile_tail:
  assumes "\<forall>c \<in> set ys. P c" and "\<not> P x"
  shows "takeWhile P (rev (xs @ x # ys)) = rev ys"
  using assms by (simp add: takeWhile_append)

lemma report_key_inj: "report_key m = report_key m' \<longleftrightarrow> m = m'"
proof
  assume eq: "report_key m = report_key m'"
  have key: "report_key k = (fst k @ '' +'') @ CHR '' '' # dec (unat (snd k))" for k
    by (simp add: report_key_def)
  have digits: "takeWhile is_digit (rev (report_key k)) = rev (dec (unat (snd k)))" for k
    unfolding key using dec_digits by (intro takeWhile_tail) (auto simp: is_digit_def digit_value_def)
  have "rev (dec (unat (snd m))) = rev (dec (unat (snd m')))"
    using digits [of m] digits [of m'] eq by simp
  then have o: "dec (unat (snd m)) = dec (unat (snd m'))" by simp
  then have "unat (snd m) = unat (snd m')" using dec_inj by blast
  then have "snd m = snd m'" by (simp add: word_eq_iff_unsigned [where ?'a = nat])
  moreover have "fst m = fst m'" using eq o by (simp add: report_key_def)
  ultimately show "m = m'" by (simp add: prod_eq_iff)
qed simp

text \<open>What an address is reported under.\<close>

definition located :: "ModuleInfo list \<Rightarrow> usize \<Rightarrow> string \<times> usize" where
  "located ms addr = (case resolve ms addr of Inr m \<Rightarrow> m | Inl _ \<Rightarrow> (''dummy'', addr))"

definition names_unique :: "ModuleInfo list \<Rightarrow> bool" where
  "names_unique ms \<longleftrightarrow> distinct (map mod_name ms) \<and> ''dummy'' \<notin> set (map mod_name ms)"

lemma names_uniqueD:
  "names_unique ms \<Longrightarrow> m \<in> set ms \<Longrightarrow> m' \<in> set ms \<Longrightarrow> mod_name m = mod_name m' \<Longrightarrow> m = m'"
  by (auto simp: names_unique_def distinct_map inj_on_def)

lemma names_unique_dummy: "names_unique ms \<Longrightarrow> m \<in> set ms \<Longrightarrow> mod_name m \<noteq> ''dummy''"
  unfolding names_unique_def by (metis image_eqI set_map)

lemma located_cases:
  obtains (known) m where "m \<in> set ms" "located ms addr = (mod_name m, addr - mod_base m)"
  | (unknown) "located ms addr = (''dummy'', addr)"
proof (cases "find (\<lambda>m. covers m addr) ms")
  case None
  then show ?thesis using unknown by (simp add: located_def resolve_def)
next
  case (Some m)
  then show ?thesis using known [of m] find_SomeD [OF Some]
    by (simp add: located_def resolve_def module_offset_def)
qed

lemma located_inj:
  assumes "names_unique ms" and eq: "located ms x = located ms y"
  shows "x = y"
proof (cases ms x rule: located_cases)
  case x: (known m)
  have "mod_name m \<noteq> ''dummy''" using names_unique_dummy [OF assms(1) x(1)] .
  with x(2) eq have "located ms y \<noteq> (''dummy'', y)" by auto
  then obtain m' where y: "m' \<in> set ms" "located ms y = (mod_name m', y - mod_base m')"
    by (cases ms y rule: located_cases) auto
  have "(mod_name m, x - mod_base m) = (mod_name m', y - mod_base m')" using x(2) y(2) eq by simp
  moreover from this have "m = m'" using names_uniqueD [OF assms(1) x(1) y(1)] by blast
  ultimately show ?thesis by auto
next
  case x: unknown
  show ?thesis
  proof (cases ms y rule: located_cases)
    case (known m)
    with x eq names_unique_dummy [OF assms(1) known(1)] show ?thesis by simp
  next
    case unknown
    with x eq show ?thesis by simp
  qed
qed

section \<open>The report against the table\<close>

text \<open>The executed addresses of a table with their counts, in the order they are visited.\<close>

definition executed_page :: "usize \<times> page_counts \<Rightarrow> (usize \<times> usize) list" where
  "executed_page = (\<lambda>(page, insn). map (\<lambda>(i, ins). (page + of_nat i, exec_cnt ins))
     (filter (\<lambda>(i, ins). exec_cnt ins > 0) (List.enumerate 0 insn)))"

definition executed :: "page_table \<Rightarrow> (usize \<times> usize) list" where
  "executed t = concat (map executed_page t)"

definition add_entry :: "ModuleInfo list \<Rightarrow> usize \<times> usize \<Rightarrow> (string, usize) hash_map \<Rightarrow> (string, usize) hash_map" where
  "add_entry ms = (\<lambda>(a, c) wt. hm_insert wt (report_key (located ms a)) c)"

lemma query_or_dummy_located:
  assumes "process_inv ms p"
  shows "\<exists>p'. query_or_dummy b addr p = Inr (located ms addr, p') \<and> process_inv ms p'"
  using modules.ask_law [OF assms, of b addr] by (auto simp: query_or_dummy_def located_def)

lemma report_page_law:
  assumes "page_of page = page" and "length insn = 4096" and "process_inv ms p"
  shows "\<exists>p'. report_page b (page, insn) (p, wt) = Inr (p', fold (add_entry ms) (executed_page (page, insn)) wt)
     \<and> process_inv ms p'"
proof -
  have "\<exists>p'. res_fold (report_counter b page) xs (p, wt) = Inr (p', fold (add_entry ms)
      (map (\<lambda>(i, ins). (page + of_nat i, exec_cnt ins)) (filter (\<lambda>(i, ins). exec_cnt ins > 0) xs)) wt)
     \<and> process_inv ms p'" if "\<forall>(i, ins) \<in> set xs. i < 4096" for xs
    using that assms(3)
  proof (induction xs arbitrary: p wt)
    case (Cons x xs)
    obtain i ins where x: "x = (i, ins)" by (cases x)
    show ?case
    proof (cases "exec_cnt ins > 0")
      case True
      have i: "i < 4096" using Cons.prems x by simp
      have "unat page + unat (of_nat i :: u64) < 2 ^ 64"
        using page_of_add(3) [OF assms(1) i] i u64_less [of "page + of_nat i"] by (simp add: unat_of_nat)
      then have add: "uadd b page (of_nat i) = Inr (page + of_nat i)" by (simp add: uadd_ok)
      obtain p1 where p1: "query_or_dummy b (page + of_nat i) p = Inr (located ms (page + of_nat i), p1)"
        "process_inv ms p1" using query_or_dummy_located [OF Cons.prems(2)] by blast
      from Cons.IH [OF _ p1(2), of "hm_insert wt (report_key (located ms (page + of_nat i))) (exec_cnt ins)"]
      show ?thesis using Cons.prems(1) x True add p1(1)
        by (simp add: report_counter_def add_entry_def)
    next
      case False
      with Cons.IH [OF _ Cons.prems(2), of wt] Cons.prems(1) x show ?thesis by (simp add: report_counter_def)
    qed
  qed simp
  moreover have "\<forall>(i, ins) \<in> set (List.enumerate 0 insn). i < 4096"
    using assms(2) by (auto simp: in_set_enumerate_eq)
  ultimately show ?thesis unfolding report_page_def executed_page_def prod.case by blast
qed

lemma report_pages_law:
  assumes "wf_table t" and "process_inv ms p"
  shows "\<exists>p'. res_fold (report_page b) t (p, wt) = Inr (p', fold (add_entry ms) (executed t) wt) \<and> process_inv ms p'"
proof -
  have "\<forall>(page, insn) \<in> set t. page_of page = page \<and> length insn = 4096"
    using assms(1) by (simp add: wf_table_def)
  then show ?thesis using assms(2)
  proof (induction t arbitrary: p wt)
    case (Cons x t)
    obtain page insn where x: "x = (page, insn)" by (cases x)
    from report_page_law [of page insn ms p b wt] Cons.prems x obtain p1 where
      "report_page b (page, insn) (p, wt) = Inr (p1, fold (add_entry ms) (executed_page (page, insn)) wt)"
      "process_inv ms p1" by auto
    with Cons.IH [of p1 "fold (add_entry ms) (executed_page (page, insn)) wt"] Cons.prems x show ?case
      by (auto simp: executed_def)
  qed (simp add: executed_def)
qed

lemma filter_set_I: "x \<in> set xs \<Longrightarrow> P x \<Longrightarrow> x \<in> set (filter P xs)"
  by simp

lemma executed_iff:
  assumes wf: "wf_table t"
  shows "(a, c) \<in> set (executed t) \<longleftrightarrow> c = count_at t a \<and> 0 < c"
proof
  assume "(a, c) \<in> set (executed t)"
  then obtain page insn i where p: "(page, insn) \<in> set t" "i < length insn"
    "a = page + of_nat i" "c = exec_cnt (insn ! i)" "0 < c"
    by (auto simp: executed_def executed_page_def in_set_enumerate_eq)
  have "page_of page = page" "length insn = 4096" using wf p(1) by (auto simp: wf_table_def)
  moreover have "hm_get t page = Some insn" using wf p(1) by (simp add: wf_table_def hm_wf_map_of [symmetric])
  ultimately show "c = count_at t a \<and> 0 < c"
    using page_of_add(1,2) [of page i] p by (simp add: count_at_def)
next
  assume c: "c = count_at t a \<and> 0 < c"
  then obtain insn where insn: "hm_get t (page_of a) = Some insn" "c = exec_cnt (insn ! unat (page_off a))"
    by (auto simp: count_at_def split: option.splits)
  moreover have "length insn = 4096" using wf_tableD [OF wf insn(1)] by simp
  moreover have "a = page_of a + of_nat (unat (page_off a))" using page_split [of a] by simp
  moreover have "(page_of a, insn) \<in> set t" using map_of_SomeD [OF insn(1)] .
  ultimately have at: "(unat (page_off a), insn ! unat (page_off a)) \<in> set (List.enumerate 0 insn)"
    "a = page_of a + of_nat (unat (page_off a))" "(page_of a, insn) \<in> set t"
    by (simp_all add: in_set_enumerate_eq)
  have "(a, c) \<in> set (executed_page (page_of a, insn))"
    unfolding executed_page_def prod.case set_map
    by (rule image_eqI [OF _ filter_set_I [OF at(1)]]) (use insn(2) c at(2) in auto)
  with at(3) show "(a, c) \<in> set (executed t)" by (auto simp: executed_def)
qed

lemma add_entries_get:
  assumes "\<forall>a c a' c'. (a, c) \<in> set xs \<longrightarrow> (a', c') \<in> set xs \<longrightarrow> located ms a = located ms a' \<longrightarrow> c = c'"
  shows "hm_get (fold (add_entry ms) xs []) k = Some c \<longleftrightarrow>
     (\<exists>a. (a, c) \<in> set xs \<and> report_key (located ms a) = k)"
  using assms
proof (induction xs arbitrary: c rule: rev_induct)
  case (snoc x xs)
  obtain a0 c0 where x: "x = (a0, c0)" by (cases x)
  have last: "fold (add_entry ms) (xs @ [x]) [] =
      hm_insert (fold (add_entry ms) xs []) (report_key (located ms a0)) c0"
    by (simp add: x add_entry_def)
  have same: "c' = c0" if "(a', c') \<in> set xs" "report_key (located ms a') = report_key (located ms a0)" for a' c'
  proof -
    have "(a', c') \<in> set (xs @ [x])" "(a0, c0) \<in> set (xs @ [x])" using that(1) by (simp_all add: x)
    with snoc.prems that(2) show ?thesis unfolding report_key_inj by blast
  qed
  have "\<forall>a c a' c'. (a, c) \<in> set xs \<longrightarrow> (a', c') \<in> set xs \<longrightarrow> located ms a = located ms a' \<longrightarrow> c = c'"
    using snoc.prems by simp
  from snoc.IH [OF this] have IH: "hm_get (fold (add_entry ms) xs []) k = Some c \<longleftrightarrow>
     (\<exists>a. (a, c) \<in> set xs \<and> report_key (located ms a) = k)" .
  show ?case
  proof (cases "k = report_key (located ms a0)")
    case True
    then show ?thesis using same x unfolding last by auto
  next
    case False
    with IH x show ?thesis unfolding last by auto
  qed
qed simp

lemma Process_new_cache:
  assumes "Process_new lib pid = Inr p"
  shows "module_info_cache p = None"
proof (cases "get_module_info lib pid")
  case (Inr r)
  with assms show ?thesis by (cases r) (auto simp: Process_new_def)
qed (use assms in \<open>simp add: Process_new_def\<close>)

lemma add_entries_keys:
  "hm_wf wt \<Longrightarrow> hm_wf (fold (add_entry ms) xs wt)
     \<and> fst ` set (fold (add_entry ms) xs wt) = fst ` set wt \<union> (\<lambda>x. report_key (located ms (fst x))) ` set xs"
proof (induction xs arbitrary: wt)
  case (Cons x xs)
  obtain a c where x: "x = (a, c)" by (cases x)
  let ?wt = "hm_insert wt (report_key (located ms a)) c"
  have "fst ` set ?wt = insert (report_key (located ms a)) (fst ` set wt)" by (simp add: dom_update)
  with Cons.IH [of ?wt] Cons.prems x show ?case by (simp add: add_entry_def)
qed simp

lemma write_to_file_entries:
  assumes "Process_new lib pid = Inr p" and sep: "separated (all_module_info p)" and wf: "wf_table t"
  shows "write_to_file b lib to_json True time pid t = Inr (''result-'' @ dec time @ ''.txt'',
     to_json (fold (add_entry (all_module_info p)) (executed t) []))"
proof -
  have "process_inv (all_module_info p) p"
    using Process_new_cache [OF assms(1)] sep by (simp add: process_inv_def)
  from report_pages_law [OF wf this, of b "[]"] assms(1) show ?thesis by (auto simp: write_to_file_def)
qed

lemma write_to_file_located:
  assumes "Process_new lib pid = Inr p" and "separated (all_module_info p)" and "names_unique (all_module_info p)"
    and wf: "wf_table t"
  shows "\<exists>wt. write_to_file b lib to_json True time pid t = Inr (''result-'' @ dec time @ ''.txt'', to_json wt)
     \<and> (\<forall>k c. hm_get wt k = Some c \<longleftrightarrow>
          (\<exists>a. c = count_at t a \<and> 0 < c \<and> k = report_key (located (all_module_info p) a)))"
proof -
  let ?ms = "all_module_info p"
  have same: "\<forall>a c a' c'. (a, c) \<in> set (executed t) \<longrightarrow> (a', c') \<in> set (executed t)
      \<longrightarrow> located ?ms a = located ?ms a' \<longrightarrow> c = c'"
  proof (intro allI impI)
    fix a c a' c'
    assume "(a, c) \<in> set (executed t)" "(a', c') \<in> set (executed t)" "located ?ms a = located ?ms a'"
    moreover from this(3) have "a = a'" by (rule located_inj [OF assms(3)])
    ultimately show "c = c'" by (simp add: executed_iff [OF wf])
  qed
  have "hm_get (fold (add_entry ?ms) (executed t) []) k = Some c \<longleftrightarrow>
      (\<exists>a. c = count_at t a \<and> 0 < c \<and> k = report_key (located ?ms a))" for k c
    unfolding add_entries_get [OF same] executed_iff [OF wf] by blast
  with write_to_file_entries [OF assms(1,2,4)] show ?thesis by blast
qed

section \<open>Properties\<close>

text \<open>
  C27: when no address is covered by two modules and the modules' names differ, the
  report has one entry for each executed address, under its module and offset, or under
  \<open>dummy\<close> and the address where no module covers it, with the address's count, and no other
  entry; nothing faults, in either build.
\<close>

theorem report_exact:
  assumes "Process_new lib pid = Inr p" and "separated (all_module_info p)" and "names_unique (all_module_info p)"
    and "wf_table t"
  shows "\<exists>wt. write_to_file b lib to_json True time pid t = Inr (''result-'' @ dec time @ ''.txt'', to_json wt)
     \<and> (\<forall>k c. hm_get wt k = Some c \<longleftrightarrow>
          (\<exists>a. c = count_at t a \<and> 0 < c \<and> k = report_key (located (all_module_info p) a)))"
  using assms by (rule write_to_file_located)

text \<open>
  Also: two executed addresses with the same module name and offset, as with
  two modules of one name, share an entry: the report has fewer entries than there are
  executed addresses, and the counts that were overwritten are lost.
\<close>

theorem report_overwrites:
  assumes "Process_new lib pid = Inr p" and "separated (all_module_info p)" and "wf_table t"
    and "located (all_module_info p) x = located (all_module_info p) y" and "x \<noteq> y"
    and "0 < count_at t x" and "0 < count_at t y"
  shows "\<exists>wt. write_to_file b lib to_json True time pid t = Inr (''result-'' @ dec time @ ''.txt'', to_json wt)
     \<and> length wt < card {a. 0 < count_at t a}"
proof -
  let ?ms = "all_module_info p" and ?A = "{a. 0 < count_at t a}"
  let ?key = "\<lambda>a. report_key (located ?ms a)" and ?wt = "fold (add_entry ?ms) (executed t) []"
  have A: "?A = fst ` set (executed t)"
    using executed_iff [OF assms(3)] by (force simp: image_iff)
  have wt: "hm_wf ?wt" "fst ` set ?wt = ?key ` ?A"
    using add_entries_keys [of "[]" ?ms "executed t"] by (simp_all add: A image_image)
  have "length ?wt = card (?key ` ?A)"
    using distinct_card [OF wt(1)] wt(2) by simp
  also have "\<dots> < card ?A"
  proof -
    have fin: "finite ?A" by (simp add: A)
    have "\<not> inj_on ?key ?A" using assms(4-7) unfolding inj_on_def by (metis mem_Collect_eq)
    then have "card (?key ` ?A) \<noteq> card ?A" using eq_card_imp_inj_on [OF fin] by blast
    with card_image_le [OF fin, of ?key] show ?thesis by linarith
  qed
  finally show ?thesis using write_to_file_entries [OF assms(1-3)] by blast
qed

text \<open>
  Also: from the traces to the file: every run of the online processor can be
  completed, and the report it then writes has one entry for each address executed in the
  pieces of the traces, with the number of its executions, and no other.
\<close>

theorem online_report:
  assumes "online_setting L offs nxt ctl_code ioctl ptr h pid mem"
    and "create_env b n clock file_size h pid dk w = Inr st0" and "2 \<le> n" and "n < 2 ^ 64"
    and "feasible L offs nxt ips_of n es"
    and "Process_new lib pid = Inr p" and "separated (all_module_info p)" and "names_unique (all_module_info p)"
  shows "\<exists>fs st t wt. only_drains fs \<and> online_run b L ctl_code ioctl ptr (es @ fs) st0 = Some (Inr st)
     \<and> wait_for_complete st \<and> collect_all_data b st = Inr t
     \<and> write_to_file b lib to_json True time pid t = Inr (''result-'' @ dec time @ ''.txt'', to_json wt)
     \<and> (\<forall>k c. hm_get wt k = Some c \<longleftrightarrow>
          (\<exists>a. unat c = count_list (insns ips_of (all_pieces offs n es)) a \<and> 0 < c
             \<and> k = report_key (located (all_module_info p) a)))"
proof -
  from online_finishes [OF assms(1-5)] obtain fs st t where run: "only_drains fs"
    "online_run b L ctl_code ioctl ptr (es @ fs) st0 = Some (Inr st)" "wait_for_complete st"
    "collect_all_data b st = Inr t" and wf: "wf_table t" and
    cnt: "\<forall>x. unat (count_at t x) = count_list (insns ips_of (all_pieces offs n es)) x" by blast
  have "c = count_at t a \<longleftrightarrow> unat c = count_list (insns ips_of (all_pieces offs n es)) a" for c a
    using cnt by (metis unsigned_word_eqI)
  with write_to_file_located [OF assms(6-8) wf, of b to_json time] run show ?thesis
    by (intro exI [of _ fs] exI [of _ st] exI [of _ t]) simp
qed

section \<open>Concrete reports\<close>

text \<open>A module table of two modules, for the witnesses, and one with a name twice.\<close>

definition mod_a2 :: ModuleInfo where
  "mod_a2 = \<lparr>mod_name = ''a'', mod_base = 0x2000, mod_size = 0x100\<rparr>"

definition two_modules :: "u8 \<Rightarrow> native_lib" where
  "two_modules x = Some (\<lambda>pid n. (2, [\<lparr>inner_name = [97, 0], inner_base = 0x1000, inner_size = 0x100\<rparr>,
     \<lparr>inner_name = [x, 0], inner_base = 0x2000, inner_size = 0x100\<rparr>]))"

lemma two_modules_process:
  "\<exists>p. Process_new (two_modules 99) 5 = Inr p \<and> all_module_info p = [mod_a, mod_c]"
  "\<exists>p. Process_new (two_modules 97) 5 = Inr p \<and> all_module_info p = [mod_a, mod_a2]"
proof -
  have "list_all2 encodes [\<lparr>inner_name = [97, 0], inner_base = 0x1000, inner_size = 0x100\<rparr>,
     \<lparr>inner_name = [99, 0], inner_base = 0x2000, inner_size = 0x100\<rparr>] [mod_a, mod_c]"
    by (simp add: encodes_def mod_a_def mod_c_def name_bytes_def)
  from process_new_modules [OF two_modules_def _ _ this]
  show "\<exists>p. Process_new (two_modules 99) 5 = Inr p \<and> all_module_info p = [mod_a, mod_c]" by simp blast
  have "list_all2 encodes [\<lparr>inner_name = [97, 0], inner_base = 0x1000, inner_size = 0x100\<rparr>,
     \<lparr>inner_name = [97, 0], inner_base = 0x2000, inner_size = 0x100\<rparr>] [mod_a, mod_a2]"
    by (simp add: encodes_def mod_a_def mod_a2_def name_bytes_def)
  from process_new_modules [OF two_modules_def _ _ this]
  show "\<exists>p. Process_new (two_modules 97) 5 = Inr p \<and> all_module_info p = [mod_a, mod_a2]" by simp blast
qed

lemma two_modules_ok:
  "separated [mod_a, mod_c]" "separated [mod_a, mod_a2]" "names_unique [mod_a, mod_c]"
  by (auto simp: separated_def module_fits_def covers_def names_unique_def mod_a_def mod_c_def mod_a2_def)

lemma two_modules_located:
  "located [mod_a, mod_c] 0x2000 = (''c'', 0)"
  "located [mod_a, mod_a2] 0x1000 = located [mod_a, mod_a2] 0x2000"
  by (simp_all add: located_def resolve_def covers_def module_offset_def mod_a_def mod_c_def mod_a2_def)

lemma small_hits:
  "\<exists>t. wf_table t \<and> (\<forall>x. unat (count_at t x) = count_list [0x1000, 0x2000, 0x2000] x)"
proof -
  let ?as = "[0x1000, 0x2000, 0x2000 :: u64]"
  have "\<forall>x. unat (count_at [] x) + count_list ?as x < 2 ^ 64"
  proof
    fix x
    show "unat (count_at [] x) + count_list ?as x < 2 ^ 64"
      using count_le_length [of ?as x] by (simp del: count_list.simps)
  qed
  from table.hits_exact [OF wf_table_Nil this, of Debug] show ?thesis
    by (simp only: count_at_Nil unsigned_0 add_0) blast
qed

lemma dec_zero: "dec 0 = ''0''"
  by code_simp

theorem report_exact_witness:
  "\<exists>t f (wt :: (string, usize) hash_map). wf_table t \<and> write_to_file Debug (two_modules 99) (\<lambda>wt. concat (map fst wt)) True 7 5 t = Inr (f, concat (map fst wt))
     \<and> hm_get wt ''c + 0'' = Some 2"
proof -
  obtain p where p: "Process_new (two_modules 99) 5 = Inr p" "all_module_info p = [mod_a, mod_c]"
    using two_modules_process by blast
  obtain t where t: "wf_table t" "\<forall>x. unat (count_at t x) = count_list [0x1000, 0x2000, 0x2000] x"
    using small_hits by blast
  from t(2) have "unat (count_at t 0x2000) = 2" by simp
  then have two: "count_at t 0x2000 = 2" by (simp add: word_eq_iff_unsigned [where ?'a = nat])
  have mods: "separated (all_module_info p)" "names_unique (all_module_info p)"
    using two_modules_ok p(2) by simp_all
  have key: "''c + 0'' = report_key (located [mod_a, mod_c] 0x2000)"
    by (simp add: two_modules_located report_key_def dec_zero)
  obtain wt :: "(string, usize) hash_map" where
    "write_to_file Debug (two_modules 99) (\<lambda>wt. concat (map fst wt)) True 7 5 t =
       Inr (''result-'' @ dec 7 @ ''.txt'', concat (map fst wt))"
    and wt: "\<forall>k c. hm_get wt k = Some c \<longleftrightarrow> (\<exists>a. c = count_at t a \<and> 0 < c \<and> k = report_key (located [mod_a, mod_c] a))"
    using report_exact [OF p(1) mods t(1), of Debug "\<lambda>wt. concat (map fst wt)" 7] unfolding p(2) by blast
  moreover have "hm_get wt ''c + 0'' = Some 2" unfolding wt [rule_format] key
    by (rule exI [of _ "0x2000"]) (simp add: two)
  ultimately show ?thesis using t(1) by blast
qed

theorem report_overwrites_witness:
  "\<exists>t f (wt :: (string, usize) hash_map). wf_table t \<and> write_to_file Debug (two_modules 97) (\<lambda>wt. concat (map fst wt)) True 7 5 t = Inr (f, concat (map fst wt))
     \<and> length wt < card {a. 0 < count_at t a}"
proof -
  obtain p where p: "Process_new (two_modules 97) 5 = Inr p" "all_module_info p = [mod_a, mod_a2]"
    using two_modules_process by blast
  obtain t where t: "wf_table t" "\<forall>x. unat (count_at t x) = count_list [0x1000, 0x2000, 0x2000] x"
    using small_hits by blast
  have "unat (count_at t 0x1000) = 1" "unat (count_at t 0x2000) = 2" using t(2) by simp_all
  then have pos: "0 < count_at t 0x1000" "0 < count_at t 0x2000" by (simp_all add: word_less_nat_alt)
  have sep: "separated (all_module_info p)" using two_modules_ok(2) p(2) by simp
  have loc: "located (all_module_info p) 0x1000 = located (all_module_info p) 0x2000"
    using two_modules_located(2) p(2) by simp
  have "(0x1000 :: usize) \<noteq> 0x2000" by simp
  from report_overwrites [OF p(1) sep t(1) loc this pos, of Debug "\<lambda>wt. concat (map fst wt)" 7]
  obtain wt :: "(string, usize) hash_map" where "write_to_file Debug (two_modules 97) (\<lambda>wt. concat (map fst wt)) True 7 5 t =
      Inr (''result-'' @ dec 7 @ ''.txt'', concat (map fst wt))"
    "length wt < card {a. 0 < count_at t a}" by blast
  with t(1) show ?thesis by blast
qed

theorem online_report_witness:
  "\<exists>st0 fs st t f (wt :: (string, usize) hash_map). create_env Release 2 (\<lambda>_. 0) [] 1 5 no_files () = Inr st0
     \<and> online_run Release one_lib id (const_drv 7) (\<lambda>_. 0) (demo_events @ fs) st0 = Some (Inr st)
     \<and> collect_all_data Release st = Inr t
     \<and> write_to_file Release (two_modules 99) (\<lambda>wt. concat (map fst wt)) True 7 5 t = Inr (f, concat (map fst wt))
     \<and> hm_get wt ''c + 0'' = Some 2"
proof -
  obtain st0 where st0: "create_env Release 2 (\<lambda>_. 0) [] 1 5 no_files () = Inr st0"
    using some_env [of 2, simplified] by blast
  obtain p where p: "Process_new (two_modules 99) 5 = Inr p" "all_module_info p = [mod_a, mod_c]"
    using two_modules_process by blast
  have mods: "separated (all_module_info p)" "names_unique (all_module_info p)"
    using two_modules_ok p(2) by simp_all
  have n: "(2 :: nat) \<le> 2" "(2 :: nat) < 2 ^ 64" by simp_all
  have two: "unat (2 :: usize) = count_list (insns one_ips (all_pieces (occurrences psb) 2 demo_events)) 0x2000"
    by (simp add: demo_feasible(2) [OF demo_events] demo_pieces)
  have key: "''c + 0'' = report_key (located (all_module_info p) 0x2000)"
    by (simp add: p(2) two_modules_located report_key_def dec_zero)
  from online_report [OF one_setting st0 n demo_feasible(1) [OF demo_events] p(1) mods,
      of "\<lambda>wt. concat (map fst wt)" 7] show ?thesis
  proof (elim exE conjE, goal_cases)
    case (1 fs st t wt)
    have "(0 :: usize) < 2" by simp
    with 1(6) two key have "hm_get wt ''c + 0'' = Some 2" by blast
    with 1(2,4,5) st0 show ?case by blast
  qed
qed

end
