(* ===== verification/Server.thy ===== *)
theory Server
  imports OnlineProc ClientPool
begin

text \<open>
  The server (\<open>src/src/bin/server.rs\<close>): the capture, the splitters and the report are those of
  the online processor, but the worker threads end at once and the pieces go to a task that
  hands them to a pool of decoding clients.

  \<open>base\<close> holds the statics the two programs share; \<open>worker\<close> is \<open>None\<close> for every processor,
  since no worker decodes.
\<close>

section \<open>State\<close>

text \<open>
  The task of \<open>create_client_pool_thread\<close>: spawned but not yet run; serving, with its pool and
  the process id and driver handle the pool was started with; or ended, which drops the only
  receiving end of the channel of pieces.
\<close>

datatype pool_task = Spawned | Serving pool usize usize | Ended

record server =
  base :: "unit online"
  pool_task :: pool_task

definition rx_open :: "server \<Rightarrow> bool" where
  "rx_open s \<longleftrightarrow> pool_task s \<noteq> Ended"

section \<open>Operations\<close>

text \<open>The three calls on the socket are parameters.\<close>

definition get_ip_addr :: "bool \<Rightarrow> bool \<Rightarrow> string option \<Rightarrow> string option" where
  "get_ip_addr bind_ok connect_ok local_addr =
     (if \<not> bind_ok then None
      else if \<not> connect_ok then None
      else case local_addr of Some addr \<Rightarrow> Some addr | None \<Rightarrow> None)"

definition server_create_env ::
    "build \<Rightarrow> nat \<Rightarrow> (nat \<Rightarrow> nat) \<Rightarrow> string \<Rightarrow> disk \<Rightarrow> server res" where
  "server_create_env b cpu_nums clock file_size dk =
     (let pds = replicate cpu_nums ProcessorData_new;
          (wts, s) = make_writers clock [CHR ''x'', CHR '':'', CHR 0x5C] ''dat'' [0..<cpu_nums]
             \<lparr>tasks = [], disk_of = dk\<rparr>
      in res_bind (usub b (of_nat cpu_nums) (1 :: usize)) (\<lambda>n.
         if unat n > length pds then Inl OutOfBounds
         else
           res_bind (set_file_size b file_size (1 * GB)) (\<lambda>fs.
           Inr \<lparr>base = \<lparr>PD = pds, work_chan = [], G_STOP = False, DEV_HANDLE = 0, PID = 0,
                  ON_FILE_SIZE = fs, on_sys = s, drv_world = ()\<rparr>, pool_task = Spawned\<rparr>)))"

text \<open>The last statement of \<open>create_env\<close>; the task runs from before it.\<close>

definition server_set_ids :: "usize \<Rightarrow> usize \<Rightarrow> server \<Rightarrow> server" where
  "server_set_ids dev_handle pid s = s\<lparr>base := (base s)\<lparr>DEV_HANDLE := dev_handle, PID := pid\<rparr>\<rparr>"

text \<open>The task up to its loop; \<open>bound\<close>: whether an address can be bound.\<close>

definition start_pool :: "string option \<Rightarrow> (string \<Rightarrow> bool) \<Rightarrow> server \<Rightarrow> server" where
  "start_pool ip_addr bound s =
     (case pool_task s of
        Spawned \<Rightarrow>
          (case ip_addr of
             Some ip \<Rightarrow>
               (case start_server (bound (ip @ '':6010'')) of
                  Inr client_pool \<Rightarrow> s\<lparr>pool_task := Serving client_pool (PID (base s)) (DEV_HANDLE (base s))\<rparr>
                | Inl e \<Rightarrow> s\<lparr>pool_task := Ended\<rparr>)
           | None \<Rightarrow> s\<lparr>pool_task := Ended\<rparr>)
      | _ \<Rightarrow> s)"

text \<open>One turn of its loop; \<open>None\<close>: it waits. A panic in the pool ends the task.\<close>

definition dispatch :: "server \<Rightarrow> server option" where
  "dispatch s =
     (case (pool_task s, work_chan (base s)) of
        (Serving client_pool pid h, d # ds) \<Rightarrow>
          map_option (\<lambda>r. s\<lparr>base := (base s)\<lparr>work_chan := ds\<rparr>,
             pool_task := (case r of Inl e \<Rightarrow> Ended | Inr p \<Rightarrow> Serving p pid h)\<rparr>)
            (pool_decode d client_pool)
      | _ \<Rightarrow> None)"

definition server_processor :: "nat \<Rightarrow> bytes \<Rightarrow> nat \<Rightarrow> server \<Rightarrow> (bool \<times> server) res" where
  "server_processor i buff sz s =
     res_bind (processor i buff sz (base s)) (\<lambda>(go, st). Inr (go, s\<lparr>base := st\<rparr>))"

definition server_split ::
    "('d, unit MemCacher \<times> unit) libipt \<Rightarrow> nat \<Rightarrow> server \<Rightarrow> server res option" where
  "server_split L i s =
     map_option (map_sum id (\<lambda>st. s\<lparr>base := st\<rparr>)) (split_with L (rx_open s) i (base s))"

text \<open>Only the splitters and the worker threads, which have ended, are joined.\<close>

definition server_wait_for_complete :: "server \<Rightarrow> bool" where
  "server_wait_for_complete s \<longleftrightarrow> list_all (\<lambda>pd. tx_queue pd = []) (PD (base s))"

definition server_collect_all_data :: "build \<Rightarrow> server \<Rightarrow> page_table res" where
  "server_collect_all_data b s = collect_all_data b (base s)"

section \<open>Steps\<close>

text \<open>
  The clients' tasks run by themselves, whatever they receive; publishing, fetching and
  aborting are calls of the pool.
\<close>

definition own_event :: "agent_event \<Rightarrow> bool" where
  "own_event e \<longleftrightarrow> (case e of Publish d \<Rightarrow> False | Fetch t \<Rightarrow> False | Abort \<Rightarrow> False | _ \<Rightarrow> True)"

inductive server_step ::
    "build \<Rightarrow> ('d, unit MemCacher \<times> unit) libipt
     \<Rightarrow> (usize \<Rightarrow> usize \<Rightarrow> u64 \<Rightarrow> usize \<Rightarrow> bytes \<Rightarrow> (usize \<times> bytes) res) \<Rightarrow> server \<Rightarrow> server \<Rightarrow> bool"
  for b L rm where
  feed: "server_processor i buff sz s = Inr (go, s') \<Longrightarrow> server_step b L rm s s'"
| ctrl_c: "server_step b L rm s (s\<lparr>base := (base s)\<lparr>G_STOP := True\<rparr>\<rparr>)"
| split: "server_split L i s = Some (Inr s') \<Longrightarrow> server_step b L rm s s'"
| ids: "server_step b L rm s (server_set_ids dev_handle pid s)"
| start: "server_step b L rm s (start_pool ip_addr bound s)"
| dispatched: "dispatch s = Some s' \<Longrightarrow> server_step b L rm s s'"
| accepted: "pool_task s = Serving p pid h \<Longrightarrow> server_step b L rm s (s\<lparr>pool_task := Serving (accept p) pid h\<rparr>)"
| client: "pool_task s = Serving p pid h \<Longrightarrow> clients p = cs @ Some a # ds \<Longrightarrow> own_event e
    \<Longrightarrow> agent_step b (rm pid h) a e a'
    \<Longrightarrow> server_step b L rm s (s\<lparr>pool_task := Serving (p\<lparr>clients := cs @ Some a' # ds\<rparr>) pid h\<rparr>)"

inductive server_reach ::
    "build \<Rightarrow> ('d, unit MemCacher \<times> unit) libipt
     \<Rightarrow> (usize \<Rightarrow> usize \<Rightarrow> u64 \<Rightarrow> usize \<Rightarrow> bytes \<Rightarrow> (usize \<times> bytes) res) \<Rightarrow> server \<Rightarrow> bool"
  for b L rm where
  sr_start: "server_create_env b cpu_nums clock file_size dk = Inr s \<Longrightarrow> server_reach b L rm s"
| sr_step: "server_reach b L rm s \<Longrightarrow> server_step b L rm s s' \<Longrightarrow> server_reach b L rm s'"

section \<open>Invariants\<close>

definition no_counts :: "'w online \<Rightarrow> bool" where
  "no_counts st \<longleftrightarrow> (\<forall>pd \<in> set (PD st). pd_data pd = [])"

definition pool_ok ::
    "build \<Rightarrow> (u64 \<Rightarrow> usize \<Rightarrow> bytes \<Rightarrow> (usize \<times> bytes) res) \<Rightarrow> pool \<Rightarrow> bool" where
  "pool_ok b rm p \<longleftrightarrow> (\<forall>a. Some a \<in> set (clients p) \<longrightarrow> (\<exists>es. agent_run b rm es a))
     \<and> length (clients p) \<le> 33 \<and> (accepting p \<longrightarrow> length (clients p) \<le> 32)"

definition server_inv ::
    "build \<Rightarrow> (usize \<Rightarrow> usize \<Rightarrow> u64 \<Rightarrow> usize \<Rightarrow> bytes \<Rightarrow> (usize \<times> bytes) res) \<Rightarrow> server \<Rightarrow> bool" where
  "server_inv b rm s \<longleftrightarrow> no_counts (base s)
     \<and> (\<forall>p pid h. pool_task s = Serving p pid h \<longrightarrow> pool_ok b (rm pid h) p)"

lemma no_counts_collect: "no_counts st \<Longrightarrow> collect_all_data b st = Inr []"
proof -
  assume "no_counts st"
  then have "\<forall>t \<in> set (map pd_data (PD st)). t = []" by (simp add: no_counts_def)
  moreover have "res_fold (merge_table b) ts [] = Inr []" if "\<forall>t \<in> set ts. t = []" for ts
    using that by (induction ts) (simp_all add: merge_table_def)
  ultimately show ?thesis by (simp only: collect_map)
qed

lemma set_update_cases: "x \<in> set (xs[i := y]) \<Longrightarrow> x \<in> set xs \<or> x = y \<and> i < length xs"
  by (cases "i < length xs") (auto simp: set_update_subset_insert [THEN subsetD] list_update_beyond
      dest!: set_update_subset_insert [THEN subsetD])

lemma no_counts_update:
  assumes "no_counts st" and "i < length (PD st) \<Longrightarrow> pd_data pd = pd_data (PD st ! i)"
  shows "no_counts (st\<lparr>PD := (PD st)[i := pd]\<rparr>)" "no_counts (st\<lparr>PD := (PD st)[i := pd], work_chan := q\<rparr>)"
  using assms by (auto simp: no_counts_def dest!: set_update_cases)

lemma processor_no_counts:
  assumes "no_counts st" and "processor i buff sz st = Inr (go, st')"
  shows "no_counts st'"
  using assms(2) no_counts_update(1) [OF assms(1), of i "(PD st ! i)\<lparr>tx_queue := tx_queue (PD st ! i) @ [take sz buff]\<rparr>"] assms(1)
  by (auto simp: processor_def res_simps split: if_splits)

lemma split_no_counts:
  assumes "no_counts st" and "split_with L conn i st = Some (Inr st')"
  shows "no_counts st'"
proof (cases "i < length (PD st) \<and> tx_queue (PD st ! i) \<noteq> []")
  case False
  with assms show ?thesis by (auto simp: split_with_def split: if_splits)
next
  case True
  then obtain d ds where q: "i < length (PD st)" "tx_queue (PD st ! i) = d # ds"
    by (cases "tx_queue (PD st ! i)") auto
  with assms(2) obtain r where "spliter_step L conn d (assemed_data (PD st ! i)) = Some r"
    by (auto simp: split_with_def)
  with assms(2) q obtain sent rest where
    "st' = st\<lparr>PD := (PD st)[i := (PD st ! i)\<lparr>tx_queue := ds, assemed_data := rest\<rparr>], work_chan := work_chan st @ sent\<rparr>"
    by (cases r) (auto simp: split_with_def)
  with no_counts_update(2) [OF assms(1), of i "(PD st ! i)\<lparr>tx_queue := ds, assemed_data := rest\<rparr>"]
  show ?thesis by simp
qed

lemma pool_ok_update:
  assumes "pool_ok b rm p" and "\<And>a es. i < length (clients p) \<Longrightarrow> clients p ! i = Some a
      \<Longrightarrow> agent_run b rm es a \<Longrightarrow> agent_step b rm a e a'" and "\<exists>a. clients p ! i = Some a"
  shows "pool_ok b rm (p\<lparr>clients := (clients p)[i := Some a']\<rparr>)"
  unfolding pool_ok_def
proof (intro conjI allI impI)
  fix x assume "Some x \<in> set (clients (p\<lparr>clients := (clients p)[i := Some a']\<rparr>))"
  then consider "Some x \<in> set (clients p)" | "x = a'" "i < length (clients p)"
    using set_update_cases [of "Some x" "clients p" i "Some a'"] by auto
  then show "\<exists>es. agent_run b rm es x"
  proof cases
    case 1
    with assms(1) show ?thesis by (simp add: pool_ok_def)
  next
    case 2
    from assms(3) obtain a where a: "clients p ! i = Some a" by blast
    with 2(2) have "Some a \<in> set (clients p)" by (metis nth_mem)
    with assms(1) obtain es where "agent_run b rm es a" unfolding pool_ok_def by blast
    with agent_run.step [OF this assms(2) [OF 2(2) a this]] 2(1) show ?thesis by blast
  qed
qed (use assms(1) in \<open>simp_all add: pool_ok_def\<close>)

lemma pool_ok_decode:
  assumes "pool_ok b rm p" and "pool_decode d p = Some (Inr p')"
  shows "pool_ok b rm p'"
proof -
  from assms(2) obtain r where r: "select_client (clients p) = Inr r"
    by (cases "select_client (clients p)") (auto simp: pool_decode_def)
  show ?thesis
  proof (cases "\<exists>i c. r = Some i \<and> clients p ! i = Some c")
    case False
    with r assms show ?thesis by (auto simp: pool_decode_def split: option.splits)
  next
    case True
    then obtain i c where i: "r = Some i" "clients p ! i = Some c" by blast
    with r assms(2) obtain c' where c': "publish_task d c = Some (Inr c')"
      "p' = p\<lparr>clients := (clients p)[i := Some c']\<rparr>"
      by (auto simp: pool_decode_def map_sum_Inr_iff)
    from pool_ok_update [OF assms(1), of i "Publish d" c'] i(2) c' agent_step.publish show ?thesis by auto
  qed
qed

lemma pool_ok_accept: "pool_ok b rm p \<Longrightarrow> pool_ok b rm (accept p)"
  using agent_run.start by (auto simp: pool_ok_def accept_def Let_def)

lemma pool_ok_client:
  assumes "pool_ok b rm p" and "clients p = cs @ Some a # ds" and "agent_step b rm a e a'"
  shows "pool_ok b rm (p\<lparr>clients := cs @ Some a' # ds\<rparr>)"
proof -
  from assms(1,2) obtain es where "agent_run b rm es a" by (auto simp: pool_ok_def)
  then have "agent_run b rm (es @ [e]) a'" using assms(3) by (rule agent_run.step)
  with assms(1,2) show ?thesis by (auto simp: pool_ok_def)
qed

lemma server_inv_step:
  assumes "server_inv b rm s" and "server_step b L rm s s'"
  shows "server_inv b rm s'"
  using assms(2,1)
proof (cases rule: server_step.cases)
  case (feed i buff sz go)
  then show ?thesis using assms(1) processor_no_counts
    by (fastforce simp: server_processor_def server_inv_def res_simps)
next
  case (split i)
  then obtain st where "split_with L (rx_open s) i (base s) = Some (Inr st)" "s' = s\<lparr>base := st\<rparr>"
    by (auto simp: server_split_def map_sum_Inr_iff)
  then show ?thesis using assms(1) split_no_counts by (fastforce simp: server_inv_def)
next
  case (start ip_addr bound)
  then show ?thesis using assms(1)
    by (auto simp: start_pool_def server_inv_def start_server_def pool_ok_def split: pool_task.splits option.splits)
next
  case dispatched
  then obtain p pid h d ds r where "pool_task s = Serving p pid h" "work_chan (base s) = d # ds"
    "pool_decode d p = Some r"
    "s' = s\<lparr>base := (base s)\<lparr>work_chan := ds\<rparr>, pool_task := (case r of Inl e \<Rightarrow> Ended | Inr p \<Rightarrow> Serving p pid h)\<rparr>"
    by (auto simp: dispatch_def split: pool_task.splits list.splits)
  then show ?thesis using assms(1) pool_ok_decode by (cases r) (auto simp: server_inv_def no_counts_def)
next
  case (accepted p pid h)
  then show ?thesis using assms(1) pool_ok_accept by (simp add: server_inv_def)
next
  case (client p pid h cs a ds e a')
  then show ?thesis using assms(1) pool_ok_client by (simp add: server_inv_def)
qed (auto simp: server_inv_def no_counts_def server_set_ids_def)

lemma server_reach_inv: "server_reach b L rm s \<Longrightarrow> server_inv b rm s"
proof (induction rule: server_reach.induct)
  case (sr_start cpu_nums clock file_size dk s)
  then show ?case
    by (auto simp: server_create_env_def server_inv_def no_counts_def ProcessorData_new_def Let_def res_simps
        split: prod.splits if_splits)
next
  case (sr_step s s')
  then show ?case using server_inv_step by blast
qed

section \<open>Properties\<close>

text \<open>
  Also: whatever the capture, the splitters, the pool and the clients do,
  the server's report is empty: its own tables are never written, and the pool, if it were
  asked, has nothing to give either.
\<close>

theorem server_never_collects:
  assumes "server_reach b L rm s"
  shows "server_collect_all_data b s = Inr []
     \<and> (\<forall>p pid h. pool_task s = Serving p pid h \<longrightarrow> get_result b (\<lambda>a. a) p = Inr ([], p))"
proof -
  note inv = server_reach_inv [OF assms, unfolded server_inv_def]
  have "get_result b (\<lambda>a. a) p = Inr ([], p)" if "pool_task s = Serving p pid h" for p pid h
  proof -
    have "\<forall>a. Some a \<in> set (clients p) \<longrightarrow> client_ok a"
      using inv that agent_run_ok unfolding pool_ok_def by blast
    from poll_clients_quiet [OF this] show ?thesis by (simp add: get_result_def)
  qed
  with inv show ?thesis by (simp add: server_collect_all_data_def no_counts_collect)
qed

text \<open>
  C25: in every reachable state of the server each client of the pool is in a
  state its own tasks can reach, is connected or active, and there are at most 33.
\<close>

theorem server_clients_ok:
  assumes "server_reach b L rm s" and "pool_task s = Serving p pid h"
  shows "length (clients p) \<le> 33 \<and> (\<forall>a. Some a \<in> set (clients p) \<longrightarrow>
     (\<exists>es. agent_run b (rm pid h) es a) \<and> ag_state a \<in> {Connected, Activate})"
proof -
  have ok: "pool_ok b (rm pid h) p" using server_reach_inv [OF assms(1)] assms(2) by (simp add: server_inv_def)
  with agent_never_disconnected show ?thesis unfolding pool_ok_def by blast
qed

text \<open>
  Also: when the server finds no address of its own, or cannot bind it, the only
  receiving end of the pieces is dropped, and the splitter panics at the first message that
  completes a piece.
\<close>

theorem server_no_address:
  assumes "server_create_env b n clock file_size dk = Inr s0" and "0 < n"
    and "ip_addr = None \<or> (\<forall>a. \<not> bound a)"
    and "syncs_at L offs" and "sync_points offs" and "length buff < 2 ^ 64" and "offs buff = p # q # ps"
  shows "\<exists>s1. server_processor 0 buff (length buff) (server_set_ids dev pid (start_pool ip_addr bound s0)) = Inr (True, s1)
     \<and> server_split L 0 s1 = Some (Inl UnwrapErr)"
proof -
  obtain st where s0: "s0 = \<lparr>base = st, pool_task = Spawned\<rparr>" "PD st = replicate n ProcessorData_new" "\<not> G_STOP st"
    using assms(1) by (auto simp: server_create_env_def Let_def res_simps split: prod.splits if_splits)
  have s1: "start_pool ip_addr bound s0 = \<lparr>base = st, pool_task = Ended\<rparr>"
    using assms(3) by (auto simp: start_pool_def s0(1) start_server_def split: option.split)
  have "buff \<noteq> []" using sync_pointsD(2) [OF assms(5), of p buff] assms(7) by auto
  with spliter_disconnected [OF assms(4,5) this assms(6,7)] assms(2) show ?thesis
    by (simp add: s1 server_processor_def processor_def server_set_ids_def index_at_def slice_def s0(2,3)
        server_split_def split_with_def rx_open_def ProcessorData_new_def)
qed

text \<open>
  Also: the task reads the process id and the driver handle when it runs, and
  \<open>create_env\<close> sets them after spawning it: run at once, it serves the memory of process 0
  with handle 0; run later, that of the traced process.
\<close>

theorem server_pid_race:
  assumes "server_create_env b n clock file_size dk = Inr s0" and "bound (ip @ '':6010'')"
  shows "\<exists>p. pool_task (server_set_ids dev pid (start_pool (Some ip) bound s0)) = Serving p 0 0
     \<and> pool_task (start_pool (Some ip) bound (server_set_ids dev pid s0)) = Serving p pid dev"
proof -
  obtain st where s0: "s0 = \<lparr>base = st, pool_task = Spawned\<rparr>" "PID st = 0" "DEV_HANDLE st = 0"
    using assms(1) by (auto simp: server_create_env_def Let_def res_simps split: prod.splits if_splits)
  with assms(2) show ?thesis by (simp add: start_pool_def server_set_ids_def start_server_def)
qed

section \<open>A concrete server\<close>

lemma server_env_ok: "\<exists>s0. server_create_env b 1 clock [] dk = Inr s0"
proof -
  have "(1 :: usize) \<le> of_nat 1" by simp
  from usub_ok [OF this, of b] show ?thesis
    by (auto simp: server_create_env_def set_file_size_def to_uppercase_def ends_with_def Let_def split: prod.split)
qed

definition no_rm :: "usize \<Rightarrow> usize \<Rightarrow> u64 \<Rightarrow> usize \<Rightarrow> bytes \<Rightarrow> (usize \<times> bytes) res" where
  "no_rm pid h addr len buf = Inr (0, buf)"

definition empty_pool :: pool where
  "empty_pool = \<lparr>clients = [], stop_flag = False, accepting = True, pool_handle = True\<rparr>"

text \<open>A server to which one client has connected.\<close>

lemma server_one_client:
  "\<exists>s. server_reach Release one_lib no_rm s \<and> pool_task s = Serving (accept empty_pool) 5 1"
proof -
  obtain s0 where s0: "server_create_env Release 1 (\<lambda>_. 0) [] no_files = Inr s0" using server_env_ok by blast
  then have "pool_task s0 = Spawned"
    by (auto simp: server_create_env_def Let_def res_simps split: prod.splits if_splits)
  then have t: "pool_task (start_pool (Some ''ip'') (\<lambda>a. True) (server_set_ids 1 5 s0)) = Serving empty_pool 5 1"
    by (simp add: start_pool_def server_set_ids_def start_server_def empty_pool_def)
  let ?s = "start_pool (Some ''ip'') (\<lambda>a. True) (server_set_ids 1 5 s0)"
  have "server_reach Release one_lib no_rm s0" using s0 by (rule sr_start)
  from sr_step [OF sr_step [OF this ids] start] have "server_reach Release one_lib no_rm ?s" .
  note reach = sr_step [OF this accepted [OF t]]
  have "pool_task (?s\<lparr>pool_task := Serving (accept empty_pool) 5 1\<rparr>) = Serving (accept empty_pool) 5 1"
    by (cases ?s) simp
  with reach show ?thesis by blast
qed

theorem server_never_collects_witness:
  "\<exists>s. server_collect_all_data Release s = Inr [] \<and> get_result Release (\<lambda>a. a) (accept empty_pool) = Inr ([], accept empty_pool)"
proof -
  obtain s where "server_reach Release one_lib no_rm s" "pool_task s = Serving (accept empty_pool) 5 1"
    using server_one_client by blast
  with server_never_collects [OF this(1)] show ?thesis by blast
qed

theorem server_clients_ok_witness:
  "length (clients (accept empty_pool)) \<le> 33 \<and> ag_state ClientAgent_new \<in> {Connected, Activate}"
proof -
  obtain s where "server_reach Release one_lib no_rm s" "pool_task s = Serving (accept empty_pool) 5 1"
    using server_one_client by blast
  from server_clients_ok [OF this] show ?thesis by (simp add: accept_def empty_pool_def)
qed

theorem server_no_address_witness:
  "\<exists>s0 s1. server_create_env Debug 1 (\<lambda>_. 0) [] no_files = Inr s0
     \<and> server_processor 0 demo_trace 50 (server_set_ids 1 5 (start_pool None (\<lambda>a. True) s0)) = Inr (True, s1)
     \<and> server_split one_lib 0 s1 = Some (Inl UnwrapErr)"
proof -
  obtain s0 where s0: "server_create_env Debug 1 (\<lambda>_. 0) [] no_files = Inr s0" using server_env_ok by blast
  have "length demo_trace < 2 ^ 64" by (simp add: demo_trace(2))
  from server_no_address [OF s0 _ _ one_lib_syncs psb_points this demo_trace(1), of None "\<lambda>a. True" 1 5] s0
  show ?thesis unfolding demo_trace(2) by auto
qed

theorem server_pid_race_witness:
  "\<exists>s0 p. server_create_env Debug 1 (\<lambda>_. 0) [] no_files = Inr s0
     \<and> pool_task (server_set_ids 1 5 (start_pool (Some ''10.0.0.1'') (\<lambda>a. True) s0)) = Serving p 0 0"
proof -
  obtain s0 where s0: "server_create_env Debug 1 (\<lambda>_. 0) [] no_files = Inr s0" using server_env_ok by blast
  from server_pid_race [OF s0, of "\<lambda>a. True" "''10.0.0.1''" 1 5] s0 show ?thesis by auto
qed

end
