(* ===== verification/Tracing.thy ===== *)
theory Tracing
  imports Capture
begin

text \<open>
  The capture loop (\<open>setup_pt_no_pmi\<close> in \<open>src/src/pt_ctrl/mod.rs\<close>) against tracing hardware:
  before each visit the hardware appends bytes to every ring, without looking at what the
  reader has done. What the loop hands to the callback is, ring by ring, what was written, as
  long as the hardware does not lap the reader.
\<close>

section \<open>The hardware\<close>

text \<open>\<open>w t i\<close> is what is written to ring \<open>i\<close> before visit \<open>t\<close>.\<close>

type_synonym traffic = "nat \<Rightarrow> nat \<Rightarrow> bytes"

definition wrote :: "traffic \<Rightarrow> nat \<Rightarrow> nat \<Rightarrow> bytes" where
  "wrote w t i = concat (map (\<lambda>s. w s i) [0..<t])"

fun ring_write :: "nat \<Rightarrow> nat \<Rightarrow> bytes \<Rightarrow> bytes \<Rightarrow> bytes" where
  "ring_write len p [] buf = buf"
| "ring_write len p (x # xs) buf = ring_write len (Suc p) xs (buf[p mod len := x])"

definition ring_at :: "PtSetupRst \<Rightarrow> u64 \<Rightarrow> nat option" where
  "ring_at rsp a = find (\<lambda>i. out_buffer_info rsp ! i = a) [0..<unat (out_buff_num rsp)]"

definition tracing :: "PtSetupRst \<Rightarrow> traffic \<Rightarrow> hardware" where
  "tracing rsp w t mem = (\<lambda>a. case ring_at rsp a of None \<Rightarrow> mem a
     | Some i \<Rightarrow> ring_write (unat (out_buffer_len rsp)) (length (wrote w t i)) (w t i) (mem a))"

text \<open>
  What the reader delivered is recorded beside the callback's state: the ring of each call and
  the bytes it was given.
\<close>

type_synonym deliveries = "(nat \<times> bytes) list"

definition logged :: "'p processor \<Rightarrow> ('p \<times> deliveries) processor" where
  "logged pr t i tmp n = (\<lambda>(p, dl). let (a, p') = pr t i tmp n p in (a, (p', dl @ [(i, take n tmp)])))"

definition blocks_of :: "nat \<Rightarrow> deliveries \<Rightarrow> bytes list" where
  "blocks_of i dl = map snd (filter (\<lambda>(j, d). j = i \<and> d \<noteq> []) dl)"

definition delivered :: "nat \<Rightarrow> deliveries \<Rightarrow> bytes" where
  "delivered i dl = concat (blocks_of i dl)"

text \<open>The hardware never writes more to a ring than the reader has left free there.\<close>

definition keeps_up :: "PtSetupRst \<Rightarrow> traffic \<Rightarrow> deliveries \<Rightarrow> bool" where
  "keeps_up rsp w dl \<longleftrightarrow> (\<forall>k < length dl. \<forall>i < unat (out_buff_num rsp).
     length (wrote w (Suc k) i) \<le> unat (out_buffer_len rsp) + length (delivered i (take k dl)))"

section \<open>Lemmas\<close>

lemma wrote_0 [simp]: "wrote w 0 i = []"
  by (simp add: wrote_def)

lemma wrote_Suc: "wrote w (Suc t) i = wrote w t i @ w t i"
  by (simp add: wrote_def)

lemma blocks_of_append [simp]: "blocks_of i (xs @ ys) = blocks_of i xs @ blocks_of i ys"
  by (simp add: blocks_of_def)

lemma blocks_of_simps [simp]: "blocks_of i [] = []"
    "blocks_of i [(j, d)] = (if j = i \<and> d \<noteq> [] then [d] else [])"
  by (simp_all add: blocks_of_def)

lemma delivered_append [simp]: "delivered i (xs @ ys) = delivered i xs @ delivered i ys"
  by (simp add: delivered_def)

lemma delivered_simps [simp]: "delivered i [] = []" "delivered i [(j, d)] = (if j = i then d else [])"
  by (simp_all add: delivered_def)

lemma keeps_up_prefix: "keeps_up rsp w (dl @ ds) \<Longrightarrow> keeps_up rsp w dl"
proof (unfold keeps_up_def, intro allI impI, goal_cases)
  case (1 k i)
  then show ?case using spec [OF 1(1), of k] by simp
qed

lemma keeps_up_now:
  "keeps_up rsp w (dl @ [x]) \<Longrightarrow> i < unat (out_buff_num rsp) \<Longrightarrow>
   length (wrote w (Suc (length dl)) i) \<le> unat (out_buffer_len rsp) + length (delivered i dl)"
  unfolding keeps_up_def by (drule spec [of _ "length dl"]) simp

lemma ring_write_length [simp]: "length (ring_write len p xs buf) = length buf"
  by (induction xs arbitrary: p buf) auto

lemma tracing_keeps_maps: "hw_keeps_maps (tracing rsp w)"
  by (simp add: hw_keeps_maps_def tracing_def split: option.split)

lemma ring_write_mod: "p mod len = q mod len \<Longrightarrow> ring_write len p xs buf = ring_write len q xs buf"
proof (induction xs arbitrary: p q buf)
  case (Cons x xs)
  have "Suc p mod len = Suc q mod len"
    using mod_Suc_eq [of p len] mod_Suc_eq [of q len] Cons.prems by simp
  from Cons.IH [OF this, of "buf[p mod len := x]"] Cons.prems show ?case by simp
qed simp

lemma ring_write_take:
  assumes "0 < len" and "len \<le> length buf"
  shows "take len (ring_write len p xs buf) = ring_write len p xs (take len buf)"
  using assms
proof (induction xs arbitrary: p buf)
  case (Cons x xs)
  then have "take len (buf[p mod len := x]) = (take len buf)[p mod len := x]"
    by (simp add: take_update_swap)
  with Cons show ?case by simp
qed simp

lemma fetch_data_size:
  assumes "fetch_data buff pos out = Inr (m, out', data)" and "0 < length buff"
  shows "m \<le> length out'" and "length data = length buff"
proof -
  let ?m = "min (avail (rotate pos buff)) (length out)"
  from fetch_data_spec [OF assms(2), of pos out] assms(1)
  have m: "m = ?m" and out: "out' = take m (rotate pos buff) @ drop m out" and len: "length data = length buff"
    by (simp_all add: Let_def)
  have "m \<le> length (rotate pos buff)" using avail_length [of "rotate pos buff"] unfolding m by linarith
  then show "m \<le> length out'" by (simp add: out)
  show "length data = length buff" by (fact len)
qed

text \<open>A write by the hardware is a sequence of puts into the ring of the reader.\<close>

definition ring_puts :: "bytes \<Rightarrow> ring \<Rightarrow> ring" where
  "ring_puts xs r = \<lparr>cells = ring_write (length (cells r)) (ring_pos r + unread r) xs (cells r),
     ring_pos = ring_pos r, unread = unread r + length xs\<rparr>"

lemma ring_puts_Cons: "ring_puts (x # xs) r = ring_puts xs (ring_put x r)"
  by (simp add: ring_puts_def ring_put_def)

lemma ring_puts_spec:
  assumes "ring_inv r" and "length xs \<le> ring_room r"
  shows "ring_inv (ring_puts xs r)" and "ring_pending (ring_puts xs r) = ring_pending r @ xs"
proof -
  have "ring_inv (ring_puts xs r) \<and> ring_pending (ring_puts xs r) = ring_pending r @ xs"
    using assms
  proof (induction xs arbitrary: r)
    case Nil
    then show ?case by (cases r) (simp add: ring_puts_def)
  next
    case (Cons x xs)
    have room: "0 < ring_room r" using Cons.prems(2) by simp
    note put = ring_put_spec [OF Cons.prems(1) room, of x]
    have "length xs \<le> ring_room (ring_put x r)" using Cons.prems(2) by (simp add: ring_room_def ring_put_def)
    from Cons.IH [OF put(1) this] put(2) show ?case by (simp add: ring_puts_Cons)
  qed
  then show "ring_inv (ring_puts xs r)" "ring_pending (ring_puts xs r) = ring_pending r @ xs" by simp_all
qed

lemma ring_at_nth:
  assumes "distinct (take n (out_buffer_info rsp))" and "n \<le> length (out_buffer_info rsp)"
    and "n = unat (out_buff_num rsp)" and "i < n"
  shows "ring_at rsp (out_buffer_info rsp ! i) = Some i"
proof -
  have nth: "out_buffer_info rsp ! j = out_buffer_info rsp ! i \<longleftrightarrow> j = i" if "j < n" for j
    using assms(1,2,4) that nth_eq_iff_index_eq [of "take n (out_buffer_info rsp)" j i] by simp
  show ?thesis unfolding ring_at_def assms(3) [symmetric] find_Some_iff
    using nth assms(4) by (intro exI [of _ i]) auto
qed

section \<open>What the loop keeps\<close>

text \<open>Ring \<open>i\<close> as the reader sees it.\<close>

definition ring_of :: "PtSetupRst \<Rightarrow> traffic \<Rightarrow> (u64 \<Rightarrow> bytes) \<Rightarrow> nat \<Rightarrow> deliveries \<Rightarrow> nat \<Rightarrow> nat \<Rightarrow> ring" where
  "ring_of rsp w mem t dl pos i = \<lparr>cells = take (unat (out_buffer_len rsp)) (mem (out_buffer_info rsp ! i)),
     ring_pos = pos, unread = length (wrote w t i) - length (delivered i dl)\<rparr>"

definition ring_ok :: "PtSetupRst \<Rightarrow> traffic \<Rightarrow> (u64 \<Rightarrow> bytes) \<Rightarrow> nat \<Rightarrow> deliveries \<Rightarrow> nat \<Rightarrow> nat \<Rightarrow> bool" where
  "ring_ok rsp w mem t dl pos i \<longleftrightarrow> ring_inv (ring_of rsp w mem t dl pos i)
     \<and> wrote w t i = delivered i dl @ ring_pending (ring_of rsp w mem t dl pos i)
     \<and> pos = length (delivered i dl) mod unat (out_buffer_len rsp)"

definition trace_inv :: "PtSetupRst \<Rightarrow> traffic \<Rightarrow> ('p \<times> deliveries) capture \<Rightarrow> bool" where
  "trace_inv rsp w c \<longleftrightarrow> capture_wf (unat (out_buff_num rsp)) rsp c
     \<and> distinct (take (unat (out_buff_num rsp)) (out_buffer_info rsp))
     \<and> tick c = length (snd (proc_st c))
     \<and> (keeps_up rsp w (snd (proc_st c)) \<longrightarrow> (\<forall>i < unat (out_buff_num rsp).
          ring_ok rsp w (mapped c) (tick c) (snd (proc_st c)) (read_pos c ! i) i))"

lemma ring_ok_written:
  assumes ok: "ring_ok rsp w mem t dl pos i"
    and map: "unat (out_buffer_len rsp) \<le> length (mem (out_buffer_info rsp ! i))" "0 < unat (out_buffer_len rsp)"
    and at: "ring_at rsp (out_buffer_info rsp ! i) = Some i"
    and room: "length (wrote w (Suc t) i) \<le> unat (out_buffer_len rsp) + length (delivered i dl)"
  shows "ring_ok rsp w (tracing rsp w t mem) (Suc t) dl pos i"
proof -
  let ?r = "ring_of rsp w mem t dl pos i" and ?len = "unat (out_buffer_len rsp)"
  let ?k = "length (delivered i dl)"
  from ok have inv: "ring_inv ?r" and wr: "wrote w t i = delivered i dl @ ring_pending ?r"
    and pos: "pos = ?k mod ?len" unfolding ring_ok_def by blast+
  have le: "?k \<le> length (wrote w t i)" using wr by simp
  have cells: "length (cells ?r) = ?len" using map(1) by (simp add: ring_of_def)
  have r: "ring_pos ?r = pos" "unread ?r = length (wrote w t i) - ?k" by (simp_all add: ring_of_def)
  have "length (w t i) \<le> ring_room ?r"
    using room le unfolding ring_room_def cells r(2) by (simp add: wrote_Suc)
  note puts = ring_puts_spec [OF inv this]
  have "ring_write ?len (length (wrote w t i)) (w t i) (take ?len (mem (out_buffer_info rsp ! i))) =
      ring_write ?len (ring_pos ?r + unread ?r) (w t i) (cells ?r)"
  proof -
    have "(pos + (length (wrote w t i) - ?k)) mod ?len = length (wrote w t i) mod ?len"
      using mod_add_left_eq [of ?k ?len "length (wrote w t i) - ?k"] le unfolding pos by simp
    then have "length (wrote w t i) mod ?len = (ring_pos ?r + unread ?r) mod ?len" by (simp add: r)
    from ring_write_mod [OF this] show ?thesis by (simp add: ring_of_def)
  qed
  then have "ring_of rsp w (tracing rsp w t mem) (Suc t) dl pos i =
ring_puts (w t i) ?r"
    using le map unfolding ring_puts_def cells by (simp add: ring_of_def tracing_def at ring_write_take wrote_Suc)
  with puts wr pos show ?thesis by (simp add: ring_ok_def wrote_Suc)
qed

text \<open>The visit of ring \<open>i\<close> takes bytes from it and touches no other.\<close>

lemma ring_ok_visited:
  assumes ok: "ring_ok rsp w mem t dl pos i"
    and map: "unat (out_buffer_len rsp) \<le> length (mem (out_buffer_info rsp ! i))" "0 < unat (out_buffer_len rsp)"
  shows "\<exists>m tmp' data. fetch_data (take (unat (out_buffer_len rsp)) (mem (out_buffer_info rsp ! i))) pos tmp
        = Inr (m, tmp', data)
     \<and> length data = unat (out_buffer_len rsp)
     \<and> ring_ok rsp w (mem(out_buffer_info rsp ! i := data @ drop (unat (out_buffer_len rsp)) (mem (out_buffer_info rsp ! i))))
         t (dl @ [(i, take m tmp')]) ((pos + m) mod unat (out_buffer_len rsp)) i"
proof -
  let ?len = "unat (out_buffer_len rsp)" and ?a = "out_buffer_info rsp ! i"
  let ?r = "ring_of rsp w mem t dl pos i" and ?k = "length (delivered i dl)"
  from ok have inv: "ring_inv ?r" and wr: "wrote w t i = delivered i dl @ ring_pending ?r"
    and pos: "pos = ?k mod ?len" unfolding ring_ok_def by blast+
  have cells: "cells ?r = take ?len (mem ?a)" "ring_pos ?r = pos" "unread ?r = length (wrote w t i) - ?k"
    by (simp_all add: ring_of_def)
  from ring_get_spec [OF inv, of tmp] obtain xs r' where
    get: "ring_get tmp ?r = Inr (xs, r')" and inv': "ring_inv r'" and len: "length (cells r') = length (cells ?r)"
    and split: "ring_pending ?r = xs @ ring_pending r'" by (metis append_take_drop_id)
  obtain m tmp' data where f: "fetch_data (take ?len (mem ?a)) pos tmp = Inr (m, tmp', data)"
    and xs: "xs = take m tmp'" and r': "r' = \<lparr>cells = data, ring_pos = (pos + m) mod ?len,
      unread = length (wrote w t i) - ?k - m\<rparr>"
    using get map unfolding ring_get_def cells by (auto simp: res_simps ring_of_def)
  have data: "length data = ?len" using len map by (simp add: r' cells)
  have ne: "0 < length (take ?len (mem ?a))" using map by simp
  have m: "length (take m tmp') = m"
    using fetch_data_size(1) [OF f ne] by simp
  have del: "length (delivered i (dl @ [(i, take m tmp')])) = ?k + m" using m by simp
  have "ring_of rsp w (mem(?a := data @ drop ?len (mem ?a))) t (dl @ [(i, take m tmp')]) ((pos + m) mod ?len) i = r'"
    unfolding ring_of_def del using data by (simp add: r')
  moreover have "(pos + m) mod ?len = (?k + m) mod ?len" by (simp add: pos mod_add_left_eq)
  ultimately have "ring_ok rsp w (mem(?a := data @ drop ?len (mem ?a))) t (dl @ [(i, take m tmp')])
      ((pos + m) mod ?len) i"
    using inv' wr split unfolding ring_ok_def del by (simp add: xs)
  with f data show ?thesis by blast
qed

lemma ring_ok_other:
  assumes "ring_ok rsp w mem t dl pos i" and "i \<noteq> j" and "out_buffer_info rsp ! i \<noteq> a"
  shows "ring_ok rsp w (mem(a := x)) t (dl @ [(j, d)]) pos i"
  using assms unfolding ring_ok_def ring_of_def by auto

lemma visit_InrD:
  assumes "visit hw pr rsp i c = Inr (a, c')"
  shows "\<exists>m tmp data. let mem = hw (tick c) (mapped c); adr = out_buffer_info rsp ! i; len = unat (out_buffer_len rsp) in
     fetch_data (take len (mem adr)) (read_pos c ! i) (tmp_buff c) = Inr (m, tmp, data)
     \<and> c' = \<lparr>read_pos = (read_pos c)[i := (read_pos c ! i + m) mod len], tmp_buff = tmp,
          mapped = mem(adr := data @ drop len (mem adr)), proc_st = snd (pr (tick c) i tmp m (proc_st c)),
          tick = tick c + 1\<rparr>
     \<and> a = fst (pr (tick c) i tmp m (proc_st c))"
proof -
  from assms obtain m tmp data where
    "fetch_data (take (unat (out_buffer_len rsp)) (hw (tick c) (mapped c) (out_buffer_info rsp ! i)))
       (read_pos c ! i) (tmp_buff c) = Inr (m, tmp, data)"
    unfolding visit_def Let_def by (auto simp only: res_simps split: if_splits)
  with assms show ?thesis
    by (cases "pr (tick c) i tmp m (proc_st c)") (auto simp: visit_def Let_def res_simps split: if_splits)
qed

lemma visit_trace:
  assumes inv: "trace_inv rsp w c" and i: "i < unat (out_buff_num rsp)"
    and v: "visit (tracing rsp w) (logged pr) rsp i c = Inr (a, c')"
  shows "trace_inv rsp w c'"
    and "\<exists>d tmp m. snd (proc_st c') = snd (proc_st c) @ [(i, d)] \<and> d = take m tmp \<and> m \<le> length tmp
       \<and> (a, fst (proc_st c')) = pr (tick c) i tmp m (fst (proc_st c))"
proof -
  let ?len = "unat (out_buffer_len rsp)" and ?n = "unat (out_buff_num rsp)"
  let ?mem = "tracing rsp w (tick c) (mapped c)" and ?a = "out_buffer_info rsp ! i"
  let ?dl = "snd (proc_st c)"
  from inv have wf: "capture_wf ?n rsp c" and dist: "distinct (take ?n (out_buffer_info rsp))"
    and tick: "tick c = length ?dl"
    and rings: "keeps_up rsp w ?dl \<Longrightarrow> \<forall>i < ?n. ring_ok rsp w (mapped c) (tick c) ?dl (read_pos c ! i) i"
    unfolding trace_inv_def by blast+
  from wf have n: "?n \<le> length (out_buffer_info rsp)" "?n \<le> length (read_pos c)" "0 < ?len"
    "\<And>j. j < ?n \<Longrightarrow> ?len \<le> length (mapped c (out_buffer_info rsp ! j))" by (auto simp: capture_wf_def)
  have map: "?len \<le> length (?mem (out_buffer_info rsp ! j))" if "j < ?n" for j
    using n(4) [OF that] tracing_keeps_maps [of rsp w] by (simp add: hw_keeps_maps_def)
  have len: "0 < length (take ?len (?mem ?a))" using map [OF i] n(3) by simp
  from v obtain m tmp data where
    f: "fetch_data (take ?len (?mem ?a)) (read_pos c ! i) (tmp_buff c) = Inr (m, tmp, data)" and
    c': "c' = \<lparr>read_pos = (read_pos c)[i := (read_pos c ! i + m) mod ?len], tmp_buff = tmp,
      mapped = ?mem(?a := data @ drop ?len (?mem ?a)), proc_st = snd (logged pr (tick c) i tmp m (proc_st c)),
      tick = tick c + 1\<rparr>" and a: "a = fst (logged pr (tick c) i tmp m (proc_st c))"
    using visit_InrD [OF v] unfolding Let_def by blast
  have m: "m \<le> length tmp" "length data = ?len"
    using fetch_data_size [OF f len] map [OF i] by simp_all
  have st: "a = fst (pr (tick c) i tmp m (fst (proc_st c)))"
    "fst (proc_st c') = snd (pr (tick c) i tmp m (fst (proc_st c)))"
    "snd (proc_st c') = ?dl @ [(i, take m tmp)]"
    by (simp_all add: a c' logged_def split: prod.split)
  show "\<exists>d tmp m. snd (proc_st c') = snd (proc_st c) @ [(i, d)] \<and> d = take m tmp \<and> m \<le> length tmp
       \<and> (a, fst (proc_st c')) = pr (tick c) i tmp m (fst (proc_st c))"
    using st m(1) by (intro exI [of _ "take m tmp"] exI [of _ tmp] exI [of _ m]) simp
  have wf': "capture_wf ?n rsp c'"
    using n map m(2) by (auto simp: capture_wf_def c')
  have "ring_ok rsp w (mapped c') (tick c') (snd (proc_st c')) (read_pos c' ! j) j"
    if ku: "keeps_up rsp w (snd (proc_st c'))" and j: "j < ?n" for j
  proof -
    have old: "ring_ok rsp w (mapped c) (tick c) ?dl (read_pos c ! j) j"
      using rings keeps_up_prefix ku j unfolding st(3) by blast
    have at: "ring_at rsp (out_buffer_info rsp ! j) = Some j"
      using ring_at_nth [OF dist n(1) refl j] .
    from ring_ok_written [OF old n(4) [OF j] n(3) at] keeps_up_now [OF ku [unfolded st(3)] j]
    have new: "ring_ok rsp w ?mem (Suc (tick c)) ?dl (read_pos c ! j) j" by (simp add: tick)
    show ?thesis
    proof (cases "j = i")
      case True
      from ring_ok_visited [OF new [unfolded True] map [OF i] n(3), of "tmp_buff c"] f i n(2) True show ?thesis
        by (simp add: c' st(3) [unfolded c', simplified])
    next
      case False
      have "out_buffer_info rsp ! j \<noteq> ?a"
        using nth_eq_iff_index_eq [OF dist, of j i] n(1) i j False by simp
      from ring_ok_other [OF new False this] False show ?thesis
        by (simp add: c' st(3) [unfolded c', simplified])
    qed
  qed
  with wf' dist tick st(3) show "trace_inv rsp w c'" by (simp add: trace_inv_def) (simp add: c')
qed

section \<open>The whole capture\<close>

lemma visits_invariant:
  assumes "visits hw pr rsp idxs c = Inr (as, c')" and "P c" and "\<forall>i \<in> set idxs. i < n"
    and "\<And>i c a c'. i < n \<Longrightarrow> P c \<Longrightarrow> visit hw pr rsp i c = Inr (a, c') \<Longrightarrow> P c'"
  shows "P c'"
  using assms(1-3)
proof (induction idxs arbitrary: c as)
  case (Cons i idxs)
  then obtain a c1 as' where v: "visit hw pr rsp i c = Inr (a, c1)" "visits hw pr rsp idxs c1 = Inr (as', c')"
    by (auto simp: res_simps)
  have "P c1" using assms(4) [OF _ Cons.prems(2) v(1)] Cons.prems(3) by simp
  with Cons.IH [OF v(2)] Cons.prems(3) show ?case by simp
qed simp

lemma capture_loop_invariant:
  assumes "capture_loop fuel hw pr rsp c = Some (Inr c')" and "P c"
    and "\<And>i c a c'. i < unat (out_buff_num rsp) \<Longrightarrow> P c \<Longrightarrow> visit hw pr rsp i c = Inr (a, c') \<Longrightarrow> P c'"
  shows "P c'"
  using assms(1,2)
proof (induction fuel arbitrary: c)
  case (Suc fuel)
  let ?n = "unat (out_buff_num rsp)"
  from Suc.prems(1) obtain as c1 where v: "visits hw pr rsp [0..<?n] c = Inr (as, c1)"
    by (cases "visits hw pr rsp [0..<?n] c") (auto simp: sweep_visits)
  have "P c1" by (rule visits_invariant [OF v, where P = P]) (use Suc.prems(2) assms(3) in auto)
  with Suc v show ?case by (auto simp: sweep_visits split: bool.splits)
qed simp

lemma logged_refuses:
  "refuses_from T S pr \<Longrightarrow> refuses_from T (\<lambda>t p. S t (fst p)) (logged pr)"
  unfolding refuses_from_def logged_def by (auto split: prod.split) (metis fst_conv snd_conv)+

text \<open>Recording what is delivered does not change the capture.\<close>

definition unlog :: "('p \<times> deliveries) capture \<Rightarrow> 'p capture" where
  "unlog c = \<lparr>read_pos = read_pos c, tmp_buff = tmp_buff c, mapped = mapped c,
     proc_st = fst (proc_st c), tick = tick c\<rparr>"

lemma unlog_simps [simp]: "read_pos (unlog c) = read_pos c" "tmp_buff (unlog c) = tmp_buff c"
    "mapped (unlog c) = mapped c" "proc_st (unlog c) = fst (proc_st c)" "tick (unlog c) = tick c"
  by (simp_all add: unlog_def)

lemma visit_unlog: "visit hw pr rsp i (unlog c) = map_sum id (map_prod id unlog) (visit hw (logged pr) rsp i c)"
proof -
  have bind: "map_sum id f (res_bind m g) = res_bind m (\<lambda>x. map_sum id f (g x))" for m :: "'x res" and g and f :: "'y \<Rightarrow> 'z"
    by (cases m) auto
  show ?thesis
    unfolding visit_def Let_def unlog_simps
    by (auto simp: bind unlog_def logged_def case_prod_unfold Let_def intro!: res_bind_cong)
qed

lemma visits_unlog:
  "visits hw pr rsp idxs (unlog c) = map_sum id (map_prod id unlog) (visits hw (logged pr) rsp idxs c)"
proof (induction idxs arbitrary: c)
  case (Cons i idxs)
  show ?case
  proof (cases "visit hw (logged pr) rsp i c")
    case (Inl e)
    then show ?thesis by (simp add: visit_unlog)
  next
    case (Inr r)
    then show ?thesis
      by (cases "visits hw (logged pr) rsp idxs (snd r)") (auto simp: visit_unlog Cons case_prod_unfold)
  qed
qed simp

lemma capture_loop_unlog:
  "capture_loop fuel hw pr rsp (unlog c) = map_option (map_sum id unlog) (capture_loop fuel hw (logged pr) rsp c)"
proof (induction fuel arbitrary: c)
  case (Suc fuel)
  show ?case
    by (cases "visits hw (logged pr) rsp [0..<unat (out_buff_num rsp)] c")
      (auto simp: sweep_visits visits_unlog Suc split: bool.split)
qed simp

text \<open>
  What the driver promises when it has started a trace: rings for the processors, each of the
  reported length, at addresses of their own and blank.
\<close>

definition rings_ready :: "PtSetupRst \<Rightarrow> (u64 \<Rightarrow> bytes) \<Rightarrow> bool" where
  "rings_ready rsp mem \<longleftrightarrow> 0 < out_buff_num rsp \<and> 0 < out_buffer_len rsp
     \<and> unat (out_buff_num rsp) \<le> length (out_buffer_info rsp)
     \<and> distinct (take (unat (out_buff_num rsp)) (out_buffer_info rsp))
     \<and> (\<forall>i < unat (out_buff_num rsp). take (unat (out_buffer_len rsp)) (mem (out_buffer_info rsp ! i)) =
          replicate (unat (out_buffer_len rsp)) 0xFF)"

definition capture_start :: "PtSetupRst \<Rightarrow> (u64 \<Rightarrow> bytes) \<Rightarrow> 'p \<Rightarrow> 'p capture" where
  "capture_start rsp mem st = \<lparr>read_pos = replicate (unat (out_buff_num rsp)) 0,
     tmp_buff = replicate (1024 * 800) 0, mapped = mem, proc_st = st, tick = 0\<rparr>"

lemma setup_pt_no_pmi_started:
  assumes "setup_pt_no_pmi_start ctl_code ioctl h pid bs mtc psb cyc cfg lo hi PtSetupRst_default w
      = (Inr (), rsp, w')"
  shows "setup_pt_no_pmi fuel ctl_code ioctl h pid bs mtc psb cyc cfg lo hi hw mapping pr st w =
     capture_loop fuel hw pr rsp (capture_start rsp (mapping w') (st w'))"
  by (simp add: setup_pt_no_pmi_def assms capture_start_def)

lemma trace_inv_start:
  assumes "rings_ready rsp mem"
  shows "trace_inv rsp w (capture_start rsp mem (st, []))"
proof -
  let ?n = "unat (out_buff_num rsp)" and ?len = "unat (out_buffer_len rsp)"
  from assms have len: "0 < ?len" by (simp add: rings_ready_def word_less_nat_alt)
  have blank: "take ?len (mem (out_buffer_info rsp ! i)) = replicate ?len 0xFF" if "i < ?n" for i
    using assms that by (simp add: rings_ready_def)
  have "?len \<le> length (mem (out_buffer_info rsp ! i))" if "i < ?n" for i
    using arg_cong [OF blank [OF that], of length] by simp
  with assms len have "capture_wf ?n rsp (capture_start rsp mem (st, []))"
    by (simp add: capture_wf_def rings_ready_def capture_start_def)
  moreover have "ring_ok rsp w mem 0 [] 0 i" if "i < ?n" for i
    using blank [OF that] len by (simp add: ring_ok_def ring_of_def ring_inv_def ring_pending_def)
  ultimately show ?thesis using assms by (simp add: trace_inv_def rings_ready_def capture_start_def)
qed

lemma trace_inv_delivered:
  assumes "trace_inv rsp w c" and "keeps_up rsp w (snd (proc_st c))" and "i < unat (out_buff_num rsp)"
  shows "\<exists>unread. wrote w (tick c) i = delivered i (snd (proc_st c)) @ unread"
  using assms by (auto simp: trace_inv_def ring_ok_def)

lemma capture_loop_tracing:
  assumes "rings_ready rsp mem" and "refuses_from T S pr" and "S 0 st"
  shows "\<exists>c'. capture_loop (Suc T) (tracing rsp w) (logged pr) rsp (capture_start rsp mem (st, [])) = Some (Inr c')
     \<and> trace_inv rsp w c'"
proof -
  let ?c = "capture_start rsp mem (st, [] :: deliveries)"
  note start = trace_inv_start [OF assms(1), of w st]
  from start have "capture_wf (unat (out_buff_num rsp)) rsp ?c" unfolding trace_inv_def by blast
  from capture_loop_returns [OF this tracing_keeps_maps _ logged_refuses [OF assms(2)]] assms
  obtain c' where run: "capture_loop (Suc T) (tracing rsp w) (logged pr) rsp ?c = Some (Inr c')"
    by (fastforce simp: rings_ready_def capture_start_def)
  have "trace_inv rsp w c'" by (rule capture_loop_invariant [OF run, where P = "trace_inv rsp w"])
      (use start visit_trace(1) in auto)
  with run show ?thesis by blast
qed

section \<open>The interface to the callback\<close>

text \<open>
  What the capture asks of its callback: \<open>S t\<close> are the states it can be in at time \<open>t\<close>, and
  from time \<open>T\<close> on it refuses to go on. The capture then ends, and keeps its rings.
\<close>

locale capture_client =
  fixes pr :: "'p processor" and S :: "nat \<Rightarrow> 'p \<Rightarrow> bool" and T :: nat
  assumes stays: "S t p \<Longrightarrow> S (Suc t) (snd (pr t i d n p))"
    and refuses: "S t p \<Longrightarrow> T \<le> t \<Longrightarrow> \<not> fst (pr t i d n p)"
begin

lemma client_refuses: "refuses_from T S pr"
  using stays refuses by (simp add: refuses_from_def)

lemma client_traced:
  assumes "rings_ready rsp mem" and "S 0 st"
  shows "\<exists>c'. capture_loop (Suc T) (tracing rsp w) (logged pr) rsp (capture_start rsp mem (st, [])) = Some (Inr c')
     \<and> trace_inv rsp w c'"
  using assms by (intro capture_loop_tracing [OF _ client_refuses])

end

section \<open>Properties\<close>

text \<open>
  C5: once the driver has started the trace, the capture ends with \<open>Ok\<close> when the
  callback refuses from some time on, and if the hardware never lapped the reader, what the
  callback was given of each ring, call by call, is what was written to it: no byte is lost,
  repeated or invented, but for those still unread at the end.
\<close>

theorem capture_exact:
  assumes "setup_pt_no_pmi_start ctl_code ioctl h pid bs mtc psb cyc cfg lo hi PtSetupRst_default w
      = (Inr (), rsp, w')"
    and "rings_ready rsp (mapping w')" and "refuses_from T S pr" and "S 0 st"
  shows "\<exists>c'. setup_pt_no_pmi (Suc T) ctl_code ioctl h pid bs mtc psb cyc cfg lo hi
        (tracing rsp tr) mapping (logged pr) (\<lambda>_. (st, [])) w = Some (Inr c')
     \<and> (keeps_up rsp tr (snd (proc_st c')) \<longrightarrow> (\<forall>i < unat (out_buff_num rsp).
          \<exists>unread. wrote tr (tick c') i = delivered i (snd (proc_st c')) @ unread))"
  unfolding setup_pt_no_pmi_started [OF assms(1)]
  using capture_loop_tracing [OF assms(2-4), of tr] trace_inv_delivered by fastforce

text \<open>A driver that answers a setup request with two blank rings of 64 bytes, for the witnesses.\<close>

definition two_rings :: PtSetupRst where
  "two_rings = PtSetupRst_default\<lparr>out_buff_num := 2, out_buffer_info := [0x1000, 0x2000] @ replicate 30 0,
     out_buffer_len := 64\<rparr>"

definition ring_drv :: "'w ioctl" where
  "ring_drv h code req isz osz w =
     (\<lparr>io_ret = 1, io_mem = [], io_rsp = SetupRsp two_rings, io_len = of_nat osz\<rparr>, w)"

lemma size_PtSetupRst_value: "size_PtSetupRst = 536"
  by code_simp

lemma ring_drv_starts:
  "setup_pt_no_pmi_start ctl_code ring_drv h pid bs mtc psb cyc cfg lo hi rsp w = (Inr (), two_rings, w)"
  by (simp add: setup_pt_no_pmi_start_def ring_drv_def Let_def size_PtSetupRst_value)

lemma two_rings_ready: "rings_ready two_rings (\<lambda>_. replicate 64 0xFF)"
proof -
  have "unat (out_buff_num two_rings) = 2" "unat (out_buffer_len two_rings) = 64"
    "out_buffer_info two_rings = 0x1000 # 0x2000 # replicate 30 0" by (simp_all add: two_rings_def)
  then show ?thesis by (simp add: rings_ready_def) (simp add: two_rings_def)
qed

theorem capture_exact_witness:
  "\<exists>c' :: (unit \<times> deliveries) capture.
     setup_pt_no_pmi 4 id ring_drv 7 5 256 3 5 1 0 0 0 (tracing two_rings (\<lambda>t i. if t = 1 then [0xAB] else []))
       (\<lambda>_ _. replicate 64 0xFF) (logged (\<lambda>t i d n p. (t < 3, p))) (\<lambda>_. ((), [])) () = Some (Inr c')
     \<and> (\<exists>unread. wrote (\<lambda>t i. if t = 1 then [0xAB] else []) (tick c') 1 = delivered 1 (snd (proc_st c')) @ unread)"
proof -
  let ?tr = "\<lambda>t i :: nat. if t = (1 :: nat) then [0xAB :: u8] else []"
  have "refuses_from 3 (\<lambda>_ _. True) (\<lambda>t i d n (p :: unit). (t < 3, p))" by (simp add: refuses_from_def)
  note ex = capture_exact [where mapping = "\<lambda>_ _. replicate 64 0xFF" and ctl_code = id and h = 7 and pid = 5
      and bs = 256 and mtc = 3 and psb = 5 and cyc = 1 and cfg = 0 and lo = 0 and hi = 0 and st = "()"
      and w = "()" and tr = ?tr, OF ring_drv_starts two_rings_ready this TrueI]
  have "length (wrote ?tr k i) = (if 1 < k then 1 else 0)" for k i
    by (induction k) (simp_all add: wrote_Suc)
  then have le: "length (wrote ?tr k i) \<le> 1" for k i by simp
  have "unat (out_buffer_len two_rings) = 64" by (simp add: two_rings_def)
  then have "length (wrote ?tr (Suc k) i) \<le> unat (out_buffer_len two_rings) + length (delivered i ds)" for k i ds
    using le [of "Suc k" i] by linarith
  then have ku: "keeps_up two_rings ?tr dl" for dl
    unfolding keeps_up_def by blast
  have two: "1 < unat (out_buff_num two_rings)" by (simp add: two_rings_def)
  have suc: "Suc 3 = 4" by simp
  from ex [unfolded suc] show ?thesis
  proof (elim exE conjE, goal_cases)
    case (1 c')
    from mp [OF 1(2) ku] two 1(1) show ?case by (intro exI [of _ c']) simp
  qed
qed

end
