(* ===== verification/Options.thy ===== *)
theory Options
  imports Text
begin

text \<open>
  The command line of the programs (\<open>src/src/bin\<close>): the options that \<open>main\<close> declares and
  how it reads their values. The option parser \<open>clap\<close> is not part of the repository: what
  \<open>value_of\<close> answers for a list of declared options is a parameter.
\<close>

section \<open>Numbers in a radix\<close>

text \<open>
  \<open>from_str_radix\<close> of Rust's unsigned types; \<open>parse\<close> is its case of radix 10. The code uses
  the radices 10 and 16.
\<close>

definition to_digit :: "nat \<Rightarrow> char \<Rightarrow> nat option" where
  "to_digit radix c =
     (let n = of_char c;
          d = if 48 \<le> n \<and> n \<le> 57 then n - 48
              else if 97 \<le> n \<and> n \<le> 122 then n - 87
              else if 65 \<le> n \<and> n \<le> 90 then n - 55 else radix
      in if d < radix then Some d else None)"

fun radix_digits :: "nat \<Rightarrow> nat \<Rightarrow> string \<Rightarrow> nat \<Rightarrow> nat option" where
  "radix_digits radix bound [] acc = Some acc"
| "radix_digits radix bound (c # cs) acc =
     (case to_digit radix c of None \<Rightarrow> None
      | Some d \<Rightarrow> if acc * radix + d < bound then radix_digits radix bound cs (acc * radix + d) else None)"

definition from_str_radix :: "nat \<Rightarrow> string \<Rightarrow> 'a::len word option" where
  "from_str_radix radix s =
     (let ds = (case s of c # cs \<Rightarrow> if c = CHR ''+'' then cs else s | [] \<Rightarrow> s)
      in if ds = [] then None else map_option of_nat (radix_digits radix (2 ^ LENGTH('a)) ds 0))"

text \<open>Printing in a radix, with small letters.\<close>

definition digit_char :: "nat \<Rightarrow> char" where
  "digit_char d = char_of (if d < 10 then 48 + d else 87 + d)"

fun in_radix :: "nat \<Rightarrow> nat \<Rightarrow> string" where
  "in_radix radix n =
     (if n < radix \<or> radix < 2 then [digit_char n] else in_radix radix (n div radix) @ [digit_char (n mod radix)])"

declare in_radix.simps [simp del]

lemma to_digit_char:
  assumes "d < radix" and "radix \<le> 16"
  shows "to_digit radix (digit_char d) = Some d"
proof -
  have "(of_char (digit_char d) :: nat) = (if d < 10 then 48 + d else 87 + d) mod 256"
    by (simp only: digit_char_def of_char_of)
  also have "\<dots> = (if d < 10 then 48 + d else 87 + d)" using assms by simp
  finally show ?thesis using assms by (simp add: to_digit_def Let_def)
qed

lemma radix_digits_append:
  "radix_digits r b (xs @ ys) acc = Option.bind (radix_digits r b xs acc) (radix_digits r b ys)"
  by (induction xs arbitrary: acc) (auto split: option.split)

lemma in_radix_shape:
  assumes "2 \<le> radix" and "radix \<le> 16"
  shows "in_radix radix n \<noteq> [] \<and> (\<forall>c \<in> set (in_radix radix n). to_digit radix c \<noteq> None)"
  using assms
proof (induction radix n rule: in_radix.induct)
  case (1 radix n)
  then show ?case by (subst (1 2) in_radix.simps) (auto simp: to_digit_char)
qed

lemma radix_digits_in_radix:
  assumes "2 \<le> radix" and "radix \<le> 16" and "0 < b"
  shows "radix_digits radix b (in_radix radix n) 0 = (if n < b then Some n else None)"
  using assms
proof (induction radix n rule: in_radix.induct)
  case (1 radix n)
  show ?case
  proof (cases "n < radix")
    case True
    with 1(2-) show ?thesis by (subst in_radix.simps) (simp add: to_digit_char)
  next
    case False
    with 1 have IH: "radix_digits radix b (in_radix radix (n div radix)) 0 =
        (if n div radix < b then Some (n div radix) else None)" by simp
    have n: "n div radix * radix + n mod radix = n" by simp
    have "n mod radix < radix" using 1(2) by simp
    with False 1(2,3) IH n show ?thesis
      by (subst in_radix.simps)
        (auto simp: radix_digits_append to_digit_char dest: order.strict_trans1 [OF div_le_dividend])
  qed
qed

lemma from_str_radix_print:
  assumes "2 \<le> radix" and "radix \<le> 16"
  shows "from_str_radix radix (in_radix radix n) =
     (if n < 2 ^ LENGTH('a::len) then Some (of_nat n :: 'a word) else None)"
proof -
  note shape = in_radix_shape [OF assms, of n]
  have "in_radix radix n \<noteq> CHR ''+'' # cs" for cs
  proof
    assume "in_radix radix n = CHR ''+'' # cs"
    with shape have "to_digit radix (CHR ''+'') \<noteq> None" by simp
    then show False by (simp add: to_digit_def)
  qed
  then have "(case in_radix radix n of c # cs \<Rightarrow> if c = CHR ''+'' then cs else in_radix radix n
      | [] \<Rightarrow> in_radix radix n) = in_radix radix n" by (auto split: list.split)
  with shape radix_digits_in_radix [OF assms, of "2 ^ LENGTH('a)" n] show ?thesis
    by (simp add: from_str_radix_def)
qed

section \<open>The options\<close>

record arg =
  arg_name :: string
  arg_short :: "string option"
  arg_long :: "string option"
  arg_takes_value :: bool
  arg_required :: bool
  arg_default :: "string option"

definition with_name :: "string \<Rightarrow> arg" where
  "with_name n = \<lparr>arg_name = n, arg_short = None, arg_long = None, arg_takes_value = False,
     arg_required = False, arg_default = None\<rparr>"

definition long_option :: "string \<Rightarrow> string \<Rightarrow> string \<Rightarrow> arg" where
  "long_option n l d = (with_name n)\<lparr>arg_long := Some l, arg_default := Some d\<rparr>"

definition short_option :: "string \<Rightarrow> string \<Rightarrow> string \<Rightarrow> arg" where
  "short_option n s d = (with_name n)\<lparr>arg_short := Some s, arg_default := Some d\<rparr>"

definition app_args :: "arg list" where
  "app_args =
     [(with_name ''process'')\<lparr>arg_short := Some ''p'', arg_takes_value := True, arg_required := True\<rparr>,
      long_option ''buff_size'' ''buff_size'' ''256'',
      short_option ''mtc_freq'' ''m'' ''3'',
      long_option ''psb_freq'' ''psb'' ''5'',
      long_option ''cyc_thld'' ''cyc'' ''1'',
      long_option ''addr0_cfg'' ''addr0_cfg'' ''0'',
      long_option ''addr0_start'' ''addr0_start'' ''0'',
      long_option ''addr0_end'' ''addr0_end'' ''0'',
      short_option ''out_dir'' ''o'' (''x:'' @ [CHR 0x5C]),
      long_option ''file_size'' ''file_size'' ''1GB'']"

record options =
  opt_process :: string
  opt_buff_size :: u32
  opt_mtc :: u32
  opt_psb :: u32
  opt_cyc :: u32
  opt_addr0_cfg :: u32
  opt_addr0_start :: u32
  opt_addr0_end :: u32
  opt_out_dir :: string
  opt_file_size :: string

text \<open>\<open>clap args name\<close>: the answer of \<open>matches.value_of(name)\<close> when \<open>args\<close> were declared.\<close>

type_synonym clap = "arg list \<Rightarrow> string \<Rightarrow> string option"

definition unwrap :: "'a option \<Rightarrow> 'a res" where
  "unwrap r = (case r of None \<Rightarrow> Inl UnwrapNone | Some x \<Rightarrow> Inr x)"

definition unwrap_ok :: "'a option \<Rightarrow> 'a res" where
  "unwrap_ok r = (case r of None \<Rightarrow> Inl UnwrapErr | Some x \<Rightarrow> Inr x)"

definition opt_number :: "clap \<Rightarrow> nat \<Rightarrow> string \<Rightarrow> u32 res" where
  "opt_number clap radix name =
     res_bind (unwrap (clap app_args name)) (\<lambda>s. unwrap_ok (from_str_radix radix s))"

definition read_options :: "clap \<Rightarrow> options res" where
  "read_options clap =
     res_bind (unwrap (clap app_args ''process'')) (\<lambda>proc_name.
     res_bind (opt_number clap 10 ''buff_size'') (\<lambda>buff_size.
     res_bind (opt_number clap 10 ''mtc_freq'') (\<lambda>mtc.
     res_bind (opt_number clap 10 ''psb_freq'') (\<lambda>psb.
     res_bind (opt_number clap 10 ''cyc_thld'') (\<lambda>cyc.
     res_bind (opt_number clap 10 ''addr0_cfg'') (\<lambda>addr0_cfg.
     res_bind (opt_number clap 16 ''addr0_start'') (\<lambda>addr0_start.
     res_bind (opt_number clap 16 ''addr0_end'') (\<lambda>addr0_end.
     res_bind (unwrap (clap app_args ''out_dir'')) (\<lambda>out_dir.
     res_bind (unwrap (clap app_args ''file_size'')) (\<lambda>file_size.
     Inr \<lparr>opt_process = proc_name, opt_buff_size = buff_size, opt_mtc = mtc, opt_psb = psb, opt_cyc = cyc,
          opt_addr0_cfg = addr0_cfg, opt_addr0_start = addr0_start, opt_addr0_end = addr0_end,
          opt_out_dir = out_dir, opt_file_size = file_size\<rparr>))))))))))"

text \<open>
  What \<open>clap\<close> documents: the value of a declared option is the one given on the command line,
  or else its default.
\<close>

definition clap_values :: "clap \<Rightarrow> (string \<Rightarrow> string option) \<Rightarrow> bool" where
  "clap_values clap given \<longleftrightarrow> (\<forall>args. \<forall>a \<in> set args. distinct (map arg_name args) \<longrightarrow>
     clap args (arg_name a) = (case given (arg_name a) of Some v \<Rightarrow> Some v | None \<Rightarrow> arg_default a))"

lemma app_args_distinct: "distinct (map arg_name app_args)"
  by code_simp

lemma clap_value:
  assumes "clap_values clap given" and "a \<in> set app_args"
  shows "clap app_args (arg_name a) = (case given (arg_name a) of Some v \<Rightarrow> Some v | None \<Rightarrow> arg_default a)"
  using assms app_args_distinct by (simp add: clap_values_def)

text \<open>The user gave the number \<open>v\<close>, or nothing and \<open>v\<close> is the default \<open>d\<close>.\<close>

definition gave :: "(string \<Rightarrow> string option) \<Rightarrow> nat \<Rightarrow> string \<Rightarrow> nat \<Rightarrow> nat \<Rightarrow> bool" where
  "gave given radix name d v \<longleftrightarrow> given name = Some (in_radix radix v) \<or> given name = None \<and> v = d"

definition default_of :: "string \<Rightarrow> string option" where
  "default_of name = Option.bind (map_of (map (\<lambda>a. (arg_name a, arg_default a)) app_args) name) (\<lambda>d. d)"

lemma opt_number_gave:
  assumes "clap_values clap given" and "gave given radix name d v"
    and "default_of name = Some (in_radix radix d)" and "2 \<le> radix" "radix \<le> 16"
  shows "opt_number clap radix name = (if v < 2 ^ 32 then Inr (of_nat v) else Inl UnwrapErr)"
proof -
  from assms(3) obtain a where "a \<in> set app_args" "arg_name a = name" "arg_default a = Some (in_radix radix d)"
    unfolding default_of_def by (auto simp: bind_eq_Some_conv dest!: map_of_SomeD)
  then have "clap app_args name = Some (in_radix radix v)"
    using clap_value [OF assms(1)] assms(2) by (auto simp: gave_def)
  then show ?thesis
    by (simp add: opt_number_def unwrap_def unwrap_ok_def from_str_radix_print [OF assms(4,5)])
qed

lemma default_numbers:
    "default_of ''buff_size'' = Some (in_radix 10 256)" "default_of ''mtc_freq'' = Some (in_radix 10 3)"
    "default_of ''psb_freq'' = Some (in_radix 10 5)" "default_of ''cyc_thld'' = Some (in_radix 10 1)"
    "default_of ''addr0_cfg'' = Some (in_radix 10 0)" "default_of ''addr0_start'' = Some (in_radix 16 0)"
    "default_of ''addr0_end'' = Some (in_radix 16 0)"
  by code_simp+

lemma clap_strings:
  assumes "clap_values clap given"
  shows "clap app_args ''process'' = given ''process''"
    and "clap app_args ''out_dir'' = Some (case given ''out_dir'' of Some v \<Rightarrow> v | None \<Rightarrow> ''x:'' @ [CHR 0x5C])"
    and "clap app_args ''file_size'' = Some (case given ''file_size'' of Some v \<Rightarrow> v | None \<Rightarrow> ''1GB'')"
  using clap_value [OF assms, of "app_args ! 0"] clap_value [OF assms, of "app_args ! 8"]
    clap_value [OF assms, of "app_args ! 9"]
  by (simp_all add: app_args_def long_option_def short_option_def with_name_def split: option.splits)

lemma res_bind_if: "res_bind (if P then Inr x else Inl e) f = (if P then f x else Inl e)"
  by simp

lemma read_options_exact:
  assumes "clap_values clap given" and "given ''process'' = Some p"
    and "gave given 10 ''buff_size'' 256 bs" and "gave given 10 ''mtc_freq'' 3 m"
    and "gave given 10 ''psb_freq'' 5 psb" and "gave given 10 ''cyc_thld'' 1 cyc"
    and "gave given 10 ''addr0_cfg'' 0 cfg" and "gave given 16 ''addr0_start'' 0 lo"
    and "gave given 16 ''addr0_end'' 0 hi"
  shows "read_options clap =
     (if \<forall>v \<in> {bs, m, psb, cyc, cfg, lo, hi}. v < 2 ^ 32
      then Inr \<lparr>opt_process = p, opt_buff_size = of_nat bs, opt_mtc = of_nat m, opt_psb = of_nat psb,
        opt_cyc = of_nat cyc, opt_addr0_cfg = of_nat cfg, opt_addr0_start = of_nat lo, opt_addr0_end = of_nat hi,
        opt_out_dir = (case given ''out_dir'' of Some v \<Rightarrow> v | None \<Rightarrow> ''x:'' @ [CHR 0x5C]),
        opt_file_size = (case given ''file_size'' of Some v \<Rightarrow> v | None \<Rightarrow> ''1GB'')\<rparr>
      else Inl UnwrapErr)"
proof -
  note num = opt_number_gave [OF assms(1)] and ten = default_numbers
  have r: "(2 :: nat) \<le> 10" "(10 :: nat) \<le> 16" "(2 :: nat) \<le> 16" "(16 :: nat) \<le> 16" by simp_all
  show ?thesis
    unfolding read_options_def clap_strings [OF assms(1)] assms(2)
      num [OF assms(3) ten(1) r(1,2)] num [OF assms(4) ten(2) r(1,2)] num [OF assms(5) ten(3) r(1,2)]
      num [OF assms(6) ten(4) r(1,2)] num [OF assms(7) ten(5) r(1,2)] num [OF assms(8) ten(6) r(3,4)]
      num [OF assms(9) ten(7) r(3,4)]
    by (simp only: unwrap_def option.case res_bind.simps res_bind_if if_if_eq_conj ball_simps simp_thms)
qed

section \<open>Properties\<close>

text \<open>
  C31: \<open>main\<close> reads back the numbers on its command line, printed in decimal or,
  for the address range, in hexadecimal, with the declared defaults for those not given; it
  panics exactly when one of them needs more than 32 bits, as an address above 4 GB does.
\<close>

theorem options_exact:
  assumes "clap_values clap given" and "given ''process'' = Some p"
    and "gave given 10 ''buff_size'' 256 bs" and "gave given 10 ''mtc_freq'' 3 m"
    and "gave given 10 ''psb_freq'' 5 psb" and "gave given 10 ''cyc_thld'' 1 cyc"
    and "gave given 10 ''addr0_cfg'' 0 cfg" and "gave given 16 ''addr0_start'' 0 lo"
    and "gave given 16 ''addr0_end'' 0 hi"
  shows "read_options clap =
     (if \<forall>v \<in> {bs, m, psb, cyc, cfg, lo, hi}. v < 2 ^ 32
      then Inr \<lparr>opt_process = p, opt_buff_size = of_nat bs, opt_mtc = of_nat m, opt_psb = of_nat psb,
        opt_cyc = of_nat cyc, opt_addr0_cfg = of_nat cfg, opt_addr0_start = of_nat lo, opt_addr0_end = of_nat hi,
        opt_out_dir = (case given ''out_dir'' of Some v \<Rightarrow> v | None \<Rightarrow> ''x:'' @ [CHR 0x5C]),
        opt_file_size = (case given ''file_size'' of Some v \<Rightarrow> v | None \<Rightarrow> ''1GB'')\<rparr>
      else Inl UnwrapErr)"
  using assms by (rule read_options_exact)

text \<open>A parser that finds \<open>-p game.exe --addr0_start 140000000\<close>, an address of a 64-bit module.\<close>

definition demo_given :: "string \<Rightarrow> string option" where
  "demo_given n = (if n = ''process'' then Some ''game.exe''
     else if n = ''addr0_start'' then Some (in_radix 16 0x140000000) else None)"

definition demo_clap :: "(string \<Rightarrow> string option) \<Rightarrow> clap" where
  "demo_clap given args n = (case given n of Some v \<Rightarrow> Some v
     | None \<Rightarrow> Option.bind (find (\<lambda>a. arg_name a = n) args) arg_default)"

lemma demo_clap_values: "clap_values (demo_clap given) given"
  unfolding clap_values_def
proof (intro allI ballI impI)
  fix args :: "arg list" and a assume a: "a \<in> set args" "distinct (map arg_name args)"
  then have "find (\<lambda>x. arg_name x = arg_name a) args = Some a"
    by (induction args) (auto simp: image_iff)
  then show "demo_clap given args (arg_name a) =
      (case given (arg_name a) of Some v \<Rightarrow> Some v | None \<Rightarrow> arg_default a)"
    by (simp add: demo_clap_def split: option.split)
qed

theorem options_exact_witness: "read_options (demo_clap demo_given) = Inl UnwrapErr"
proof -
  have "gave demo_given 16 ''addr0_start'' 0 0x140000000" by (simp add: gave_def demo_given_def)
  from options_exact [OF demo_clap_values _ _ _ _ _ _ this, of "''game.exe''" 256 3 5 1 0 0] show ?thesis
    by (simp add: gave_def demo_given_def)
qed

end
