(* ===== verification/OnlineMain.thy ===== *)
theory OnlineMain
  imports Tracing Options Report
begin

text \<open>
  The online processor as a whole (\<open>main\<close> of \<open>src/src/bin/online_proc.rs\<close>): the options, the
  driver requests, the capture with the pipeline of splitters and workers running beside it,
  the joins, the merge and the report; and its correctness, from the bytes the hardware wrote
  to the report file.
\<close>

section \<open>The callback of the capture\<close>

text \<open>
  Between two calls of the callback the other threads take steps: \<open>others t\<close> are those before
  call \<open>t\<close>, the press of Ctrl-C among them. A run in which a thread panics is not continued;
  \<open>None\<close> is a thread that does not come back.
\<close>

definition online_callback ::
    "build \<Rightarrow> ('d, 'w MemCacher \<times> 'w) libipt \<Rightarrow> (u32 \<Rightarrow> u32) \<Rightarrow> 'w ioctl \<Rightarrow> ('w \<Rightarrow> u64)
     \<Rightarrow> (nat \<Rightarrow> online_event list) \<Rightarrow> 'w online res option Capture.processor" where
  "online_callback b L ctl_code ioctl ptr others t i buff sz r =
     (case r of
        Some (Inr st) \<Rightarrow>
          (case online_run b L ctl_code ioctl ptr (others t) st of
             Some (Inr st1) \<Rightarrow>
               (case processor i buff sz st1 of
                  Inl e \<Rightarrow> (False, Some (Inl e))
                | Inr (go_on, st2) \<Rightarrow> (go_on, Some (Inr st2)))
           | r' \<Rightarrow> (False, r'))
      | _ \<Rightarrow> (False, r))"

definition no_feeds :: "online_event list \<Rightarrow> bool" where
  "no_feeds es \<longleftrightarrow> (\<forall>e \<in> set es. case e of Feed i buff sz \<Rightarrow> False | _ \<Rightarrow> True)"

lemma no_feeds_fed: "no_feeds es \<Longrightarrow> fed i es = []"
  by (induction es) (auto simp: no_feeds_def fed_def split: online_event.splits)

lemma no_feeds_ok: "no_feeds es \<Longrightarrow> \<forall>e \<in> set es. ok_event n e"
  by (auto simp: no_feeds_def ok_event_def split: online_event.splits)

section \<open>Stopping\<close>

lemma online_step_stop:
  assumes "online_step b L ctl_code ioctl ptr e st = Some (Inr st')"
  shows "G_STOP st' \<longleftrightarrow> G_STOP st \<or> e = CtrlC"
proof (cases e)
  case (Feed i buff sz)
  with assms show ?thesis by (auto simp: processor_def map_sum_Inr_iff res_simps split: if_splits)
next
  case (Split i)
  with assms show ?thesis
    by (auto simp: split_step_def split_with_def map_sum_Inr_iff split: if_splits list.splits)
next
  case (Work i)
  with assms show ?thesis
    by (auto simp: work_step_def map_sum_Inr_iff split: if_splits list.splits option.splits)
qed (use assms in auto)

lemma online_run_stop:
  "online_run b L ctl_code ioctl ptr es st = Some (Inr st') \<Longrightarrow> G_STOP st' \<longleftrightarrow> G_STOP st \<or> CtrlC \<in> set es"
proof (induction es arbitrary: st)
  case (Cons e es)
  from Cons.prems obtain st1 where "online_step b L ctl_code ioctl ptr e st = Some (Inr st1)"
    "online_run b L ctl_code ioctl ptr es st1 = Some (Inr st')" by (auto split: option.splits sum.splits)
  with online_step_stop [OF this(1)] Cons.IH [OF this(2)] show ?case by auto
qed simp

definition stopped :: "'w online res option \<Rightarrow> bool" where
  "stopped r \<longleftrightarrow> (case r of Some (Inr st) \<Rightarrow> G_STOP st | _ \<Rightarrow> True)"

lemma online_callback_stops:
  assumes "CtrlC \<in> set (others T)" and "T < t \<longrightarrow> stopped r"
  shows "stopped (snd (online_callback b L ctl_code ioctl ptr others t i buff sz r)) \<or> t < T"
    and "T \<le> t \<Longrightarrow> \<not> fst (online_callback b L ctl_code ioctl ptr others t i buff sz r)"
proof -
  let ?cb = "online_callback b L ctl_code ioctl ptr others t i buff sz r"
  have "stopped (snd ?cb) \<and> \<not> fst ?cb" if T: "T \<le> t"
  proof (cases "\<exists>st st1 go st2. r = Some (Inr st) \<and> online_run b L ctl_code ioctl ptr (others t) st = Some (Inr st1)
      \<and> processor i buff sz st1 = Inr (go, st2)")
    case False
    then show ?thesis
      by (auto simp: online_callback_def stopped_def split: option.splits sum.splits prod.splits)
  next
    case True
    then obtain st st1 go st2 where r: "r = Some (Inr st)"
      "online_run b L ctl_code ioctl ptr (others t) st = Some (Inr st1)" "processor i buff sz st1 = Inr (go, st2)"
      by blast
    have "go \<longleftrightarrow> \<not> G_STOP st1" "G_STOP st2 = G_STOP st1"
      using r(3) by (auto simp: processor_def res_simps split: if_splits)
    moreover have "G_STOP st1"
      using online_run_stop [OF r(2)] assms T r(1) by (cases "T = t") (auto simp: stopped_def)
    ultimately show ?thesis using r by (simp add: online_callback_def stopped_def)
  qed
  then show "stopped (snd ?cb) \<or> t < T" "T \<le> t \<Longrightarrow> \<not> fst ?cb" by auto
qed

interpretation online_client: capture_client "online_callback b L ctl_code ioctl ptr others"
    "\<lambda>t r. CtrlC \<in> set (others T) \<and> (T < t \<longrightarrow> stopped r)" T
  for b L ctl_code ioctl ptr others T
proof (unfold_locales, goal_cases)
  case (1 t r i d n)
  then have c: "CtrlC \<in> set (others T)" "T < t \<longrightarrow> stopped r" by blast+
  show ?case using online_callback_stops(1) [where others = others, OF c] c(1) by (simp add: not_less_eq [symmetric]) blast
next
  case (2 t r i d n)
  then have "CtrlC \<in> set (others T)" "T < t \<longrightarrow> stopped r" by blast+
  then show ?case by (rule online_callback_stops(2) [OF _ _ 2(2)])
qed

section \<open>The run behind a capture\<close>

text \<open>
  The state the callback has reached is that of a run of the pipeline in which each splitter
  was sent what was delivered of its ring.
\<close>

definition follows ::
    "build \<Rightarrow> ('d, 'w MemCacher \<times> 'w) libipt \<Rightarrow> (u32 \<Rightarrow> u32) \<Rightarrow> 'w ioctl \<Rightarrow> ('w \<Rightarrow> u64) \<Rightarrow> nat
     \<Rightarrow> 'w online \<Rightarrow> online_event list \<Rightarrow> 'w online res option \<times> deliveries \<Rightarrow> bool" where
  "follows b L ctl_code ioctl ptr n st0 es = (\<lambda>(r, dl).
     online_run b L ctl_code ioctl ptr es st0 = r
     \<and> (\<forall>i. \<exists>rest. blocks_of i dl = fed i es @ rest)
     \<and> ((\<exists>st. r = Some (Inr st)) \<longrightarrow> (\<forall>i. blocks_of i dl = fed i es))
     \<and> (\<forall>e \<in> set es. ok_event n e))"

lemma follows_snoc:
  assumes fol: "follows b L ctl_code ioctl ptr n st0 es (r, dl)" and "\<forall>t. no_feeds (others t)"
    and cb: "(a, r') = online_callback b L ctl_code ioctl ptr others t i tmp m r"
    and "i < n" "m \<le> length tmp"
  shows "\<exists>es'. follows b L ctl_code ioctl ptr n st0 es' (r', dl @ [(i, take m tmp)])"
proof -
  from fol have run: "online_run b L ctl_code ioctl ptr es st0 = r"
    and blocks: "\<forall>i. \<exists>rest. blocks_of i dl = fed i es @ rest"
    and all: "\<And>st. r = Some (Inr st) \<Longrightarrow> \<forall>i. blocks_of i dl = fed i es"
    and ok: "\<forall>e \<in> set es. ok_event n e" by (auto simp: follows_def)
  have grow: "\<forall>j. \<exists>rest. blocks_of j (dl @ [(i, take m tmp)]) = fed j es' @ rest"
    if "\<And>j. fed j es' = fed j es" for es'
    using blocks that by (metis append.assoc blocks_of_append)
  show ?thesis
  proof (cases "\<exists>st. r = Some (Inr st)")
    case False
    then have "r' = r" using cb by (auto simp: online_callback_def split: option.splits sum.splits)
    with False run grow [of es] ok show ?thesis by (intro exI [of _ es]) (auto simp: follows_def)
  next
    case True
    then obtain st where r: "r = Some (Inr st)" by blast
    note others = no_feeds_fed [OF spec [OF assms(2), of t]] no_feeds_ok [OF spec [OF assms(2), of t]]
    let ?es = "es @ others t"
    have next_run: "online_run b L ctl_code ioctl ptr (?es @ fs) st0 =
        online_run b L ctl_code ioctl ptr (others t @ fs) st" for fs
      using online_run_snoc [OF run [unfolded r]] by simp
    show ?thesis
    proof (cases "\<exists>st1. online_run b L ctl_code ioctl ptr (others t) st = Some (Inr st1)")
      case False
      then have "r' = online_run b L ctl_code ioctl ptr (others t) st"
        using cb r by (auto simp: online_callback_def split: option.splits sum.splits)
      with False next_run [of "[]"] grow [of ?es] ok others(2) [of n] show ?thesis
        by (intro exI [of _ ?es]) (auto simp: follows_def others(1))
    next
      case True
      then obtain st1 where st1: "online_run b L ctl_code ioctl ptr (others t) st = Some (Inr st1)" by blast
      let ?fs = "?es @ [Feed i tmp m]"
      have "r' = Some (map_sum id snd (processor i tmp m st1))"
        using cb r st1 by (auto simp: online_callback_def split: sum.splits prod.splits)
      moreover have "online_run b L ctl_code ioctl ptr ?fs st0 = Some (map_sum id snd (processor i tmp m st1))"
        using next_run [of "[Feed i tmp m]"] online_run_snoc [OF st1, of "[Feed i tmp m]"]
        by (auto split: sum.splits)
      moreover have "blocks_of j (dl @ [(i, take m tmp)]) = fed j ?fs" for j
        using all [OF r] assms(5) by (auto simp: others(1))
      moreover have "\<forall>e \<in> set ?fs. ok_event n e"
        using ok others(2) [of n] assms(4,5) by (auto simp: ok_event_def)
      ultimately show ?thesis by (intro exI [of _ ?fs]) (auto simp: follows_def)
    qed
  qed
qed

section \<open>Feasible traces\<close>

text \<open>\<open>tr i\<close> is the trace of processor \<open>i\<close>.\<close>

definition trace_pieces :: "(bytes \<Rightarrow> nat list) \<Rightarrow> nat \<Rightarrow> (nat \<Rightarrow> bytes) \<Rightarrow> bytes list" where
  "trace_pieces offs n tr = concat (map (\<lambda>i. segments (tr i) (offs (tr i))) [0..<n])"

definition feasible_traces ::
    "('d, 's) libipt \<Rightarrow> (bytes \<Rightarrow> nat list) \<Rightarrow> ('d \<Rightarrow> (pt_error_code + u64) \<times> 'd) \<Rightarrow> (bytes \<Rightarrow> u64 list)
     \<Rightarrow> nat \<Rightarrow> (nat \<Rightarrow> bytes) \<Rightarrow> bool" where
  "feasible_traces L offs nxt ips_of n tr \<longleftrightarrow> (\<forall>i < n. length (tr i) < 2 ^ 64)
     \<and> (\<forall>p \<in> set (trace_pieces offs n tr). piece_yields L nxt p (ips_of p))
     \<and> length (insns ips_of (trace_pieces offs n tr)) < 2 ^ 64"

lemma trace_pieces_cong: "(\<And>i. i < n \<Longrightarrow> tr i = tr' i) \<Longrightarrow> trace_pieces offs n tr = trace_pieces offs n tr'"
  unfolding trace_pieces_def by (intro arg_cong [of _ _ concat] map_cong) auto

lemma all_pieces_traces: "all_pieces offs n es = trace_pieces offs n (\<lambda>i. concat (fed i es))"
  by (simp add: all_pieces_def trace_pieces_def segs_def)

lemma feasible_iff_traces:
  "feasible L offs nxt ips_of n es \<longleftrightarrow>
     (\<forall>e \<in> set es. ok_event n e) \<and> feasible_traces L offs nxt ips_of n (\<lambda>i. concat (fed i es))"
  by (simp add: feasible_def feasible_traces_def all_pieces_traces)

lemma feasible_traces_prefix:
  assumes "sync_points offs" and fe: "feasible_traces L offs nxt ips_of n tr"
    and pre: "\<And>i. i < n \<Longrightarrow> \<exists>rest. tr i = tr' i @ rest"
  shows "feasible_traces L offs nxt ips_of n tr'"
proof -
  have sub: "mset (trace_pieces offs n tr') \<subseteq># mset (trace_pieces offs n tr)"
    unfolding trace_pieces_def
  proof (rule mset_concat_prefix)
    fix i assume "i < n"
    then obtain rest where "tr i = tr' i @ rest" using pre by blast
    then show "\<exists>more. segments (tr i) (offs (tr i)) = segments (tr' i) (offs (tr' i)) @ more"
      using segs_prefix [OF assms(1), of "[tr' i]" "[rest]"] by (simp add: segs_def)
  qed
  have "length (tr' i) < 2 ^ 64" if "i < n" for i
  proof -
    obtain rest where "tr i = tr' i @ rest" using pre \<open>i < n\<close> by blast
    moreover have "length (tr i) < 2 ^ 64" using fe that unfolding feasible_traces_def by blast
    ultimately show ?thesis by simp
  qed
  moreover have "set (trace_pieces offs n tr') \<subseteq> set (trace_pieces offs n tr)"
    using set_mset_mono [OF sub] by simp
  moreover have "length (insns ips_of (trace_pieces offs n tr')) < 2 ^ 64"
    using length_insns_mono [OF sub, of ips_of] fe by (simp add: feasible_traces_def)
  ultimately show ?thesis using fe unfolding feasible_traces_def by blast
qed

section \<open>From the hardware to the pipeline\<close>

lemma online_callback_capture:
  assumes ready: "rings_ready rsp mem" and n: "unat (out_buff_num rsp) = n"
    and others: "\<forall>t. no_feeds (others t)" "CtrlC \<in> set (others T)"
  shows "\<exists>c' es. capture_loop (Suc T) (tracing rsp tr) (logged (online_callback b L ctl_code ioctl ptr others)) rsp
        (capture_start rsp mem (Some (Inr st0), [])) = Some (Inr c')
     \<and> trace_inv rsp tr c' \<and> follows b L ctl_code ioctl ptr n st0 es (proc_st c')"
proof -
  let ?pr = "online_callback b L ctl_code ioctl ptr others"
  let ?c = "capture_start rsp mem (Some (Inr st0), [] :: deliveries)"
  let ?P = "\<lambda>c. trace_inv rsp tr c \<and> (\<exists>es. follows b L ctl_code ioctl ptr n st0 es (proc_st c))"
  from online_client.client_traced [OF ready, where others = others and T = T and st = "Some (Inr st0)" and w = tr
      and b = b and L = L and ctl_code = ctl_code and ioctl = ioctl and ptr = ptr] others(2)
  obtain c' where run: "capture_loop (Suc T) (tracing rsp tr) (logged ?pr) rsp ?c = Some (Inr c')" by blast
  have "?P c'"
  proof (rule capture_loop_invariant [OF run, where P = ?P])
    have "follows b L ctl_code ioctl ptr n st0 [] (Some (Inr st0), [])" by (simp add: follows_def)
    then show "?P ?c" using trace_inv_start [OF ready] by (auto simp: capture_start_def)
  next
    fix i c a c1
    assume i: "i < unat (out_buff_num rsp)" and P: "?P c" and v: "visit (tracing rsp tr) (logged ?pr) rsp i c = Inr (a, c1)"
    from P obtain es where es: "trace_inv rsp tr c" "follows b L ctl_code ioctl ptr n st0 es (fst (proc_st c), snd (proc_st c))"
      by auto
    from visit_trace(2) [OF es(1) i v] obtain tmp m where
      dl: "snd (proc_st c1) = snd (proc_st c) @ [(i, take m tmp)]" "m \<le> length tmp" and
      cb: "(a, fst (proc_st c1)) = ?pr (tick c) i tmp m (fst (proc_st c))" by blast
    from follows_snoc [OF es(2) others(1) cb _ dl(2)] i n
    have "\<exists>es'. follows b L ctl_code ioctl ptr n st0 es' (proc_st c1)" by (metis dl(1) prod.collapse)
    with visit_trace(1) [OF es(1) i v] show "?P c1" by blast
  qed
  with run show ?thesis by blast
qed

text \<open>The run of the capture that records what is delivered.\<close>

definition hardware_in_time ::
    "nat \<Rightarrow> PtSetupRst \<Rightarrow> traffic \<Rightarrow> 'p Capture.processor \<Rightarrow> (u64 \<Rightarrow> bytes) \<Rightarrow> 'p \<Rightarrow> bool" where
  "hardware_in_time fuel rsp tr pr mem st \<longleftrightarrow>
     (\<forall>c'. capture_loop fuel (tracing rsp tr) (logged pr) rsp (capture_start rsp mem (st, [])) = Some (Inr c')
        \<longrightarrow> keeps_up rsp tr (snd (proc_st c')))"

lemma online_capture:
  assumes se: "online_setting L offs nxt ctl_code ioctl ptr h pid mem"
    and env: "create_env b n clock file_size h pid dk w = Inr st0" and n: "2 \<le> n" "n < 2 ^ 64"
    and ready: "rings_ready rsp mp" and rings: "unat (out_buff_num rsp) = n"
    and others: "\<forall>t. no_feeds (others t)" "CtrlC \<in> set (others T)"
    and time: "hardware_in_time (Suc T) rsp tr (online_callback b L ctl_code ioctl ptr others) mp (Some (Inr st0))"
    and fe: "\<forall>t. feasible_traces L offs nxt ips_of n (wrote tr t)"
  shows "\<exists>c' es st t seen. capture_loop (Suc T) (tracing rsp tr) (online_callback b L ctl_code ioctl ptr others) rsp
        (capture_start rsp mp (Some (Inr st0))) = Some (Inr c') \<and> proc_st c' = Some (Inr st)
     \<and> online_run b L ctl_code ioctl ptr es st0 = Some (Inr st) \<and> feasible L offs nxt ips_of n es
     \<and> all_pieces offs n es = trace_pieces offs n seen
     \<and> (\<forall>i < n. \<exists>unread. wrote tr t i = seen i @ unread)"
proof -
  let ?pr = "online_callback b L ctl_code ioctl ptr others"
  from online_callback_capture [OF ready rings others, of tr b L ctl_code ioctl ptr st0] obtain c' es where
    run: "capture_loop (Suc T) (tracing rsp tr) (logged ?pr) rsp (capture_start rsp mp (Some (Inr st0), [])) = Some (Inr c')"
    and inv: "trace_inv rsp tr c'" and fol: "follows b L ctl_code ioctl ptr n st0 es (proc_st c')" by blast
  define dl where "dl = snd (proc_st c')"
  have ku: "keeps_up rsp tr dl" using time run by (simp add: hardware_in_time_def dl_def)
  from fol have es: "online_run b L ctl_code ioctl ptr es st0 = fst (proc_st c')"
    "\<And>i. \<exists>rest. blocks_of i dl = fed i es @ rest" "\<forall>e \<in> set es. ok_event n e"
    and all: "\<And>st i. fst (proc_st c') = Some (Inr st) \<Longrightarrow> blocks_of i dl = fed i es"
    by (auto simp: follows_def dl_def case_prod_unfold)
  have del: "\<exists>unread. wrote tr (tick c') i = delivered i dl @ unread" if "i < n" for i
    using trace_inv_delivered [OF inv] ku that rings by (simp add: dl_def)
  have "\<exists>rest. wrote tr (tick c') i = concat (fed i es) @ rest" if "i < n" for i
    using del [OF that] es(2) [of i] by (auto simp: delivered_def)
  then have "feasible_traces L offs nxt ips_of n (\<lambda>i. concat (fed i es))"
    using feasible_traces_prefix [OF _ spec [OF fe, of "tick c'"]] se by (simp add: online_setting_def)
  with es(3) have feas: "feasible L offs nxt ips_of n es" by (simp add: feasible_iff_traces)
  from online_reach [OF se env n this] es(1) obtain st where st: "fst (proc_st c') = Some (Inr st)" by auto
  have start: "capture_start rsp mp (Some (Inr st0)) = unlog (capture_start rsp mp (Some (Inr st0), []))"
    by (simp add: capture_start_def unlog_def)
  have "capture_loop (Suc T) (tracing rsp tr) ?pr rsp (capture_start rsp mp (Some (Inr st0))) = Some (Inr (unlog c'))"
    unfolding start capture_loop_unlog run by simp
  moreover have "all_pieces offs n es = trace_pieces offs n (\<lambda>i. delivered i dl)"
    unfolding all_pieces_traces delivered_def all [OF st] ..
  ultimately show ?thesis using es(1) st feas del
    by (intro exI [of _ "unlog c'"] exI [of _ es] exI [of _ st] exI [of _ "tick c'"] exI [of _ "\<lambda>i. delivered i dl"]) simp
qed

section \<open>\<open>main\<close>\<close>

text \<open>
  What \<open>main\<close> asks of the machine it runs on: the Windows calls behind the device handle, the
  parsed command line, the process list and the own process id, the number of processors, the
  clock, the file system, the driver with the control codes, the address of a buffer and the
  mapping of the rings, the tracing hardware, the library of module information, the JSON text
  of a report, whether its file can be created, and the seconds at that time.
\<close>

record 'w machine =
  wide_chars :: "string \<Rightarrow> nat \<Rightarrow> nat \<times> u16 list"
  create_file :: "u16 list \<Rightarrow> u64"
  invalid_handle :: u64
  last_error :: u32
  close_handle :: "u64 \<Rightarrow> 32 word"
  arguments :: clap
  process_list :: "(usize \<times> string) list"
  own_pid :: "usize option"
  processors :: nat
  clock_at :: "nat \<Rightarrow> nat"
  files_before :: disk
  ctl_codes :: "u32 \<Rightarrow> u32"
  driver :: "'w ioctl"
  buffer_at :: "'w \<Rightarrow> u64"
  mappings :: "'w \<Rightarrow> u64 \<Rightarrow> bytes"
  trace_hw :: hardware
  module_lib :: native_lib
  json_text :: "(string, usize) hash_map \<Rightarrow> string"
  can_create :: bool
  end_seconds :: nat

definition expect :: "string \<Rightarrow> 'e + 'a \<Rightarrow> 'a res" where
  "expect msg r = (case r of Inl e \<Rightarrow> Inl (Expect msg) | Inr x \<Rightarrow> Inr x)"

definition device_name :: string where
  "device_name = [CHR 0x5C, CHR 0x5C, CHR ''.'', CHR 0x5C] @ ''PtCollector''"

definition open_device :: "'w machine \<Rightarrow> u64 res" where
  "open_device m =
     res_bind (get_pt_handle (wide_chars m) (create_file m) (last_error m) (invalid_handle m) device_name)
       (expect ''Open pt driver failed'')"

definition announce_host :: "'w machine \<Rightarrow> u64 \<Rightarrow> 'w \<Rightarrow> 'w res" where
  "announce_host m h w =
     res_bind (unwrap_ok (own_pid m)) (\<lambda>me.
     let (r, w') = setup_host_pid (ctl_codes m) (driver m) h (ucast me) w in
     res_bind (expect ''Set Host Pid Failed'' r) (\<lambda>_. Inr w'))"

text \<open>\<open>main\<close> up to the start of the capture.\<close>

definition online_prepare :: "build \<Rightarrow> 'w machine \<Rightarrow> 'w \<Rightarrow> (u64 \<times> options \<times> usize \<times> 'w online \<times> 'w) res" where
  "online_prepare b m w =
     res_bind (open_device m) (\<lambda>h.
     res_bind (read_options (arguments m)) (\<lambda>opt.
     res_bind (unwrap (get_process_id (opt_process opt) (process_list m))) (\<lambda>p.
     res_bind (create_env b (processors m) (clock_at m) (opt_file_size opt) h p (files_before m) w) (\<lambda>st.
     res_bind (announce_host m h w) (\<lambda>w'.
     Inr (h, opt, p, st, w'))))))"

text \<open>From the end of the capture on; \<open>later\<close> are the steps the threads still take.\<close>

definition online_finish ::
    "build \<Rightarrow> ('d, 'w MemCacher \<times> 'w) libipt \<Rightarrow> 'w machine \<Rightarrow> u64 \<Rightarrow> online_event list
     \<Rightarrow> 'w online res option \<Rightarrow> (string \<times> string) res option" where
  "online_finish b L m h later r =
     (case r of
        None \<Rightarrow> None
      | Some (Inl e) \<Rightarrow> Some (Inl e)
      | Some (Inr st) \<Rightarrow>
          (case online_run b L (ctl_codes m) (driver m) (buffer_at m) later st of
             None \<Rightarrow> None
           | Some (Inl e) \<Rightarrow> Some (Inl e)
           | Some (Inr st') \<Rightarrow>
               if \<not> wait_for_complete st' then None
               else Some (
                 res_bind (collect_all_data b st') (\<lambda>data.
                 res_bind (write_to_file b (module_lib m) (json_text m) (can_create m) (end_seconds m) (PID st') data) (\<lambda>report.
                 res_bind (expect ''Close pt handle errord'' (close_pt_handle (close_handle m) (last_error m) h)) (\<lambda>_.
                 Inr report))))))"

text \<open>The result is the name and the text of the report file.\<close>

definition online_main ::
    "build \<Rightarrow> nat \<Rightarrow> ('d, 'w MemCacher \<times> 'w) libipt \<Rightarrow> 'w machine \<Rightarrow> (nat \<Rightarrow> online_event list)
     \<Rightarrow> online_event list \<Rightarrow> 'w \<Rightarrow> (string \<times> string) res option" where
  "online_main b fuel L m others later w =
     (case online_prepare b m w of
        Inl e \<Rightarrow> Some (Inl e)
      | Inr (h, opt, p, st, w') \<Rightarrow>
          (case setup_pt_no_pmi fuel (ctl_codes m) (driver m) h (ucast p) (opt_buff_size opt) (opt_mtc opt)
               (opt_psb opt) (opt_cyc opt) (opt_addr0_cfg opt) (opt_addr0_start opt) (opt_addr0_end opt)
               (trace_hw m) (mappings m)
               (online_callback b L (ctl_codes m) (driver m) (buffer_at m) others)
               (\<lambda>w''. Some (Inr (st\<lparr>drv_world := w''\<rparr>))) w' of
             None \<Rightarrow> None
           | Some (Inl e) \<Rightarrow> Some (Inl e)
           | Some (Inr c) \<Rightarrow> online_finish b L m h later (proc_st c)))"

section \<open>The report\<close>

text \<open>A report with an entry for each address executed in the pieces, and no other.\<close>

definition exact_report ::
    "ModuleInfo list \<Rightarrow> (bytes \<Rightarrow> u64 list) \<Rightarrow> bytes list \<Rightarrow> (string, usize) hash_map \<Rightarrow> bool" where
  "exact_report mods ips_of ps wt \<longleftrightarrow> (\<forall>k c. hm_get wt k = Some c \<longleftrightarrow>
     (\<exists>a. unat c = count_list (insns ips_of ps) a \<and> 0 < c \<and> k = report_key (located mods a)))"

lemma create_env_world:
  "create_env b n clock file_size h pid dk w = Inr st \<Longrightarrow>
   create_env b n clock file_size h pid dk w' = Inr (st\<lparr>drv_world := w'\<rparr>)"
  by (auto simp: create_env_def Let_def res_simps split: prod.splits)

lemma online_finish_exact:
  assumes se: "online_setting L offs nxt (ctl_codes m) (driver m) (buffer_at m) h pid mem"
    and env: "create_env b n clock file_size h pid dk w = Inr st0" and n: "2 \<le> n" "n < 2 ^ 64"
    and run: "online_run b L (ctl_codes m) (driver m) (buffer_at m) es st0 = Some (Inr st)"
    and fe: "feasible L offs nxt ips_of n es"
    and p: "Process_new (module_lib m) pid = Inr p" "separated (all_module_info p)" "names_unique (all_module_info p)"
    and win: "can_create m" "close_handle m h \<noteq> 0"
  shows "only_drains later \<Longrightarrow> online_finish b L m h later (Some (Inr st)) = None
      \<or> (\<exists>wt. online_finish b L m h later (Some (Inr st)) =
             Some (Inr (''result-'' @ dec (end_seconds m) @ ''.txt'', json_text m wt))
           \<and> exact_report (all_module_info p) ips_of (all_pieces offs n es) wt)"
    and "\<exists>later. only_drains later \<and> online_finish b L m h later (Some (Inr st)) \<noteq> None"
proof -
  let ?run = "online_run b L (ctl_codes m) (driver m) (buffer_at m)"
  let ?mem = "mem (ucast (ucast pid :: u32))"
  have main: "\<exists>st'. ?run later st = Some (Inr st') \<and> (wait_for_complete st' \<longrightarrow>
      (\<exists>wt. online_finish b L m h later (Some (Inr st)) =
             Some (Inr (''result-'' @ dec (end_seconds m) @ ''.txt'', json_text m wt))
           \<and> exact_report (all_module_info p) ips_of (all_pieces offs n es) wt))"
    if "only_drains later" for later
  proof -
    note fe' = feasible_drains [OF fe that]
    from online_reach [OF se env n fe'] obtain st' handled dn where
      st': "?run (es @ later) st0 = Some (Inr st')" and
      inv: "online_inv b offs ?mem ips_of n h pid (\<lambda>i. fed i (es @ later)) handled dn st'" by blast
    have run': "?run later st = Some (Inr st')" using st' online_run_snoc [OF run] by simp
    have pieces: "all_pieces offs n (es @ later) = all_pieces offs n es"
      using only_drains_fed [OF that] by (simp add: all_pieces_def)
    have "\<exists>wt. online_finish b L m h later (Some (Inr st)) =
             Some (Inr (''result-'' @ dec (end_seconds m) @ ''.txt'', json_text m wt))
           \<and> exact_report (all_module_info p) ips_of (all_pieces offs n es) wt" if "wait_for_complete st'"
    proof -
      have "length (insns ips_of (all_pieces offs n (es @ later))) < 2 ^ 64" using fe' by (simp add: feasible_def)
      from collect_exact [OF inv that this] obtain t where
        t: "collect_all_data b st' = Inr t" "wf_table t" and
        cnt: "\<And>x. unat (count_at t x) = count_list (insns ips_of (all_pieces offs n es)) x"
        unfolding pieces by blast
      have eq: "c = count_at t a \<longleftrightarrow> unat c = count_list (insns ips_of (all_pieces offs n es)) a" for c a
        using cnt by (metis unsigned_word_eqI)
      from write_to_file_located [OF p t(2), of b "json_text m" "end_seconds m"] obtain wt where
        wt: "write_to_file b (module_lib m) (json_text m) True (end_seconds m) pid t =
          Inr (''result-'' @ dec (end_seconds m) @ ''.txt'', json_text m wt)"
        "exact_report (all_module_info p) ips_of (all_pieces offs n es) wt"
        unfolding eq exact_report_def by blast
      have "PID st' = pid" using inv by (simp add: online_inv_def)
      with run' that t(1) wt win have "online_finish b L m h later (Some (Inr st)) =
          Some (Inr (''result-'' @ dec (end_seconds m) @ ''.txt'', json_text m wt))"
        by (simp add: online_finish_def expect_def close_pt_handle_def Let_def)
      with wt(2) show ?thesis by blast
    qed
    with run' show ?thesis by blast
  qed
  show "online_finish b L m h later (Some (Inr st)) = None
      \<or> (\<exists>wt. online_finish b L m h later (Some (Inr st)) =
             Some (Inr (''result-'' @ dec (end_seconds m) @ ''.txt'', json_text m wt))
           \<and> exact_report (all_module_info p) ips_of (all_pieces offs n es) wt)" if drains: "only_drains later"
  proof -
    from main [OF drains] obtain st' where st': "?run later st = Some (Inr st')" "wait_for_complete st' \<longrightarrow>
      (\<exists>wt. online_finish b L m h later (Some (Inr st)) =
             Some (Inr (''result-'' @ dec (end_seconds m) @ ''.txt'', json_text m wt))
           \<and> exact_report (all_module_info p) ips_of (all_pieces offs n es) wt)" by blast
    show ?thesis
    proof (cases "wait_for_complete st'")
      case False
      with st'(1) show ?thesis by (simp add: online_finish_def)
    next
      case True
      with st'(2) show ?thesis by blast
    qed
  qed
  from online_finishes [OF se env n fe] obtain fs st' where
    fs: "only_drains fs" "?run (es @ fs) st0 = Some (Inr st')" "wait_for_complete st'" by blast
  then have "?run fs st = Some (Inr st')" using online_run_snoc [OF run] by simp
  with main [OF fs(1)] fs(3) have "online_finish b L m h fs (Some (Inr st)) \<noteq> None" by auto
  with fs(1) show "\<exists>later. only_drains later \<and> online_finish b L m h later (Some (Inr st)) \<noteq> None" by blast
qed

section \<open>Properties\<close>


section \<open>A concrete machine\<close>

text \<open>
  Two processors; the driver of \<open>const_drv\<close> for memory, with two blank rings; and hardware
  that writes \<open>demo_trace\<close> to the first ring.
\<close>

definition demo_driver :: "unit ioctl" where
  "demo_driver h c req isz osz w = (case req of
     CopyMem r \<Rightarrow> const_drv 7 h c req isz osz w
   | ServerPid p \<Rightarrow> (\<lparr>io_ret = 1, io_mem = [], io_rsp = PidRsp 0, io_len = of_nat osz\<rparr>, w)
   | Setup s \<Rightarrow> ring_drv h c req isz osz w)"

definition demo_traffic :: traffic where
  "demo_traffic t i = (if t = 0 \<and> i = 0 then demo_trace else [])"

definition demo_options :: "string \<Rightarrow> string option" where
  "demo_options n = (if n = ''process'' then Some ''game.exe'' else if n = ''file_size'' then Some [] else None)"

definition demo_machine :: "unit machine" where
  "demo_machine = \<lparr>wide_chars = (\<lambda>_ _. (0, [])), create_file = (\<lambda>_. 1), invalid_handle = 0, last_error = 0,
     close_handle = (\<lambda>_. 1), arguments = demo_clap demo_options, process_list = [(5, ''game.exe'')],
     own_pid = Some 9, processors = 2, clock_at = (\<lambda>_. 0), files_before = no_files, ctl_codes = id,
     driver = demo_driver, buffer_at = (\<lambda>_. 0), mappings = (\<lambda>_ _. replicate 64 0xFF),
     trace_hw = tracing two_rings demo_traffic, module_lib = two_modules 99,
     json_text = (\<lambda>wt. concat (map fst wt)), can_create = True, end_seconds = 7\<rparr>"

lemma demo_setting:
  "online_setting one_lib (occurrences psb) one_nxt id demo_driver (\<lambda>_. 0) h pid (\<lambda>_ _. 7)"
proof -
  have "drv_reads id demo_driver (\<lambda>_ _. 7)"
    using const_drv_reads [of 7] by (simp add: drv_reads_def demo_driver_def)
  moreover have "reads_all (decode_reader id demo_driver ptr h pid)" for ptr
    using const_drv_serves [of 7 ptr h pid]
    by (simp add: reads_all_def decode_reader_def read_process_memory_drv_def demo_driver_def)
  ultimately show ?thesis
    by (simp add: online_setting_def one_lib_syncs psb_points one_lib_mem_only)
qed

lemma demo_wrote: "wrote demo_traffic t i = (if 0 < t \<and> i = 0 then demo_trace else [])"
  by (induction t) (simp_all add: wrote_Suc demo_traffic_def)

lemma demo_in_time: "hardware_in_time fuel two_rings demo_traffic pr mem st"
proof -
  have "length (wrote demo_traffic k i) \<le> 64" for k i by (simp add: demo_wrote demo_trace(2))
  moreover have "unat (out_buffer_len two_rings) = 64" by (simp add: two_rings_def)
  ultimately have "length (wrote demo_traffic (Suc k) i) \<le> unat (out_buffer_len two_rings) + length (delivered i ds)" for k i ds
    using le_add1 le_trans by metis
  then show ?thesis unfolding hardware_in_time_def keeps_up_def by blast
qed

lemma demo_feasible_traces: "feasible_traces one_lib (occurrences psb) one_nxt one_ips 2 (wrote demo_traffic t)"
proof -
  let ?es = "[Feed 0 demo_trace 50]"
  have "fed i ?es = (if i = 0 then [demo_trace] else [])" for i by (simp add: demo_trace(2))
  moreover have "\<forall>e \<in> set ?es. ok_event 2 e" by (simp add: ok_event_def demo_trace(2))
  ultimately have "feasible_traces one_lib (occurrences psb) one_nxt one_ips 2 (\<lambda>i. concat (fed i ?es))"
    using demo_feasible(1) [of ?es] unfolding feasible_iff_traces by blast
  then show ?thesis
    by (rule feasible_traces_prefix [OF psb_points]) (simp add: demo_wrote demo_trace(2))
qed

lemma demo_read_options:
  "\<exists>opt. read_options (demo_clap demo_options) = Inr opt \<and> opt_process opt = ''game.exe'' \<and> opt_file_size opt = []"
proof -
  have "gave demo_options r name d d" if "name \<noteq> ''process''" "name \<noteq> ''file_size''" for r name d
    using that by (simp add: gave_def demo_options_def)
  note g = this
  have "demo_options ''process'' = Some ''game.exe''" by (simp add: demo_options_def)
  from read_options_exact [OF demo_clap_values this g g g g g g g] show ?thesis
    by (simp add: demo_options_def)
qed

lemma demo_prepare:
  "\<exists>opt st. online_prepare Release demo_machine () = Inr (1, opt, 5, st, ())"
proof -
  obtain opt where opt: "read_options (demo_clap demo_options) = Inr opt" "opt_process opt = ''game.exe''" "opt_file_size opt = []"
    using demo_read_options by blast
  obtain st where st: "create_env Release 2 (\<lambda>_. 0) [] 1 5 no_files () = Inr st"
    using some_env [of 2, simplified] by blast
  have dev: "open_device demo_machine = Inr 1"
    by (simp add: open_device_def demo_machine_def get_pt_handle_def expect_def Let_def)
  have proc: "get_process_id ''game.exe'' [(5, ''game.exe'')] = Some 5" by simp
  have "size_PtSetupServerPidRsp = 4" by code_simp
  then have ann: "announce_host demo_machine 1 () = Inr ()"
    by (simp add: announce_host_def demo_machine_def unwrap_ok_def setup_host_pid_def demo_driver_def expect_def Let_def)
  have "online_prepare Release demo_machine () = Inr (1, opt, 5, st, ())"
    unfolding online_prepare_def dev res_bind.simps ann
    by (simp add: demo_machine_def opt proc st unwrap_def)
  then show ?thesis by blast
qed


end
