(* ===== verification/Programs.thy ===== *)
theory Programs
  imports OnlineMain Server
begin

text \<open>
  The other two programs that capture: \<open>main\<close> of \<open>src/src/bin/collector.rs\<close>, which writes the
  trace to files, and of \<open>src/src/bin/server.rs\<close>, which hands it to decoding clients. What they
  share with the online processor (the device, the options, the driver requests) is in
  \<open>OnlineMain\<close>.
\<close>

section \<open>The collector\<close>

text \<open>
  Before call \<open>t\<close> of the callback the tasks \<open>steps t\<close> of the writers take a step each;
  \<open>clock t\<close> is the time of the call. A panic of the callback ends the capture.
\<close>

definition collector_callback ::
    "build \<Rightarrow> (nat \<Rightarrow> nat) \<Rightarrow> (nat \<Rightarrow> nat list) \<Rightarrow> collector res Capture.processor" where
  "collector_callback b clock steps t i buff sz r =
     (case r of
        Inl e \<Rightarrow> (False, Inl e)
      | Inr st \<Rightarrow>
          (case collector_processor b (clock t) i buff sz (st\<lparr>col_sys := fold sched (steps t) (col_sys st)\<rparr>) of
             Inl e \<Rightarrow> (False, Inl e)
           | Inr (go_on, st') \<Rightarrow> (go_on, Inr st')))"

definition collector_prepare :: "build \<Rightarrow> 'w machine \<Rightarrow> 'w \<Rightarrow> (u64 \<times> options \<times> usize \<times> collector \<times> 'w) res" where
  "collector_prepare b m w =
     res_bind (open_device m) (\<lambda>h.
     res_bind (read_options (arguments m)) (\<lambda>opt.
     res_bind (unwrap (get_process_id (opt_process opt) (process_list m))) (\<lambda>p.
     res_bind (collector_env b (processors m) (clock_at m) (opt_out_dir opt) (opt_file_size opt) (files_before m)) (\<lambda>st.
     res_bind (announce_host m h w) (\<lambda>w'.
     Inr (h, opt, p, st, w'))))))"

definition collector_main ::
    "build \<Rightarrow> nat \<Rightarrow> 'w machine \<Rightarrow> (nat \<Rightarrow> nat) \<Rightarrow> (nat \<Rightarrow> nat list) \<Rightarrow> 'w \<Rightarrow> collector res option" where
  "collector_main b fuel m clock steps w =
     (case collector_prepare b m w of
        Inl e \<Rightarrow> Some (Inl e)
      | Inr (h, opt, p, st, w') \<Rightarrow>
          (case setup_pt_no_pmi fuel (ctl_codes m) (driver m) h (ucast p) (opt_buff_size opt) (opt_mtc opt)
               (opt_psb opt) (opt_cyc opt) (opt_addr0_cfg opt) (opt_addr0_start opt) (opt_addr0_end opt)
               (trace_hw m) (mappings m) (collector_callback b clock steps) (\<lambda>_. Inr st) w' of
             None \<Rightarrow> None
           | Some (Inl e) \<Rightarrow> Some (Inl e)
           | Some (Inr c) \<Rightarrow> Some (
               res_bind (proc_st c) (\<lambda>st'.
               res_bind (expect ''Close pt handle errord'' (close_pt_handle (close_handle m) (last_error m) h)) (\<lambda>_.
               Inr st')))))"

lemma visit_callback:
  assumes "visit hw pr rsp i c = Inr (a, c')"
  shows "\<exists>tmp m. (a, proc_st c') = pr (tick c) i tmp m (proc_st c)"
  using visit_InrD [OF assms] unfolding Let_def
proof (elim exE conjE, goal_cases)
  case (1 m tmp data)
  then show ?case by (intro exI [of _ tmp] exI [of _ m]) simp
qed

text \<open>The callback never asks to stop.\<close>

lemma collector_processor_goes_on:
  "collector_processor b time i buff sz st = Inr (go, st') \<Longrightarrow> go"
  by (auto simp: collector_processor_def Let_def res_simps split: option.splits if_splits prod.splits)

lemma collector_visit:
  assumes "visit hw (collector_callback b clock steps) rsp i c = Inr (a, c')"
  shows "proc_st c' = Inr st' \<Longrightarrow> a \<and> (\<exists>st. proc_st c = Inr st)"
proof -
  assume st': "proc_st c' = Inr st'"
  from visit_callback [OF assms] obtain tmp m where
    cb: "collector_callback b clock steps (tick c) i tmp m (proc_st c) = (a, Inr st')"
    using st' by metis
  then obtain st where st: "proc_st c = Inr st"
    by (cases "proc_st c") (auto simp: collector_callback_def)
  with cb collector_processor_goes_on show ?thesis
    by (auto simp: collector_callback_def split: sum.splits)
qed

lemma collector_visits:
  "visits hw (collector_callback b clock steps) rsp idxs c = Inr (as, c') \<Longrightarrow> proc_st c' = Inr st'
   \<Longrightarrow> (\<forall>a \<in> set as. a) \<and> (\<exists>st. proc_st c = Inr st)"
proof (induction idxs arbitrary: c as)
  case (Cons i idxs)
  then obtain a c1 as' where v: "visit hw (collector_callback b clock steps) rsp i c = Inr (a, c1)"
    "visits hw (collector_callback b clock steps) rsp idxs c1 = Inr (as', c')" "as = a # as'"
    by (auto simp: res_simps)
  from Cons.IH [OF v(2) Cons.prems(2)] obtain st1 where "\<forall>a \<in> set as'. a" "proc_st c1 = Inr st1" by blast
  with collector_visit [OF v(1) this(2)] v(3) show ?case by simp
qed simp

lemma collector_capture_panics:
  "capture_loop fuel hw (collector_callback b clock steps) rsp c = Some (Inr c') \<Longrightarrow> \<exists>e. proc_st c' = Inl e"
proof (induction fuel arbitrary: c)
  case (Suc fuel)
  let ?n = "unat (out_buff_num rsp)"
  from Suc.prems obtain as c1 where v: "visits hw (collector_callback b clock steps) rsp [0..<?n] c = Inr (as, c1)"
    by (cases "visits hw (collector_callback b clock steps) rsp [0..<?n] c") (auto simp: sweep_visits)
  show ?case
  proof (cases "as \<noteq> [] \<and> (\<forall>a \<in> set as. \<not> a)")
    case True
    with Suc.prems v have "c' = c1" by (auto simp: sweep_visits split: bool.splits)
    obtain a where "a \<in> set as" "\<not> a" using True by (cases as) auto
    with collector_visits [OF v] have "proc_st c1 \<noteq> Inr st" for st by blast
    with \<open>c' = c1\<close> show ?thesis by (cases "proc_st c1") auto
  next
    case False
    with Suc.prems v have "capture_loop fuel hw (collector_callback b clock steps) rsp c1 = Some (Inr c')"
      by (auto simp: sweep_visits split: bool.splits)
    then show ?thesis by (rule Suc.IH)
  qed
qed simp

section \<open>The server\<close>

text \<open>
  \<open>others t\<close> is what the other threads and tasks do before call \<open>t\<close> of the callback, and
  \<open>later\<close> what they do after the capture.
\<close>

definition server_callback ::
    "(nat \<Rightarrow> server \<Rightarrow> server) \<Rightarrow> server res Capture.processor" where
  "server_callback others t i buff sz r =
     (case r of
        Inl e \<Rightarrow> (False, Inl e)
      | Inr s \<Rightarrow>
          (case server_processor i buff sz (others t s) of
             Inl e \<Rightarrow> (False, Inl e)
           | Inr (go_on, s') \<Rightarrow> (go_on, Inr s')))"

definition server_prepare ::
    "build \<Rightarrow> 'w machine \<Rightarrow> (server \<Rightarrow> server) \<Rightarrow> 'w \<Rightarrow> (u64 \<times> options \<times> usize \<times> server \<times> 'w) res" where
  "server_prepare b m first w =
     res_bind (open_device m) (\<lambda>h.
     res_bind (read_options (arguments m)) (\<lambda>opt.
     res_bind (unwrap (get_process_id (opt_process opt) (process_list m))) (\<lambda>p.
     res_bind (server_create_env b (processors m) (clock_at m) (opt_file_size opt) (files_before m)) (\<lambda>s.
     let s' = server_set_ids h p (first s) in
     res_bind (announce_host m h w) (\<lambda>w'.
     Inr (h, opt, p, s', w'))))))"

definition server_finish ::
    "build \<Rightarrow> 'w machine \<Rightarrow> u64 \<Rightarrow> (server \<Rightarrow> server) \<Rightarrow> server res \<Rightarrow> (string \<times> string) res option" where
  "server_finish b m h later r =
     (case r of
        Inl e \<Rightarrow> Some (Inl e)
      | Inr s \<Rightarrow>
          let s' = later s in
          if \<not> server_wait_for_complete s' then None
          else Some (
            res_bind (server_collect_all_data b s') (\<lambda>data.
            res_bind (write_to_file b (module_lib m) (json_text m) (can_create m) (end_seconds m) (PID (base s')) data) (\<lambda>report.
            res_bind (expect ''Close pt handle errord'' (close_pt_handle (close_handle m) (last_error m) h)) (\<lambda>_.
            Inr report)))))"

definition server_main ::
    "build \<Rightarrow> nat \<Rightarrow> 'w machine \<Rightarrow> (server \<Rightarrow> server) \<Rightarrow> (nat \<Rightarrow> server \<Rightarrow> server) \<Rightarrow> (server \<Rightarrow> server)
     \<Rightarrow> 'w \<Rightarrow> (string \<times> string) res option" where
  "server_main b fuel m first others later w =
     (case server_prepare b m first w of
        Inl e \<Rightarrow> Some (Inl e)
      | Inr (h, opt, p, s, w') \<Rightarrow>
          (case setup_pt_no_pmi fuel (ctl_codes m) (driver m) h (ucast p) (opt_buff_size opt) (opt_mtc opt)
               (opt_psb opt) (opt_cyc opt) (opt_addr0_cfg opt) (opt_addr0_start opt) (opt_addr0_end opt)
               (trace_hw m) (mappings m) (server_callback others) (\<lambda>_. Inr s) w' of
             None \<Rightarrow> None
           | Some (Inl e) \<Rightarrow> Some (Inl e)
           | Some (Inr c) \<Rightarrow> server_finish b m h later (proc_st c)))"

lemma capture_loop_callback_invariant:
  assumes "capture_loop fuel hw pr rsp c = Some (Inr c')" and "P (proc_st c)"
    and "\<And>t i tmp m p. P p \<Longrightarrow> P (snd (pr t i tmp m p))"
  shows "P (proc_st c')"
proof (rule capture_loop_invariant [OF assms(1), where P = "\<lambda>c. P (proc_st c)"])
  fix i c a c1 assume "P (proc_st c)" "visit hw pr rsp i c = Inr (a, c1)"
  with visit_callback [OF this(2)] assms(3) show "P (proc_st c1)" by (metis snd_conv)
qed (fact assms(2))

lemma server_reach_steps:
  assumes "server_reach b L rm s" and "(server_step b L rm)^** s s'"
  shows "server_reach b L rm s'"
  using assms(2,1) by (induction rule: rtranclp_induct) (auto intro: sr_step)

lemma server_callback_reach:
  assumes "\<forall>t s. (server_step b L rm)^** s (others t s)" and "pred_sum (\<lambda>_. True) (server_reach b L rm) r"
  shows "pred_sum (\<lambda>_. True) (server_reach b L rm) (snd (server_callback others t i buff sz r))"
proof (cases r)
  case (Inl e)
  then show ?thesis by (simp add: server_callback_def)
next
  case (Inr s)
  then have "server_reach b L rm (others t s)" using server_reach_steps assms by fastforce
  then show ?thesis using server_step.feed [of i buff sz "others t s"] sr_step Inr
    by (fastforce simp: server_callback_def split: sum.splits prod.splits)
qed

lemma write_to_file_empty:
  "write_to_file b lib to_json created time pid [] = Inr (f, text) \<Longrightarrow> text = to_json []"
  by (auto simp: write_to_file_def res_simps split: if_splits)

section \<open>Properties\<close>

text \<open>
  C39: the collector never ends normally: however long it runs, it is still
  capturing or has panicked, since its callback never asks to stop. So the handle is not
  closed, and a writer whose file was not rotated out never completes it.
\<close>

theorem collector_never_ends: "collector_main b fuel m clock steps w \<noteq> Some (Inr st)"
proof
  assume main: "collector_main b fuel m clock steps w = Some (Inr st)"
  then obtain h opt p st0 w' where prep: "collector_prepare b m w = Inr (h, opt, p, st0, w')"
    by (auto simp: collector_main_def split: sum.splits)
  let ?start = "setup_pt_no_pmi_start (ctl_codes m) (driver m) h (ucast p) (opt_buff_size opt) (opt_mtc opt)
       (opt_psb opt) (opt_cyc opt) (opt_addr0_cfg opt) (opt_addr0_start opt) (opt_addr0_end opt) PtSetupRst_default w'"
  obtain r rsp w'' where start: "?start = (r, rsp, w'')" by (metis prod_cases3)
  show False
  proof (cases r)
    case (Inl e)
    with main prep start show False by (simp add: collector_main_def setup_pt_no_pmi_def)
  next
    case (Inr u)
    with start have started: "?start = (Inr (), rsp, w'')" by simp
    let ?loop = "capture_loop fuel (trace_hw m) (collector_callback b clock steps) rsp
        (capture_start rsp (mappings m w'') (Inr st0))"
    from main prep obtain c where c: "?loop = Some (Inr c)" "\<exists>st. proc_st c = Inr st"
      by (auto simp: collector_main_def setup_pt_no_pmi_started [OF started] res_simps split: option.splits sum.splits)
    from collector_capture_panics [OF c(1)] c(2) show False by auto
  qed
qed

text \<open>
  C33: whenever the server ends normally, whatever its threads, its pool and its
  clients did, the report it has written is that of an empty table: no count of any client
  reaches it.
\<close>

theorem server_main_empty:
  assumes "\<forall>s. (server_step b L rm)^** s (first s)" and "\<forall>t s. (server_step b L rm)^** s (others t s)"
    and "\<forall>s. (server_step b L rm)^** s (later s)"
    and "server_main b fuel m first others later w = Some (Inr (f, text))"
  shows "text = json_text m []"
proof -
  from assms(4) obtain h opt p s w' where prep: "server_prepare b m first w = Inr (h, opt, p, s, w')"
    by (auto simp: server_main_def split: sum.splits)
  then obtain s0 where s0: "server_create_env b (processors m) (clock_at m) (opt_file_size opt) (files_before m) = Inr s0"
    "s = server_set_ids h p (first s0)" by (auto simp: server_prepare_def Let_def res_simps)
  have "server_reach b L rm (first s0)" using server_reach_steps [OF sr_start [OF s0(1)]] assms(1) by blast
  then have reach: "server_reach b L rm s" unfolding s0(2) using server_step.ids sr_step by blast
  let ?start = "setup_pt_no_pmi_start (ctl_codes m) (driver m) h (ucast p) (opt_buff_size opt) (opt_mtc opt)
       (opt_psb opt) (opt_cyc opt) (opt_addr0_cfg opt) (opt_addr0_start opt) (opt_addr0_end opt) PtSetupRst_default w'"
  obtain r rsp w'' where start: "?start = (r, rsp, w'')" by (metis prod_cases3)
  have "\<exists>u. r = Inr u"
    using assms(4) prep start by (cases r) (simp_all add: server_main_def setup_pt_no_pmi_def)
  with start have started: "?start = (Inr (), rsp, w'')" by auto
  let ?loop = "capture_loop fuel (trace_hw m) (server_callback others) rsp (capture_start rsp (mappings m w'') (Inr s))"
  from assms(4) prep obtain c where c: "?loop = Some (Inr c)" "server_finish b m h later (proc_st c) = Some (Inr (f, text))"
    by (auto simp: server_main_def setup_pt_no_pmi_started [OF started] split: option.splits sum.splits)
  then obtain s1 where s1: "proc_st c = Inr s1" by (cases "proc_st c") (auto simp: server_finish_def)
  have "pred_sum (\<lambda>_. True) (server_reach b L rm) (proc_st c)"
    using capture_loop_callback_invariant [OF c(1), where P = "pred_sum (\<lambda>_. True) (server_reach b L rm)"]
      server_callback_reach [OF assms(2)] reach by (simp add: capture_start_def)
  then have "server_reach b L rm (later s1)" using server_reach_steps assms(3) s1 by fastforce
  then have "no_counts (base (later s1))" using server_reach_inv by (auto simp: server_inv_def)
  then have "server_collect_all_data b (later s1) = Inr []"
    by (simp add: server_collect_all_data_def no_counts_collect)
  with c(2) s1 show ?thesis
    by (auto simp: server_finish_def Let_def res_simps dest: write_to_file_empty split: if_splits)
qed

text \<open>A machine whose hardware writes nothing, and Ctrl-C before every call.\<close>

definition idle_machine :: "unit machine" where
  "idle_machine = demo_machine\<lparr>trace_hw := tracing two_rings (\<lambda>_ _. [])\<rparr>"

definition press_stop :: "server \<Rightarrow> server" where
  "press_stop s = s\<lparr>base := (base s)\<lparr>G_STOP := True\<rparr>\<rparr>"

definition idle_server :: "server \<Rightarrow> bool" where
  "idle_server s \<longleftrightarrow> length (PD (base s)) = 2 \<and> list_all (\<lambda>pd. tx_queue pd = []) (PD (base s))
     \<and> list_all (\<lambda>pd. pd_data pd = []) (PD (base s)) \<and> PID (base s) = 5"

lemma idle_prepare:
  "\<exists>opt s. server_prepare Release idle_machine id () = Inr (1, opt, 5, s, ()) \<and> idle_server s"
proof -
  obtain opt where opt: "read_options (demo_clap demo_options) = Inr opt" "opt_process opt = ''game.exe''" "opt_file_size opt = []"
    using demo_read_options by blast
  have one: "usub Release (of_nat 2) (1 :: usize) = Inr 1" by (simp add: usub_def)
  have "\<exists>s. server_create_env Release 2 (\<lambda>_. 0) [] no_files = Inr s \<and> PD (base s) = replicate 2 ProcessorData_new"
    by (auto simp: server_create_env_def one set_file_size_def to_uppercase_def ends_with_def Let_def split: prod.split)
  then obtain s where s: "server_create_env Release 2 (\<lambda>_. 0) [] no_files = Inr s" "PD (base s) = replicate 2 ProcessorData_new"
    by blast
  have dev: "open_device idle_machine = Inr 1"
    by (simp add: open_device_def idle_machine_def demo_machine_def get_pt_handle_def expect_def Let_def)
  have proc: "get_process_id ''game.exe'' [(5, ''game.exe'')] = Some 5" by simp
  have "size_PtSetupServerPidRsp = 4" by code_simp
  then have ann: "announce_host idle_machine 1 () = Inr ()"
    by (simp add: announce_host_def idle_machine_def demo_machine_def unwrap_ok_def setup_host_pid_def demo_driver_def
        expect_def Let_def)
  have "server_prepare Release idle_machine id () = Inr (1, opt, 5, server_set_ids 1 5 s, ())"
    unfolding server_prepare_def dev res_bind.simps ann Let_def
    by (simp add: idle_machine_def demo_machine_def opt proc s(1) unwrap_def)
  moreover have "idle_server (server_set_ids 1 5 s)"
    using s(2) by (simp add: idle_server_def server_set_ids_def ProcessorData_new_def numeral_2_eq_2)
  ultimately show ?thesis by blast
qed

lemma idle_callback:
  assumes "idle_server s" and "i < 2"
  shows "\<exists>s'. server_callback (\<lambda>_. press_stop) t i tmp 0 (Inr s) = (False, Inr s') \<and> idle_server s'"
  using assms by (auto simp: server_callback_def server_processor_def processor_def index_at_def press_stop_def idle_server_def)

lemma idle_capture:
  assumes "idle_server s"
  shows "\<exists>c' s'. capture_loop 1 (tracing two_rings (\<lambda>_ _. [])) (server_callback (\<lambda>_. press_stop)) two_rings
       (capture_start two_rings (\<lambda>_. replicate 64 0xFF) (Inr s)) = Some (Inr c')
     \<and> proc_st c' = Inr s' \<and> idle_server s'"
proof -
  let ?tr = "\<lambda>_ _. [] :: bytes" and ?pr = "server_callback (\<lambda>_. press_stop)" and ?mem = "\<lambda>_. replicate 64 0xFF"
  let ?c = "capture_start two_rings ?mem (Inr s, [] :: deliveries)"
  let ?S = "\<lambda>(t :: nat) (r :: server res). True"
  let ?P = "\<lambda>c. trace_inv two_rings ?tr c \<and> (\<exists>s'. fst (proc_st c) = Inr s' \<and> idle_server s')"
  have wrote: "wrote ?tr t i = []" for t i by (simp add: wrote_def)
  then have ku: "keeps_up two_rings ?tr dl" for dl by (simp add: keeps_up_def)
  have "refuses_from 0 ?S ?pr"
    by (auto simp: refuses_from_def server_callback_def server_processor_def processor_def press_stop_def res_simps
        split: sum.splits if_splits)
  from capture_loop_tracing [OF two_rings_ready this, where st = "Inr s" and w = ?tr] obtain c' where
    run: "capture_loop 1 (tracing two_rings ?tr) (logged ?pr) two_rings ?c = Some (Inr c')" by auto
  have "?P c'"
  proof (rule capture_loop_invariant [OF run, where P = ?P])
    show "?P ?c" using trace_inv_start [OF two_rings_ready] assms by (auto simp: capture_start_def)
  next
    fix i c a c1
    assume i: "i < unat (out_buff_num two_rings)" and P: "?P c"
      and v: "visit (tracing two_rings ?tr) (logged ?pr) two_rings i c = Inr (a, c1)"
    from P obtain s' where s': "trace_inv two_rings ?tr c" "fst (proc_st c) = Inr s'" "idle_server s'" by blast
    from visit_trace [OF s'(1) i v] obtain tmp m where inv: "trace_inv two_rings ?tr c1" and
      dl: "snd (proc_st c1) = snd (proc_st c) @ [(i, take m tmp)]" "m \<le> length tmp" and
      cb: "(a, fst (proc_st c1)) = ?pr (tick c) i tmp m (fst (proc_st c))" by blast
    have "take m tmp = []"
      using trace_inv_delivered [OF inv ku i] unfolding dl(1) wrote by simp
    with dl(2) have "m = 0" by auto
    moreover have "i < 2" using i by (simp add: two_rings_def)
    ultimately show "?P c1" using inv cb idle_callback [OF s'(3), of i "tick c" tmp] s'(2) by auto
  qed
  then obtain s' where s': "fst (proc_st c') = Inr s'" "idle_server s'" by blast
  have start: "capture_start two_rings ?mem (Inr s) = unlog ?c" by (simp add: capture_start_def unlog_def)
  have "capture_loop 1 (tracing two_rings ?tr) ?pr two_rings (capture_start two_rings ?mem (Inr s)) = Some (Inr (unlog c'))"
    unfolding start capture_loop_unlog run by simp
  with s' show ?thesis by (intro exI [of _ "unlog c'"] exI [of _ s']) simp
qed

theorem server_main_empty_witness:
  "server_main Release 1 idle_machine id (\<lambda>_. press_stop) id () = Some (Inr (''result-7.txt'', json_text idle_machine []))"
proof -
  obtain opt s where prep: "server_prepare Release idle_machine id () = Inr (1, opt, 5, s, ())" "idle_server s"
    using idle_prepare by blast
  have started: "setup_pt_no_pmi_start id demo_driver 1 5 (opt_buff_size opt) (opt_mtc opt)
        (opt_psb opt) (opt_cyc opt) (opt_addr0_cfg opt) (opt_addr0_start opt) (opt_addr0_end opt)
        PtSetupRst_default () = (Inr (), two_rings, ())"
    using ring_drv_starts [where 'a = unit] by (simp add: setup_pt_no_pmi_start_def demo_driver_def)
  have sel: "ctl_codes idle_machine = id" "driver idle_machine = demo_driver"
    "mappings idle_machine = (\<lambda>_ _. replicate 64 0xFF)" "trace_hw idle_machine = tracing two_rings (\<lambda>_ _. [])"
    "module_lib idle_machine = two_modules 99" "can_create idle_machine = True" "close_handle idle_machine 1 = 1"
    "end_seconds idle_machine = 7"
    by (simp_all add: idle_machine_def demo_machine_def)
  obtain c' s' where c': "capture_loop 1 (tracing two_rings (\<lambda>_ _. [])) (server_callback (\<lambda>_. press_stop)) two_rings
       (capture_start two_rings (\<lambda>_. replicate 64 0xFF) (Inr s)) = Some (Inr c')" "proc_st c' = Inr s'" "idle_server s'"
    using idle_capture [OF prep(2)] by blast
  obtain p where p: "Process_new (two_modules 99) 5 = Inr p" using two_modules_process by blast
  have seven: "dec 7 = ''7''" by code_simp
  have "no_counts (base s')" using c'(3) by (simp add: idle_server_def no_counts_def list_all_iff)
  then have collect: "server_collect_all_data Release s' = Inr []"
    by (simp add: server_collect_all_data_def no_counts_collect)
  have "server_finish Release idle_machine 1 id (Inr s') = Some (Inr (''result-7.txt'', json_text idle_machine []))"
    using c'(3) p collect by (simp add: server_finish_def server_wait_for_complete_def idle_server_def sel
        write_to_file_def seven expect_def close_pt_handle_def Let_def)
  then have main: "\<exists>text. server_main Release 1 idle_machine id (\<lambda>_. press_stop) id () = Some (Inr (''result-7.txt'', text))"
    using c'(1,2) by (simp add: server_main_def prep(1) sel setup_pt_no_pmi_started [OF started] del: capture_loop.simps)
  have "(server_step Release one_lib (\<lambda>_ _ _ _ _. Inr (0, [])))^** s (press_stop s)" for s
    unfolding press_stop_def by (intro r_into_rtranclp server_step.ctrl_c)
  moreover have "(server_step Release one_lib (\<lambda>_ _ _ _ _. Inr (0, [])))^** s (id s)" for s by simp
  ultimately show ?thesis using main server_main_empty by metis
qed

end
