(* ===== verification/Session.thy ===== *)
theory Session
  imports ClientAgent ServerAgent
begin

text \<open>
  A server and one decoding client over a connection: \<open>client_agent.rs\<close> on one side,
  \<open>client_proc.rs\<close> on the other, and in between the messages under way in each direction, in
  the order they were sent (\<open>Wire.messages_in_order\<close>). No piece is lost or decoded twice, and
  no count is lost or counted twice.

  A worker handles one job of the client's queue as one step; \<open>ask\<close> is what becomes of its
  memory requests.
\<close>

section \<open>State and steps\<close>

record 'w session =
  srv :: agent
  cli :: server_agent
  to_client :: "PtProcMsg list"
  to_server :: "PtProcMsg list"
  caches :: "'w MemCacher list"
  client_world :: 'w

definition session_start :: "'w \<Rightarrow> 'w session" where
  "session_start w = \<lparr>srv = ClientAgent_new, cli = ServerAgent_connect, to_client = [],
     to_server = sent_msgs ServerAgent_connect, caches = replicate 2 MemCacher_new, client_world = w\<rparr>"

text \<open>What a step of one side has put on the connection.\<close>

definition newly_sent :: "PtProcMsg list \<Rightarrow> PtProcMsg list \<Rightarrow> PtProcMsg list" where
  "newly_sent old new = drop (length old) new"

definition srv_moves :: "agent \<Rightarrow> 'w session \<Rightarrow> 'w session" where
  "srv_moves a s = s\<lparr>srv := a, to_client := to_client s @ newly_sent (out_msgs (srv s)) (out_msgs a)\<rparr>"

definition cli_moves :: "server_agent \<Rightarrow> 'w session \<Rightarrow> 'w session" where
  "cli_moves c s = s\<lparr>cli := c, to_server := to_server s @ newly_sent (sent_msgs (cli s)) (sent_msgs c)\<rparr>"

text \<open>
  A step of the session, with the event of the server's side it is, if it is one, and the piece a
  worker decoded in it, if it did, with the reply.
\<close>

inductive session_step ::
    "build \<Rightarrow> (u64 \<Rightarrow> usize \<Rightarrow> bytes \<Rightarrow> (usize \<times> bytes) res) \<Rightarrow> ('d, 'w MemCacher \<times> 'w) libipt \<Rightarrow> 'w asker
     \<Rightarrow> 'w session \<Rightarrow> agent_event list \<Rightarrow> (bytes \<times> sparse_table) list \<Rightarrow> 'w session \<Rightarrow> bool"
  for b rm L ask s where
  st_server: "(\<forall>m. e \<noteq> Recv m) \<Longrightarrow> agent_step b rm (srv s) e a
    \<Longrightarrow> session_step b rm L ask s [e] [] (srv_moves a s)"
| st_arrive: "to_server s = m # ms \<Longrightarrow> agent_step b rm (srv s) (Recv m) a
    \<Longrightarrow> session_step b rm L ask s [Recv m] [] (srv_moves a (s\<lparr>to_server := ms\<rparr>))"
| st_client: "to_client s = m # ms \<Longrightarrow> client_step (Arrive m) (cli s) = Some (Inr c) \<Longrightarrow> loop_alive (cli s)
    \<Longrightarrow> session_step b rm L ask s [] [] (cli_moves c (s\<lparr>to_client := ms\<rparr>))"
| st_memory: "e = Forward \<or> (\<exists>addr len. e = Ask addr len) \<or> (\<exists>k. e = TakeAnswer k)
    \<Longrightarrow> client_step e (cli s) = Some (Inr c) \<Longrightarrow> session_step b rm L ask s [] [] (cli_moves c s)"
| st_clear: "proc_queue (cli s) = ProcInit # q \<Longrightarrow> k < length (caches s)
    \<Longrightarrow> proc_data_step b L ask ProcInit (caches s ! k, client_world s) = Some (Inr (None, c, w))
    \<Longrightarrow> session_step b rm L ask s [] [] (s\<lparr>cli := (cli s)\<lparr>proc_queue := q\<rparr>,
          caches := (caches s)[k := c], client_world := w\<rparr>)"
| st_decode: "proc_queue (cli s) = Proc d # q \<Longrightarrow> k < length (caches s)
    \<Longrightarrow> proc_data_step b L ask (Proc d) (caches s ! k, client_world s) = Some (Inr (Some (DataRsp t), c, w))
    \<Longrightarrow> session_step b rm L ask s [] [(d, t)] (s\<lparr>cli := (cli s)\<lparr>proc_queue := q\<rparr>,
          to_server := to_server s @ [DataRsp t], caches := (caches s)[k := c], client_world := w\<rparr>)"

text \<open>
  \<open>es\<close> are the events of the server's side so far, \<open>jobs\<close> the pieces the workers have decoded.
\<close>

inductive session_run ::
    "build \<Rightarrow> (u64 \<Rightarrow> usize \<Rightarrow> bytes \<Rightarrow> (usize \<times> bytes) res) \<Rightarrow> ('d, 'w MemCacher \<times> 'w) libipt \<Rightarrow> 'w asker
     \<Rightarrow> 'w \<Rightarrow> agent_event list \<Rightarrow> (bytes \<times> sparse_table) list \<Rightarrow> 'w session \<Rightarrow> bool"
  for b rm L ask w0 where
  ss_start: "session_run b rm L ask w0 [] [] (session_start w0)"
| ss_next: "session_run b rm L ask w0 es jobs s \<Longrightarrow> session_step b rm L ask s es' jobs' s'
    \<Longrightarrow> session_run b rm L ask w0 (es @ es') (jobs @ jobs') s'"

section \<open>Pieces and counts on their way\<close>

definition queued :: "ProcCtrl list \<Rightarrow> bytes list" where
  "queued q = concat (map (\<lambda>j. case j of Proc d \<Rightarrow> [d] | ProcInit \<Rightarrow> []) q)"

definition replies :: "PtProcMsg list \<Rightarrow> sparse_table list" where
  "replies ms = concat (map (\<lambda>m. case m of DataRsp t \<Rightarrow> [t] | _ \<Rightarrow> []) ms)"

lemma queued_simps [simp]: "queued [] = []" "queued (ProcInit # q) = queued q"
    "queued (Proc d # q) = d # queued q" "queued (p @ q) = queued p @ queued q"
  by (simp_all add: queued_def)

lemma replies_simps [simp]: "replies [] = []" "replies (DataRsp t # ms) = t # replies ms"
    "replies (ms @ ns) = replies ms @ replies ns"
  by (simp_all add: replies_def)

lemma data_reqs_append [simp]: "data_reqs (ms @ ns) = data_reqs ms @ data_reqs ns"
  by (simp add: data_reqs_def)

lemma set_chan_sent [simp]: "sent_msgs (set_chan k r c) = sent_msgs c"
  by (simp add: set_chan_def)

lemma insert_req_frame [simp]: "sent_msgs (insert_req addr k c) = sent_msgs c"
    "proc_queue (insert_req addr k c) = proc_queue c"
  by (simp_all add: insert_req_def Let_def split: option.split)

lemma client_step_frame:
  assumes "client_step e c = Some (Inr c')"
  shows "\<exists>ms. sent_msgs c' = sent_msgs c @ ms \<and> replies ms = []"
    and "e = Forward \<or> (\<exists>addr len. e = Ask addr len) \<or> (\<exists>k. e = TakeAnswer k) \<Longrightarrow> proc_queue c' = proc_queue c"
    and "e = Arrive m \<Longrightarrow> loop_alive c \<Longrightarrow> queued (proc_queue c') = queued (proc_queue c) @ data_reqs [m]"
proof -
  have mem: "replies [MemReq addr len] = []" for addr len by (simp add: replies_def)
  have msg: "sent_msgs c' = sent_msgs c \<and> queued (proc_queue c') = queued (proc_queue c) @ data_reqs [m]"
    if "client_msg m c = Some (Inr c')" for m
    using that by (cases m) (auto simp: data_reqs_def split: option.splits reply_chan.splits)
  show "\<exists>ms. sent_msgs c' = sent_msgs c @ ms \<and> replies ms = []"
    using assms mem msg by (cases e) (auto simp: forward_req_def split: if_splits list.splits reply_chan.splits)
  show "e = Forward \<or> (\<exists>addr len. e = Ask addr len) \<or> (\<exists>k. e = TakeAnswer k) \<Longrightarrow> proc_queue c' = proc_queue c"
    using assms by (auto simp: forward_req_def split: if_splits list.splits reply_chan.splits prod.splits)
  show "e = Arrive m \<Longrightarrow> loop_alive c \<Longrightarrow> queued (proc_queue c') = queued (proc_queue c) @ data_reqs [m]"
    using assms msg by simp
qed

lemma agent_step_sent:
  assumes "agent_step b rm a e a'"
  shows "\<exists>ms. out_msgs a' = out_msgs a @ ms"
proof -
  have msg: "\<exists>ms. out_msgs a' = out_msgs a @ ms" if "handle_msg b rm m ok a = Inr (go, a')" for m ok go a'
    using that by (cases m) (auto simp: agent_defs res_simps split: if_splits)
  from assms show ?thesis
    by (cases rule: agent_stepE)
      (auto simp: agent_defs publish_task_def fetch_result_def agent_disconnect_def dest!: msg split: if_splits)
qed

lemma agent_step_data:
  assumes "agent_run b rm es a" and "agent_step b rm a e a'"
  shows "forwarded (es @ [e]) = forwarded es @ data_reqs (newly_sent (out_msgs a) (out_msgs a'))"
proof -
  obtain ms where ms: "out_msgs a' = out_msgs a @ ms" using agent_step_sent [OF assms(2)] by blast
  have "data_reqs (out_msgs a') = forwarded (es @ [e])"
    using agent_pieces [OF agent_run.step [OF assms]] by simp
  moreover have "data_reqs (out_msgs a) = forwarded es" using agent_pieces [OF assms(1)] by simp
  ultimately show ?thesis by (simp add: ms newly_sent_def)
qed

lemma reported_replies: "reported [Recv m] = replies [m]"
  by (cases m) (simp_all add: reported_def replies_def)

lemma reported_other: "\<forall>m. e \<noteq> Recv m \<Longrightarrow> reported [e] = []"
  by (cases e) (simp_all add: reported_def)

section \<open>Invariant\<close>

text \<open>A run of the decoder on a piece, as a worker does it: the addresses executed.\<close>

definition worker_ran ::
    "build \<Rightarrow> ('d, 'w MemCacher \<times> 'w) libipt \<Rightarrow> 'w asker \<Rightarrow> bytes \<Rightarrow> u64 list \<Rightarrow> bool" where
  "worker_ran b L ask d ips \<longleftrightarrow> (\<exists>d0. lib_new L d = Some d0 \<and>
     (case lib_sync_forward L d0 of
        Inl e \<Rightarrow> ips = []
      | Inr d1 \<Rightarrow> (\<exists>d2 c w s. drain_events L d1 = Some d2
          \<and> decodes L (image_cb b) d2 (c\<lparr>reader_fn := Some (async_reader (read_mem ask))\<rparr>, w) ips s)))"

definition replied_exactly ::
    "build \<Rightarrow> ('d, 'w MemCacher \<times> 'w) libipt \<Rightarrow> 'w asker \<Rightarrow> bytes \<times> sparse_table \<Rightarrow> bool" where
  "replied_exactly b L ask = (\<lambda>(d, t). wf_sparse t
     \<and> (\<exists>ips. worker_ran b L ask d ips \<and> (\<forall>x. sparse_count_at t x = of_nat (count_list ips x))))"

lemma decode_reply:
  assumes "proc_data_step b L ask (Proc d) (c, w) = Some (Inr (Some (DataRsp t), c', w'))"
  shows "replied_exactly b L ask (d, t)"
proof -
  obtain cnt u where u: "decode_with b L (async_reader (read_mem ask)) d c [] w = Some (Inr (cnt, u, c', w'))"
    "t = to_sparse u" using proc_data_Some [OF assms] by blast
  then obtain d0 where d0: "lib_new L d = Some d0" by (auto simp: decode_with_def split: option.splits)
  show ?thesis
  proof (cases "lib_sync_forward L d0")
    case (Inl e)
    with u d0 have "t = to_sparse []" by (simp add: decode_with_def)
    with d0 Inl to_sparse_wf [OF wf_table_Nil] to_sparse_count [OF wf_table_Nil] show ?thesis
      by (auto simp: replied_exactly_def worker_ran_def intro!: exI [of _ "[]"])
  next
    case (Inr d1)
    from reply_run [OF assms d0 Inr] obtain d2 ips where run: "drain_events L d1 = Some d2"
      "decodes L (image_cb b) d2 (c\<lparr>reader_fn := Some (async_reader (read_mem ask))\<rparr>, w) ips (c', w')"
      and t: "wf_sparse t" "\<forall>x. sparse_count_at t x = of_nat (count_list ips x)" by auto
    have "worker_ran b L ask d ips" using d0 Inr run by (auto simp: worker_ran_def)
    with t show ?thesis by (auto simp: replied_exactly_def)
  qed
qed

definition session_ok ::
    "build \<Rightarrow> (u64 \<Rightarrow> usize \<Rightarrow> bytes \<Rightarrow> (usize \<times> bytes) res) \<Rightarrow> ('d, 'w MemCacher \<times> 'w) libipt \<Rightarrow> 'w asker
     \<Rightarrow> agent_event list \<Rightarrow> (bytes \<times> sparse_table) list \<Rightarrow> 'w session \<Rightarrow> bool" where
  "session_ok b rm L ask es jobs s \<longleftrightarrow> agent_run b rm es (srv s)
     \<and> forwarded es = map fst jobs @ queued (proc_queue (cli s)) @ data_reqs (to_client s)
     \<and> map snd jobs = reported es @ replies (to_server s)
     \<and> list_all (replied_exactly b L ask) jobs"

lemma session_ok_step:
  assumes ok: "session_ok b rm L ask es jobs s" and step: "session_step b rm L ask s es' jobs' s'"
  shows "session_ok b rm L ask (es @ es') (jobs @ jobs') s'"
proof -
  have run: "agent_run b rm es (srv s)" using ok by (simp add: session_ok_def)
  from step show ?thesis
  proof cases
    case (st_server e a)
    from st_server ok agent_run.step [OF run st_server(5)] agent_step_data [OF run st_server(5)] show ?thesis
      by (simp add: session_ok_def srv_moves_def reported_append reported_other)
  next
    case (st_arrive m ms a)
    have "replies (m # ms) = replies [m] @ replies ms" using replies_simps(3) [of "[m]" ms] by simp
    with st_arrive ok agent_run.step [OF run st_arrive(5)] agent_step_data [OF run st_arrive(5)] show ?thesis
      by (simp add: session_ok_def srv_moves_def reported_append reported_replies)
  next
    case (st_client m ms c)
    obtain ns where ns: "sent_msgs c = sent_msgs (cli s) @ ns" "replies ns = []"
      using client_step_frame(1) [OF st_client(5)] by blast
    have "data_reqs (m # ms) = data_reqs [m] @ data_reqs ms" using data_reqs_append [of "[m]" ms] by simp
    with st_client ok ns client_step_frame(3) [OF st_client(5) refl] show ?thesis
      by (simp add: session_ok_def cli_moves_def newly_sent_def)
  next
    case (st_memory e c)
    obtain ns where ns: "sent_msgs c = sent_msgs (cli s) @ ns" "replies ns = []"
      using client_step_frame(1) [OF st_memory(5)] by blast
    with st_memory ok client_step_frame(2) [OF st_memory(5,4)] show ?thesis
      by (simp add: session_ok_def cli_moves_def newly_sent_def)
  next
    case (st_clear q k c w)
    with ok show ?thesis by (simp add: session_ok_def)
  next
    case (st_decode d q k t c w)
    with ok decode_reply [OF st_decode(6)] show ?thesis by (simp add: session_ok_def)
  qed
qed

lemma session_inv: "session_run b rm L ask w0 es jobs s \<Longrightarrow> session_ok b rm L ask es jobs s"
proof (induction rule: session_run.induct)
  case ss_start
  show ?case
    by (simp add: session_ok_def session_start_def agent_run.start ServerAgent_connect_def forwarded_def reported_def
        replies_def data_reqs_def)
qed (rule session_ok_step)

section \<open>Counts\<close>

lemma list_all_runs:
  assumes "list_all (replied_exactly b L ask) jobs"
  shows "\<exists>runs. list_all2 (worker_ran b L ask) (map fst jobs) runs
     \<and> (\<forall>x. (\<Sum>t \<leftarrow> map snd jobs. sparse_count_at t x) = of_nat (count_list (concat runs) x))"
  using assms
proof (induction jobs)
  case (Cons j jobs)
  obtain d t where j: "j = (d, t)" by (cases j)
  from Cons obtain runs where runs: "list_all2 (worker_ran b L ask) (map fst jobs) runs"
    "\<forall>x. (\<Sum>t \<leftarrow> map snd jobs. sparse_count_at t x) = of_nat (count_list (concat runs) x)" by auto
  from Cons.prems j obtain ips where "worker_ran b L ask d ips" "\<forall>x. sparse_count_at t x = of_nat (count_list ips x)"
    by (auto simp: replied_exactly_def)
  with runs j show ?case by (intro exI [of _ "ips # runs"]) simp
qed simp

lemma session_counts:
  assumes "session_run b rm L ask w0 es jobs s" and "RecvPanics \<notin> set es"
  shows "forwarded es = map fst jobs @ queued (proc_queue (cli s)) @ data_reqs (to_client s)
     \<and> (\<exists>runs. list_all2 (worker_ran b L ask) (map fst jobs) runs
       \<and> (\<forall>x. (\<Sum>t \<leftarrow> fetched es. count_at t x) + count_at (rst_data (srv s)) x
            + (\<Sum>t \<leftarrow> replies (to_server s). sparse_count_at t x) = of_nat (count_list (concat runs) x)))"
proof -
  from session_inv [OF assms(1), unfolded session_ok_def] have run: "agent_run b rm es (srv s)"
    and pieces: "forwarded es = map fst jobs @ queued (proc_queue (cli s)) @ data_reqs (to_client s)"
    and counts: "map snd jobs = reported es @ replies (to_server s)"
    and jobs: "list_all (replied_exactly b L ask) jobs" by blast+
  have "\<forall>t \<in> set (map snd jobs). wf_sparse t" using jobs by (auto simp: list_all_iff replied_exactly_def)
  then have "\<forall>t \<in> set (reported es). wf_sparse t" unfolding counts by simp
  note held = agent_counts [OF run assms(2) this, THEN conjunct2]
  from list_all_runs [OF jobs] pieces show ?thesis unfolding counts held by simp
qed

section \<open>Properties\<close>


text \<open>A session: the client registers, gets a piece and decodes it.\<close>

lemma small_session:
  "\<exists>es t s. session_run Debug no_memory quiet_lib (\<lambda>_ _ w. (NoTaker, w)) () es [([1, 5, 0, 9, 5], t)] s
     \<and> RecvPanics \<notin> set es"
proof -
  let ?run = "session_run Debug no_memory quiet_lib (\<lambda>_ _ w. (NoTaker, w)) ()" and ?d = "[1, 5, 0, 9, 5] :: bytes"
  let ?s0 = "session_start () :: unit session"
  let ?a1 = "ClientAgent_new\<lparr>ag_state := Activate, out_msgs := [RegRsp 0]\<rparr>"
  let ?a2 = "?a1\<lparr>task_chan := [?d]\<rparr>" and ?a3 = "?a1\<lparr>out_msgs := [RegRsp 0, DataReq ?d]\<rparr>"
  have own: "\<forall>m. Publish ?d \<noteq> Recv m" "\<forall>m. SendTask ?d \<noteq> Recv m" by simp_all
  have t0: "to_server ?s0 = RegReq 0 # []" "srv ?s0 = ClientAgent_new"
    by (simp_all add: session_start_def ServerAgent_connect_def)
  have "agent_step Debug no_memory (srv ?s0) (Recv (RegReq 0)) ?a1"
    unfolding t0 by (simp add: agent_defs ClientAgent_new_def) (intro exI [of _ True], simp)
  note r1 = ss_next [OF ss_start st_arrive [OF t0(1) this]]
  let ?s1 = "srv_moves ?a1 (?s0\<lparr>to_server := []\<rparr>)"
  have "agent_step Debug no_memory (srv ?s1) (Publish ?d) ?a2"
    by (simp add: srv_moves_def publish_task_def ClientAgent_new_def)
  note r2 = ss_next [OF r1 st_server [OF own(1) this]]
  let ?s2 = "srv_moves ?a2 ?s1"
  have "agent_step Debug no_memory (srv ?s2) (SendTask ?d) ?a3"
    by (simp add: srv_moves_def agent_defs ClientAgent_new_def)
  note r3 = ss_next [OF r2 st_server [OF own(2) this]]
  let ?s3 = "srv_moves ?a3 ?s2"
  have s3: "to_client ?s3 = RegRsp 0 # [DataReq ?d]" "cli ?s3 = ServerAgent_connect"
    by (simp_all add: srv_moves_def session_start_def newly_sent_def ClientAgent_new_def)
  have "client_step (Arrive (RegRsp 0)) (cli ?s3) = Some (Inr ServerAgent_connect)" "loop_alive (cli ?s3)"
    unfolding s3 by (simp_all add: ServerAgent_connect_def)
  note r4 = ss_next [OF r3 st_client [OF s3(1) this]]
  let ?s4 = "cli_moves ServerAgent_connect (?s3\<lparr>to_client := [DataReq ?d]\<rparr>)"
  let ?c5 = "ServerAgent_connect\<lparr>proc_queue := [Proc ?d]\<rparr>"
  have s4: "to_client ?s4 = DataReq ?d # []" "cli ?s4 = ServerAgent_connect" by (simp_all add: cli_moves_def)
  have "client_step (Arrive (DataReq ?d)) (cli ?s4) = Some (Inr ?c5)" "loop_alive (cli ?s4)"
    unfolding s4 by (simp_all add: ServerAgent_connect_def)
  note r5 = ss_next [OF r4 st_client [OF s4(1) this]]
  let ?s5 = "cli_moves ?c5 (?s4\<lparr>to_client := []\<rparr>)"
  obtain t c where job: "proc_data_step Debug quiet_lib (\<lambda>_ _ w. (NoTaker, w)) (Proc ?d) (MemCacher_new, ())
     = Some (Inr (Some (DataRsp t), c, ()))" using quiet_reply by blast
  have s5: "proc_queue (cli ?s5) = Proc ?d # []" "0 < length (caches ?s5)"
    "(caches ?s5 ! 0, client_world ?s5) = (MemCacher_new, ())"
    by (simp_all add: cli_moves_def srv_moves_def session_start_def)
  from ss_next [OF r5 st_decode [OF s5(1,2)]] job have
    "\<exists>s. ?run (([Recv (RegReq 0)] @ [Publish ?d]) @ [SendTask ?d]) [(?d, t)] s"
    unfolding s5(3) append_Nil append_Nil2 by blast
  then show ?thesis by (intro exI [of _ "[Recv (RegReq 0), Publish ?d, SendTask ?d]"] exI [of _ t]) simp
qed


end
