(* ===== verification/CollectorFiles.thy ===== *)
theory CollectorFiles
  imports Programs
begin

text \<open>
  The collector from the hardware to its files: \<open>main\<close> of \<open>src/src/bin/collector.rs\<close> with the
  capture of \<open>src/src/pt_ctrl/mod.rs\<close> and the writers of \<open>src/src/file_writer/mod.rs\<close>. The
  collector does not end, so what is stated holds after any number of rounds of its loop.
\<close>

section \<open>Rounds of the capture loop\<close>

text \<open>The state of a capture that has made \<open>k\<close> rounds and not ended.\<close>

fun capture_rounds :: "nat \<Rightarrow> hardware \<Rightarrow> 'p Capture.processor \<Rightarrow> PtSetupRst \<Rightarrow> 'p capture \<Rightarrow> 'p capture res" where
  "capture_rounds 0 hw pr rsp c = Inr c"
| "capture_rounds (Suc k) hw pr rsp c =
     res_bind (sweep hw pr rsp [0..<unat (out_buff_num rsp)] (replicate (unat (out_buff_num rsp)) False) c)
       (\<lambda>(ended, c'). capture_rounds k hw pr rsp c')"

lemma capture_rounds_invariant:
  assumes "capture_rounds k hw pr rsp c = Inr c'" and "P c"
    and "\<And>i c a c'. i < unat (out_buff_num rsp) \<Longrightarrow> P c \<Longrightarrow> visit hw pr rsp i c = Inr (a, c') \<Longrightarrow> P c'"
  shows "P c'"
  using assms(1,2)
proof (induction k arbitrary: c)
  case (Suc k)
  from Suc.prems(1) obtain as c1 where v: "visits hw pr rsp [0..<unat (out_buff_num rsp)] c = Inr (as, c1)"
    and r: "capture_rounds k hw pr rsp c1 = Inr c'"
    by (auto simp: sweep_visits res_simps)
  have "P c1" by (rule visits_invariant [OF v, where P = P]) (use Suc.prems(2) assms(3) in auto)
  with Suc.IH r show ?case by blast
qed simp

lemma visits_tick: "visits hw pr rsp idxs c = Inr (as, c') \<Longrightarrow> tick c' = tick c + length idxs"
proof (induction idxs arbitrary: c as)
  case (Cons i idxs)
  then obtain a c1 as' where v: "visit hw pr rsp i c = Inr (a, c1)" "visits hw pr rsp idxs c1 = Inr (as', c')"
    by (auto simp: res_simps)
  have "tick c1 = tick c + 1" using visit_InrD [OF v(1)] by (auto simp: Let_def)
  with Cons.IH [OF v(2)] show ?case by simp
qed simp

lemma capture_rounds_tick:
  "capture_rounds k hw pr rsp c = Inr c' \<Longrightarrow> tick c' = tick c + k * unat (out_buff_num rsp)"
proof (induction k arbitrary: c)
  case (Suc k)
  then obtain as c1 where v: "visits hw pr rsp [0..<unat (out_buff_num rsp)] c = Inr (as, c1)"
    and r: "capture_rounds k hw pr rsp c1 = Inr c'"
    by (auto simp: sweep_visits res_simps)
  from Suc.IH [OF r] visits_tick [OF v] show ?case by simp
qed simp

text \<open>A capture that goes on after \<open>k\<close> rounds has made them, and does not end in the next.\<close>

lemma capture_loop_running:
  "capture_loop (Suc k) hw pr rsp c = None \<Longrightarrow>
   \<exists>c'. capture_rounds k hw pr rsp c = Inr c' \<and> capture_loop 1 hw pr rsp c' = None"
proof (induction k arbitrary: c)
  case (Suc k)
  let ?s = "sweep hw pr rsp [0..<unat (out_buff_num rsp)] (replicate (unat (out_buff_num rsp)) False) c"
  from Suc.prems obtain c1 where "?s = Inr (False, c1)" "capture_loop (Suc k) hw pr rsp c1 = None"
    unfolding capture_loop.simps(2) [of "Suc k"] Let_def by (auto split: sum.splits bool.splits simp del: capture_loop.simps)
  with Suc.IH show ?case by simp
qed simp

section \<open>The collector in the loop\<close>

lemma collector_inv_steps:
  "collector_inv s0 dir es own data st \<Longrightarrow>
   \<exists>es'. collector_inv s0 dir es' own data (st\<lparr>col_sys := fold sched ks (col_sys st)\<rparr>)"
proof (induction ks arbitrary: es st)
  case Nil
  then show ?case by (intro exI [of _ es]) simp
next
  case (Cons k ks)
  from Cons.IH [OF collector_inv_step [OF Cons.prems, of k]] show ?case by simp
qed

lemma collector_callback_inv:
  assumes "collector_callback b clock steps t i buff sz (Inr st) = (a, Inr st')"
    and "collector_inv s0 dir es own data st" and "tasks s0 = []"
  shows "\<exists>es' own'. collector_inv s0 dir es' own' (data(i := data i @ take sz buff)) st'"
proof -
  from collector_inv_steps [OF assms(2), of "steps t"] obtain es1 where
    inv: "collector_inv s0 dir es1 own data (st\<lparr>col_sys := fold sched (steps t) (col_sys st)\<rparr>)" by blast
  from assms(1) obtain go where
    "collector_processor b (clock t) i buff sz (st\<lparr>col_sys := fold sched (steps t) (col_sys st)\<rparr>) = Inr (go, st')"
    by (auto simp: collector_callback_def split: sum.splits prod.splits)
  from collector_processor_inv [OF inv assms(3) this] show ?thesis by blast
qed

definition collecting :: "PtSetupRst \<Rightarrow> traffic \<Rightarrow> system \<Rightarrow> string \<Rightarrow> (collector res \<times> deliveries) capture \<Rightarrow> bool" where
  "collecting rsp tr s0 dir c \<longleftrightarrow> trace_inv rsp tr c
     \<and> (\<forall>st. fst (proc_st c) = Inr st \<longrightarrow>
          (\<exists>es own. collector_inv s0 dir es own (\<lambda>i. Tracing.delivered i (snd (proc_st c))) st))"

lemma collecting_visit:
  assumes inv: "collecting rsp tr s0 dir c" and s0: "tasks s0 = []" and i: "i < unat (out_buff_num rsp)"
    and v: "visit (tracing rsp tr) (logged (collector_callback b clock steps)) rsp i c = Inr (a, c')"
  shows "collecting rsp tr s0 dir c'"
proof -
  from inv have tr: "trace_inv rsp tr c" by (simp add: collecting_def)
  from visit_trace(2) [OF tr i v] obtain tmp m where
    dl: "snd (proc_st c') = snd (proc_st c) @ [(i, take m tmp)]" and
    cb: "(a, fst (proc_st c')) = collector_callback b clock steps (tick c) i tmp m (fst (proc_st c))" by blast
  have "\<exists>es own. collector_inv s0 dir es own (\<lambda>j. Tracing.delivered j (snd (proc_st c'))) st'"
    if st': "fst (proc_st c') = Inr st'" for st'
  proof -
    from cb st' obtain st where st: "fst (proc_st c) = Inr st"
      by (cases "fst (proc_st c)") (auto simp: collector_callback_def)
    with inv obtain es own where "collector_inv s0 dir es own (\<lambda>j. Tracing.delivered j (snd (proc_st c))) st"
      unfolding collecting_def by blast
    from collector_callback_inv [OF _ this s0] cb st st' obtain es' own' where
      "collector_inv s0 dir es' own' ((\<lambda>j. Tracing.delivered j (snd (proc_st c)))(i := Tracing.delivered i (snd (proc_st c)) @ take m tmp)) st'"
      by metis
    moreover have "(\<lambda>j. Tracing.delivered j (snd (proc_st c)))(i := Tracing.delivered i (snd (proc_st c)) @ take m tmp)
        = (\<lambda>j. Tracing.delivered j (snd (proc_st c')))"
      by (auto simp: dl)
    ultimately show ?thesis by auto
  qed
  with visit_trace(1) [OF tr i v] show ?thesis by (simp add: collecting_def)
qed

text \<open>Once it has panicked the callback refuses, so a capture that goes on has not.\<close>

lemma panicked_visits:
  assumes "visits hw (logged (collector_callback b clock steps)) rsp idxs c = Inr (as, c')"
    and "fst (proc_st c) = Inl e"
  shows "\<forall>a \<in> set as. \<not> a"
  using assms
proof (induction idxs arbitrary: c as)
  case (Cons i idxs)
  then obtain a c1 as' where v: "visit hw (logged (collector_callback b clock steps)) rsp i c = Inr (a, c1)"
    "visits hw (logged (collector_callback b clock steps)) rsp idxs c1 = Inr (as', c')" "as = a # as'"
    by (auto simp: res_simps)
  from visit_callback [OF v(1)] Cons.prems(2) have "\<not> a" "fst (proc_st c1) = Inl e"
    by (cases "proc_st c"; auto simp: logged_def collector_callback_def)+
  with Cons.IH v(2,3) show ?case by auto
qed simp

lemma running_not_panicked:
  assumes "capture_loop 1 hw (logged (collector_callback b clock steps)) rsp c = None"
    and "0 < unat (out_buff_num rsp)"
  shows "\<exists>st. fst (proc_st c) = Inr st"
proof (rule ccontr)
  assume "\<nexists>st. fst (proc_st c) = Inr st"
  then obtain e where e: "fst (proc_st c) = Inl e" by (cases "fst (proc_st c)") auto
  let ?n = "unat (out_buff_num rsp)"
  from assms(1) obtain as c' where v: "visits hw (logged (collector_callback b clock steps)) rsp [0..<?n] c = Inr (as, c')"
    by (cases "visits hw (logged (collector_callback b clock steps)) rsp [0..<?n] c") (auto simp: sweep_visits)
  from visits_length [OF v] assms(2) have "as \<noteq> []" by auto
  with panicked_visits [OF v e] v assms(1) show False by (auto simp: sweep_visits split: bool.splits)
qed

section \<open>Writers that keep up\<close>

text \<open>How many steps a task needs to have nothing more to write.\<close>

definition due :: "wtask \<Rightarrow> nat" where
  "due t = (case task_pc t of Starting \<Rightarrow> Suc (length (task_queue t)) | Writing f pos \<Rightarrow> length (task_queue t) | _ \<Rightarrow> 0)"

text \<open>
  What keeps the collector from panicking. A lag of each writer can be given that stays below
  the 10000 blocks of its channel while a block may come with every call; and no more than a
  file's worth of scratch buffers (of 819200 bytes) is filled within one second, so that two
  files of a processor never have the same name.
\<close>

definition writers_keep_up :: "nat \<Rightarrow> (nat \<Rightarrow> nat list) \<Rightarrow> (nat \<Rightarrow> nat \<Rightarrow> nat) \<Rightarrow> bool" where
  "writers_keep_up n steps lag \<longleftrightarrow> (\<forall>t j. 1 \<le> lag t j)
     \<and> (\<forall>t. \<forall>j < n + t. lag t j - count_list (steps t) j < 10000
          \<and> Suc (lag t j - count_list (steps t) j) \<le> lag (Suc t) j)"

definition clock_ok :: "nat \<Rightarrow> nat \<Rightarrow> (nat \<Rightarrow> nat) \<Rightarrow> (nat \<Rightarrow> nat) \<Rightarrow> bool" where
  "clock_ok n limit start clock \<longleftrightarrow>
     (\<forall>t. limit < Suc t * 819200 \<longrightarrow> (\<forall>i < n. start i < clock t))
     \<and> (\<forall>t t'. t < t' \<longrightarrow> limit < (t' - t) * 819200 \<longrightarrow> clock t < clock t')"

text \<open>
  The state of the collector before call \<open>t\<close>: \<open>made\<close> holds the time and the processor of each
  task, \<open>cur i\<close> the time of the current writer of processor \<open>i\<close>, which can only outgrow the
  limit after that time.
\<close>

definition task_names :: "string \<Rightarrow> nat \<times> nat \<Rightarrow> string list" where
  "task_names dir = (\<lambda>(time, i). [get_file_name time (of_nat i) dir ''tmp'', get_file_name time (of_nat i) dir ''data''])"

definition slot_in_time ::
    "string \<Rightarrow> usize \<Rightarrow> (nat \<Rightarrow> nat) \<Rightarrow> nat \<Rightarrow> nat \<Rightarrow> DataWriter \<Rightarrow> bool" where
  "slot_in_time dir limit clock t time w \<longleftrightarrow> writer_dir w = dir \<and> write_size w \<le> limit
     \<and> (\<exists>s. unat (write_size w) \<le> s * 819200
          \<and> (\<forall>t' \<ge> t. unat limit < Suc (t' - t + s) * 819200 \<longrightarrow> time < clock t'))"

definition in_time ::
    "string \<Rightarrow> nat \<Rightarrow> (nat \<Rightarrow> nat) \<Rightarrow> (nat \<Rightarrow> nat \<Rightarrow> nat) \<Rightarrow> nat \<Rightarrow> (nat \<times> nat) list \<Rightarrow> (nat \<Rightarrow> nat) \<Rightarrow> collector \<Rightarrow> bool" where
  "in_time dir n clock lag t made cur st \<longleftrightarrow> RT st
     \<and> (\<exists>wts. WT st = Some wts \<and> length wts = n
          \<and> (\<forall>i < n. \<exists>w. wts ! i = Some w \<and> slot_in_time dir (FILE_SIZE st) clock t (cur i) w))
     \<and> length (tasks (col_sys st)) \<le> n + t \<and> map own_names (tasks (col_sys st)) = map (task_names dir) made
     \<and> distinct made \<and> (\<forall>(time, i) \<in> set made. i < n \<and> time \<le> cur i)
     \<and> (\<forall>j < length (tasks (col_sys st)). due (tasks (col_sys st) ! j) \<le> lag t j)"

lemma due_sched:
  "j < length (tasks s) \<Longrightarrow> due (tasks (sched k s) ! j) = due (tasks s ! j) - (if j = k then 1 else 0)"
proof -
  assume j: "j < length (tasks s)"
  have "due t' = due t - 1" if "run_task t dk = Some (t', dk')" for t dk t' dk'
    using that by (auto simp: due_def run_task_def split: task_pc.splits list.splits if_splits option.splits prod.splits)
  moreover have "due t = 0" if "run_task t dk = None" for t dk
    using that by (auto simp: due_def run_task_def split: task_pc.splits list.splits if_splits option.splits prod.splits)
  ultimately show ?thesis using j by (auto simp: sched_def nth_list_update split: option.split)
qed

lemma steps_frame:
  "length (tasks (fold sched ks s)) = length (tasks s)"
  "map own_names (tasks (fold sched ks s)) = map own_names (tasks s)"
proof -
  show len: "length (tasks (fold sched ks s)) = length (tasks s)"
    by (induction ks arbitrary: s) (simp_all add: length_sched)
  have "own_names (tasks (fold sched ks s) ! j) = own_names (tasks s ! j)" for j
    by (induction ks arbitrary: s) (simp_all add: own_names_sched)
  with len show "map own_names (tasks (fold sched ks s)) = map own_names (tasks s)"
    by - (rule nth_equalityI, simp_all)
qed

lemma map_own_names_drop: "map own_names (tasks (drop_writer w s)) = map own_names (tasks s)"
  by (rule nth_equalityI) (simp_all add: own_names_drop, simp_all add: drop_writer_def close_task_def)

lemma due_drop: "due (tasks (drop_writer w s) ! j) = due (tasks s ! j)"
proof -
  have "due (t\<lparr>task_closed := True\<rparr>) = due t" for t
    by (simp add: due_def split: task_pc.split)
  then show ?thesis
    by (cases "writer_tx w < length (tasks s)")
      (auto simp: drop_writer_def close_task_def nth_list_update list_update_beyond)
qed

lemma due_steps:
  "j < length (tasks s) \<Longrightarrow> due (tasks (fold sched ks s) ! j) = due (tasks s ! j) - count_list ks j"
  by (induction ks arbitrary: s) (auto simp: length_sched due_sched)

lemma suffix_differ: "get_file_name t i dir ''tmp'' \<noteq> get_file_name u j dir ''data''"
proof
  assume "get_file_name t i dir ''tmp'' = get_file_name u j dir ''data''"
  from arg_cong [OF this, of last] show False by (simp add: get_file_name_def)
qed

lemma task_names_inj:
  assumes "i < 2 ^ 32" and "j < 2 ^ 32" and "set (task_names dir (t, i)) \<inter> set (task_names dir (u, j)) \<noteq> {}"
  shows "t = u \<and> i = j"
proof -
  note apart = suffix_differ [of t "of_nat i" dir u "of_nat j"] suffix_differ [of u "of_nat j" dir t "of_nat i"]
  have "t = u \<and> (of_nat i :: u32) = of_nat j"
    using assms(3) apart file_name_inj by (auto simp: task_names_def)
  then show ?thesis using assms(1,2) by (simp add: word_of_nat_eq_iff take_bit_nat_eq_self)
qed

lemma distinct_task_names:
  assumes "distinct made" and "\<forall>(t, i) \<in> set made. i < n" and "n \<le> 2 ^ 32"
  shows "distinct (concat (map (task_names dir) made))"
  using assms(1,2)
proof (induction made)
  case (Cons m made)
  obtain t i where m: "m = (t, i)" by fastforce
  have "set (task_names dir m) \<inter> set (task_names dir x) = {}" if "x \<in> set made" for x
  proof (rule ccontr)
    obtain u j where x: "x = (u, j)" by fastforce
    assume "set (task_names dir m) \<inter> set (task_names dir x) \<noteq> {}"
    then have "t = u \<and> i = j" using task_names_inj [of i j dir t u] Cons.prems(2) that assms(3) m x by fastforce
    with Cons.prems(1) that m x show False by simp
  qed
  moreover have "distinct (task_names dir m)"
    using suffix_differ by (simp add: m task_names_def)
  ultimately show ?case using Cons by auto
qed simp


lemma slot_in_time_later: "slot_in_time dir limit clock t time w \<Longrightarrow> slot_in_time dir limit clock (Suc t) time w"
  unfolding slot_in_time_def
proof (elim conjE exE, goal_cases)
  case (1 s)
  have "time < clock t'" if "Suc t \<le> t'" "unat limit < Suc (t' - Suc t + s) * 819200" for t'
  proof -
    have "Suc (t' - Suc t + s) * 819200 \<le> Suc (t' - t + s) * 819200" using that(1) by (intro mult_le_mono1) linarith
    then show ?thesis using that 1(4) by (meson Suc_leD less_le_trans)
  qed
  with 1(1-3) show ?case by blast
qed

lemma slot_in_time_written:
  assumes slot: "slot_in_time dir limit clock t time w" and sz: "sz \<le> 819200" and fits: "unat limit + 819200 < 2 ^ 64"
  shows "unat (write_size w) + unat (of_nat sz :: usize) < 2 ^ 64"
    and "write_size w + of_nat sz \<le> limit \<Longrightarrow> slot_in_time dir limit clock (Suc t) time (w\<lparr>write_size := write_size w + of_nat sz\<rparr>)"
    and "limit < write_size w + of_nat sz \<Longrightarrow> time < clock t"
proof -
  from slot obtain s where s: "unat (write_size w) \<le> s * 819200" "writer_dir w = dir"
    "\<And>t'. t \<le> t' \<Longrightarrow> unat limit < Suc (t' - t + s) * 819200 \<Longrightarrow> time < clock t'"
    and le: "unat (write_size w) \<le> unat limit"
    unfolding slot_in_time_def word_le_nat_alt by blast
  have un: "unat (of_nat sz :: usize) = sz" using sz by (simp add: unat_of_nat)
  then show less: "unat (write_size w) + unat (of_nat sz :: usize) < 2 ^ 64" using le sz fits by linarith
  then have sum: "unat (write_size w + of_nat sz) = unat (write_size w) + sz" using un by (simp add: unat_plus_if_size word_size)
  have grown: "unat (write_size w + of_nat sz) \<le> Suc s * 819200" using sum s(1) sz by simp
  show "time < clock t" if "limit < write_size w + of_nat sz"
  proof -
    have "unat limit < Suc s * 819200" using that grown unfolding word_less_nat_alt by linarith
    with s(3) [of t] show ?thesis by simp
  qed
  show "slot_in_time dir limit clock (Suc t) time (w\<lparr>write_size := write_size w + of_nat sz\<rparr>)"
    if "write_size w + of_nat sz \<le> limit"
  proof -
    have "time < clock t'" if "Suc t \<le> t'" "unat limit < Suc (t' - Suc t + Suc s) * 819200" for t'
      using s(3) [of t'] that by (simp add: Suc_diff_le)
    with s(2) grown that show ?thesis unfolding slot_in_time_def by (auto intro!: exI [of _ "Suc s"])
  qed
qed

text \<open>A fresh writer of call \<open>t\<close>, for the calls after it.\<close>

lemma slot_in_time_fresh:
  assumes "clock_ok n (unat limit) start clock"
  shows "slot_in_time dir limit clock (Suc t) (clock t)
     \<lparr>writer_tx = k, file_name = f, writer_dir = dir, write_size = 0\<rparr>"
    and "i < n \<Longrightarrow> slot_in_time dir limit clock 0 (start i)
     \<lparr>writer_tx = k, file_name = f, writer_dir = dir, write_size = 0\<rparr>"
proof -
  have "clock t < clock t'" if "Suc t \<le> t'" "unat limit < Suc (t' - Suc t) * 819200" for t'
    using assms that unfolding clock_ok_def by (metis Suc_diff_Suc Suc_le_lessD)
  then show "slot_in_time dir limit clock (Suc t) (clock t)
     \<lparr>writer_tx = k, file_name = f, writer_dir = dir, write_size = 0\<rparr>"
    unfolding slot_in_time_def by (auto intro!: exI [of _ 0])
  show "slot_in_time dir limit clock 0 (start i) \<lparr>writer_tx = k, file_name = f, writer_dir = dir, write_size = 0\<rparr>" if "i < n"
    using assms that unfolding slot_in_time_def clock_ok_def by (auto intro!: exI [of _ 0])
qed


text \<open>
  A call of the callback while all is in time: the channel has room and its task runs, so
  nothing panics, and a new file has a name of its own.
\<close>

lemma in_time_names:
  assumes "in_time dir n clock lag t made cur st" and "n \<le> 2 ^ 32"
  shows "distinct (concat (map own_names (tasks (col_sys st))))"
  using assms distinct_task_names [of made n dir] by (auto simp: in_time_def)

lemma writer_has_room:
  assumes inv: "collector_inv s0 dir es own data st" and s0: "tasks s0 = []" "names_ok (disk_of s0)"
    and names: "distinct (concat (map own_names (tasks (col_sys st))))"
    and w: "slot_ok own (col_sys st) i w" and due: "due (tasks (col_sys st) ! writer_tx w) < 10000"
  shows "\<exists>s. try_send (writer_tx w) d (col_sys st) = Inr s
     \<and> (\<forall>j < length (tasks (col_sys st)). due (tasks s ! j) =
          due (tasks (col_sys st) ! j) + (if j = writer_tx w then 1 else 0))"
proof -
  let ?k = "writer_tx w" and ?t = "tasks (col_sys st) ! writer_tx w"
  have run: "run_events es s0 = Inr (col_sys st)" and len: "length own = length (tasks (col_sys st))"
    using inv unfolding collector_inv_def by blast+
  from run_events_ok [OF run _ s0] spawned_names [OF run s0(1)] names
  have "system_ok (\<lambda>k. sent k es) (col_sys st)" by simp
  moreover have k: "?k < length (tasks (col_sys st))" "\<not> task_closed ?t" using w len by (simp_all add: slot_ok_def)
  ultimately have "task_ok (disk_of (col_sys st)) (sent ?k es) ?t" using system_okD(3) by blast
  with k(2) have live: "task_live ?t" "length (task_queue ?t) \<le> due ?t"
    "\<And>q. due (?t\<lparr>task_queue := q\<rparr>) + length (task_queue ?t) = due ?t + length q"
    by (auto simp: task_ok_def task_live_def due_def split: task_pc.splits)
  from live(3) [of "task_queue ?t @ [d]"] have "due (?t\<lparr>task_queue := task_queue ?t @ [d]\<rparr>) = Suc (due ?t)" by simp
  with k live(1,2) due show ?thesis
    by (auto simp: try_send_def index_at_def nth_list_update)
qed

lemma in_time_steps:
  assumes "in_time dir n clock lag t made cur st" and "writers_keep_up n steps lag"
  shows "j < length (tasks (col_sys st)) \<Longrightarrow>
     due (tasks (fold sched (steps t) (col_sys st)) ! j) < 10000
     \<and> Suc (due (tasks (fold sched (steps t) (col_sys st)) ! j)) \<le> lag (Suc t) j"
proof -
  assume j: "j < length (tasks (col_sys st))"
  then have "due (tasks (col_sys st) ! j) \<le> lag t j" "j < n + t" using assms(1) by (auto simp: in_time_def)
  moreover from this(2) assms(2) have "lag t j - count_list (steps t) j < 10000"
    "Suc (lag t j - count_list (steps t) j) \<le> lag (Suc t) j" by (simp_all add: writers_keep_up_def)
  ultimately show ?thesis unfolding due_steps [OF j] by linarith
qed


lemma collector_call_in_time:
  assumes it: "in_time dir n clock lag t made cur st"
    and inv: "collector_inv s0 dir es own data st" and s0: "tasks s0 = []" "names_ok (disk_of s0)"
    and keep: "writers_keep_up n steps lag" and clk: "clock_ok n (unat (FILE_SIZE st)) start clock"
    and fits: "unat (FILE_SIZE st) + 819200 < 2 ^ 64" "n \<le> 2 ^ 32"
    and i: "i < n" and sz: "sz \<le> length buff" "sz \<le> 819200"
  shows "\<exists>made' cur' st'. collector_callback b clock steps t i buff sz (Inr st) = (True, Inr st')
     \<and> FILE_SIZE st' = FILE_SIZE st \<and> in_time dir n clock lag (Suc t) made' cur' st'"
proof -
  let ?s = "fold sched (steps t) (col_sys st)" and ?st = "st\<lparr>col_sys := fold sched (steps t) (col_sys st)\<rparr>"
  from collector_inv_steps [OF inv] obtain es1 where inv1: "collector_inv s0 dir es1 own data ?st" by blast
  note T = it [unfolded in_time_def]
  from T obtain wts where wts: "WT st = Some wts" "length wts = n"
    "\<And>j. j < n \<Longrightarrow> \<exists>w. wts ! j = Some w \<and> slot_in_time dir (FILE_SIZE st) clock t (cur j) w" by blast
  from wts(3) [OF i] obtain w where w: "wts ! i = Some w" "slot_in_time dir (FILE_SIZE st) clock t (cur i) w" by blast
  have slot: "slot_ok own (col_sys ?st) i w" using inv1 wts(1,2) w(1) i by (auto simp: collector_inv_def)
  have names: "distinct (concat (map own_names (tasks (col_sys ?st))))"
    using in_time_names [OF it fits(2)] steps_frame(2) by simp
  have k: "writer_tx w < length (tasks ?s)" using slot inv1 by (simp add: slot_ok_def collector_inv_def)
  have due: "due (tasks ?s ! j) < 10000" "Suc (due (tasks ?s ! j)) \<le> lag (Suc t) j" if "j < length (tasks ?s)" for j
    using in_time_steps [OF it keep, of j] that by (simp_all add: steps_frame(1))
  have "due (tasks (col_sys ?st) ! writer_tx w) < 10000" using due(1) [OF k] by simp
  from writer_has_room [OF inv1 s0 names slot this] obtain s where
    s: "try_send (writer_tx w) (take sz buff) ?s = Inr s"
    "\<And>j. j < length (tasks ?s) \<Longrightarrow> due (tasks s ! j) = due (tasks ?s ! j) + (if j = writer_tx w then 1 else 0)" by auto
  note F = try_send_frame [OF s(1)]
  note S = slot_in_time_written [OF w(2) sz(2) fits(1)]
  let ?w = "w\<lparr>write_size := write_size w + of_nat sz\<rparr>"
  have "DataWriter_write b buff sz (w, ?s) = Inr (?w, s)"
    using s(1) sz(1) uadd_ok [of "write_size w" "of_nat sz :: usize" b] S(1)
    by (simp add: DataWriter_write_def slice_def)
  note wrote = this

  have len: "length (tasks s) = length (tasks (col_sys st))" using F(1) steps_frame(1) by simp
  have dir: "writer_dir w = dir" using w(2) by (simp add: slot_in_time_def)
  have "map own_names (tasks s) = map own_names (tasks ?s)"
    using F(1) F(4) by - (rule nth_equalityI, simp_all)
  then have made: "map own_names (tasks s) = map (task_names dir) made" using T steps_frame(2) by simp
  have lag: "due (tasks s ! j) \<le> lag (Suc t) j" if "j < length (tasks s)" for j
    using due(2) [of j] s(2) [of j] that F(1) by (auto split: if_splits)
  have old: "\<exists>w. wts ! j = Some w \<and> slot_in_time dir (FILE_SIZE st) clock (Suc t) (cur j) w" if "j < n" for j
    using wts(3) [OF that] slot_in_time_later by blast
  show ?thesis
  proof (cases "FILE_SIZE st < write_size w + of_nat sz")
    case False
    let ?st' = "st\<lparr>WT := Some (wts[i := Some ?w]), col_sys := s\<rparr>"
    have "collector_callback b clock steps t i buff sz (Inr st) = (True, Inr ?st')"
      using wts(1,2) i w(1) wrote False by (simp add: collector_callback_def collector_processor_def index_at_def)
    moreover have "\<exists>w. wts[i := Some ?w] ! j = Some w \<and> slot_in_time dir (FILE_SIZE st) clock (Suc t) (cur j) w" if "j < n" for j
      using wts(2) old [OF that] that S(2) False by (cases "j = i") (auto simp: not_less)
    then have "in_time dir n clock lag (Suc t) made cur ?st'"
      unfolding in_time_def using T wts(2) made len lag by auto
    ultimately show ?thesis by (intro exI [of _ made] exI [of _ cur] exI [of _ ?st']) simp
  next
    case True
    let ?v = "\<lparr>writer_tx = length (tasks s), file_name = get_file_name (clock t) (of_nat i) dir ''tmp'', writer_dir = dir, write_size = 0\<rparr>"
    let ?task = "\<lparr>task_file = get_file_name (clock t) (of_nat i) dir ''tmp'', task_complete = get_file_name (clock t) (of_nat i) dir ''data'',
        task_pc = Starting, task_queue = [], task_closed = False\<rparr>"
    let ?s2 = "drop_writer ?w (s\<lparr>tasks := tasks s @ [?task]\<rparr>)"
    let ?st' = "st\<lparr>WT := Some (wts[i := Some ?v]), col_sys := ?s2\<rparr>"
    obtain v s3 where new: "DataWriter_new (clock t) (of_nat i) dir ''tmp'' s = (v, s3)" by fastforce
    note N = DataWriter_new_names [OF new]
    have call: "collector_callback b clock steps t i buff sz (Inr st) = (True, Inr ?st')"
      using wts(1,2) i w(1) wrote True T new N dir
      by (simp add: collector_callback_def collector_processor_def index_at_def)
    let ?made = "made @ [(clock t, i)]" and ?cur = "cur(i := clock t)"
    have later: "cur i < clock t" using S(3) True .
    have "map own_names (tasks ?s2) = map own_names (tasks s @ [?task])"
      by (simp add: map_own_names_drop)
    also have "\<dots> = map (task_names dir) ?made" by (simp add: made task_names_def own_names_def)
    finally have names': "map own_names (tasks ?s2) = map (task_names dir) ?made" .
    have "(clock t, i) \<notin> set made" using T later by fastforce
    then have distinct': "distinct ?made" using T by simp
    have bound: "\<forall>(time, j) \<in> set ?made. j < n \<and> time \<le> ?cur j" using T later i by fastforce
    have due': "due (tasks ?s2 ! j) \<le> lag (Suc t) j" if "j < length (tasks ?s2)" for j
    proof -
      have "due (tasks ?s2 ! j) = due ((tasks s @ [?task]) ! j)"
        by (simp add: due_drop)
      moreover have "1 \<le> lag (Suc t) j" using keep by (simp add: writers_keep_up_def)
      moreover have "j < Suc (length (tasks s))" using that by (simp add: drop_writer_def close_task_def)
      ultimately show ?thesis using lag [of j] by (auto simp: nth_append due_def)
    qed
    have "\<exists>w. wts[i := Some ?v] ! j = Some w \<and> slot_in_time dir (FILE_SIZE st) clock (Suc t) (?cur j) w" if "j < n" for j
      using wts(2) old [OF that] that slot_in_time_fresh(1) [OF clk] by (cases "j = i") auto
    moreover have "length (tasks ?s2) = Suc (length (tasks s))" by (simp add: drop_writer_def close_task_def)
    ultimately have "in_time dir n clock lag (Suc t) ?made ?cur ?st'"
      unfolding in_time_def using T wts(2) names' distinct' bound due' len by simp
    with call show ?thesis by (intro exI [of _ ?made] exI [of _ ?cur] exI [of _ ?st']) simp
  qed
qed


section \<open>The collector goes on\<close>

lemma make_writers_fresh:
  assumes "make_writers at dir ''tmp'' [m..<n] s = (ws, s')" and "m \<le> n"
  shows "length ws = n - m
     \<and> (\<forall>j < n - m. \<exists>k f. ws ! j = Some \<lparr>writer_tx = k, file_name = f, writer_dir = dir, write_size = 0\<rparr>)
     \<and> map own_names (tasks s') = map own_names (tasks s) @ map (\<lambda>i. task_names dir (at i, i)) [m..<n]
     \<and> map due (tasks s') = map due (tasks s) @ replicate (n - m) 1"
  using assms
proof (induction "n - m" arbitrary: m s ws)
  case 0
  then show ?case by auto
next
  case (Suc d)
  then have up: "[m..<n] = m # [Suc m..<n]" by (intro upt_conv_Cons) simp
  obtain w s1 where new: "DataWriter_new (at m) (of_nat m) dir ''tmp'' s = (w, s1)" by fastforce
  note N = DataWriter_new_names [OF new]
  obtain ws1 where ws1: "make_writers at dir ''tmp'' [Suc m..<n] s1 = (ws1, s')" "ws = Some w # ws1"
    using Suc.prems(1) new unfolding up by (auto split: prod.splits)
  have d: "d = n - Suc m" "Suc m \<le> n" "n - m = Suc (n - Suc m)" using Suc.hyps(2) by auto
  note IH = Suc.hyps(1) [OF d(1) ws1(1) d(2)]
  have "\<exists>k f. ws ! j = Some \<lparr>writer_tx = k, file_name = f, writer_dir = dir, write_size = 0\<rparr>" if "j < n - m" for j
    using that IH N(2) ws1(2) d(3) by (cases j) auto
  moreover have "map own_names (tasks s1) = map own_names (tasks s) @ [task_names dir (at m, m)]"
    "map due (tasks s1) = map due (tasks s) @ [1]"
    by (simp_all add: N(1) own_names_def task_names_def due_def)
  ultimately show ?case using IH ws1(2) d(3) unfolding up by simp
qed

lemma in_time_start:
  assumes env: "collector_env b n at dir file_size dk = Inr st" and keep: "writers_keep_up n steps lag"
    and clk: "clock_ok n (unat (FILE_SIZE st)) at clock"
  shows "in_time dir n clock lag 0 (map (\<lambda>i. (at i, i)) [0..<n]) at st"
proof -
  obtain ws s where mk: "make_writers at dir ''tmp'' [0..<n] \<lparr>tasks = [], disk_of = dk\<rparr> = (ws, s)" by fastforce
  with env obtain sz where st: "st = \<lparr>WT = Some ws, RT = True, FILE_SIZE = sz, col_sys = s\<rparr>"
    by (auto simp: collector_env_def res_simps)
  from make_writers_fresh [OF mk] have w: "length ws = n"
    "\<And>j. j < n \<Longrightarrow> \<exists>k f. ws ! j = Some \<lparr>writer_tx = k, file_name = f, writer_dir = dir, write_size = 0\<rparr>"
    "map own_names (tasks s) = map (\<lambda>i. task_names dir (at i, i)) [0..<n]" "map due (tasks s) = replicate n 1" by auto
  from w(4) have len: "length (tasks s) = n" by (metis length_map length_replicate)
  have "due (tasks s ! j) = 1" if "j < n" for j
    using w(4) len that by (metis nth_map nth_replicate)
  then have "due (tasks s ! j) \<le> lag 0 j" if "j < n" for j
    using keep that by (simp add: writers_keep_up_def)
  moreover have "\<exists>w. ws ! i = Some w \<and> slot_in_time dir sz clock 0 (at i) w" if "i < n" for i
    using w(2) [OF that] slot_in_time_fresh(2) [OF clk that] by (auto simp: st)
  moreover have "distinct (map (\<lambda>i. (at i, i)) [0..<n])" by (simp add: distinct_map inj_on_def)
  ultimately show ?thesis using w len by (auto simp: in_time_def st)
qed

lemma visit_tmp_buff:
  assumes "visit hw pr rsp i c = Inr (a, c')" and "capture_wf n rsp c" and "i < n" and "hw_keeps_maps hw"
  shows "length (tmp_buff c') = length (tmp_buff c)"
proof -
  let ?ring = "take (unat (out_buffer_len rsp)) (hw (tick c) (mapped c) (out_buffer_info rsp ! i))"
  have ne: "0 < length ?ring" using assms(2-4) by (auto simp: capture_wf_def hw_keeps_maps_def)
  from visit_InrD [OF assms(1)] obtain m tmp data where
    "fetch_data ?ring (read_pos c ! i) (tmp_buff c) = Inr (m, tmp, data)" "tmp_buff c' = tmp"
    by (auto simp: Let_def)
  with fetch_data_spec [OF ne, of "read_pos c ! i" "tmp_buff c"]
    avail_length [of "rotate (read_pos c ! i) ?ring"] show ?thesis
    by (auto simp: Let_def)
qed

lemma capture_endless:
  assumes step: "\<And>i c. i < unat (out_buff_num rsp) \<Longrightarrow> P c \<Longrightarrow> \<exists>c'. visit hw pr rsp i c = Inr (True, c') \<and> P c'"
    and n: "0 < unat (out_buff_num rsp)" and "P c"
  shows "capture_loop k hw pr rsp c = None"
  using assms(3)
proof (induction k arbitrary: c)
  case (Suc k)
  let ?n = "unat (out_buff_num rsp)"
  have "\<exists>as c'. visits hw pr rsp idxs c = Inr (as, c') \<and> (\<forall>a \<in> set as. a) \<and> P c'"
    if "\<forall>i \<in> set idxs. i < ?n" "P c" for idxs c
    using that
  proof (induction idxs arbitrary: c)
    case (Cons i idxs)
    with step [of i c] obtain c1 where v: "visit hw pr rsp i c = Inr (True, c1)" "P c1" by auto
    have "\<forall>i \<in> set idxs. i < ?n" using Cons.prems(1) by simp
    from Cons.IH [OF this v(2)] v(1) show ?case by auto
  qed simp
  from this [of "[0..<?n]" c] Suc.prems obtain as c' where
    v: "visits hw pr rsp [0..<?n] c = Inr (as, c')" "\<forall>a \<in> set as. a" "P c'" by auto
  from visits_length [OF v(1)] n have "as \<noteq> []" by auto
  with v(2) have goes_on: "(as \<noteq> [] \<and> (\<forall>a \<in> set as. \<not> a)) = False" by (cases as) auto
  show ?case using Suc.IH [OF v(3)] by (simp add: sweep_visits v(1) goes_on)
qed simp


text \<open>Whatever the time, a collector still running has not panicked, and has its bytes in its files.\<close>

lemma collector_running:
  assumes prepared: "collector_prepare b m w = Inr (h, opt, p, st0, w1)"
    and started: "setup_pt_no_pmi_start (ctl_codes m) (driver m) h (ucast p) (opt_buff_size opt) (opt_mtc opt)
        (opt_psb opt) (opt_cyc opt) (opt_addr0_cfg opt) (opt_addr0_start opt) (opt_addr0_end opt)
        PtSetupRst_default w1 = (Inr (), rsp, w2)"
    and rings: "rings_ready rsp (mappings m w2)"
    and hw: "trace_hw m = tracing rsp tr"
    and disk: "names_ok (files_before m)"
    and running: "collector_main b (Suc k) m clock steps w = None"
  shows "\<exists>c st own. capture_rounds k (trace_hw m) (logged (collector_callback b clock steps)) rsp
        (capture_start rsp (mappings m w2) (Inr st0, [])) = Inr c
     \<and> tick c = k * unat (out_buff_num rsp) \<and> fst (proc_st c) = Inr st
     \<and> length own = length (tasks (col_sys st)) \<and> made_for (opt_out_dir opt) own (tasks (col_sys st))
     \<and> (distinct (concat (map own_names (tasks (col_sys st)))) \<longrightarrow>
          (\<forall>t \<in> set (tasks (col_sys st)). task_pc t \<noteq> Panicked)
        \<and> (\<forall>i < unat (out_buff_num rsp). cpu_stored own (col_sys st) i = Tracing.delivered i (snd (proc_st c))
           \<and> (keeps_up rsp tr (snd (proc_st c)) \<longrightarrow>
                (\<exists>unread. wrote tr (tick c) i = cpu_stored own (col_sys st) i @ unread))))"
proof -
  let ?pr = "collector_callback b clock steps" and ?s0 = "\<lparr>tasks = [], disk_of = files_before m\<rparr>"
  let ?c0 = "capture_start rsp (mappings m w2) (Inr st0 :: collector res, [] :: deliveries)"
  from prepared have "collector_env b (processors m) (clock_at m) (opt_out_dir opt) (opt_file_size opt) (files_before m) = Inr st0"
    by (auto simp: collector_prepare_def res_simps)
  from collector_env_inv [OF this] trace_inv_start [OF rings]
  have start: "collecting rsp tr ?s0 (opt_out_dir opt) ?c0"
    by (simp add: collecting_def) (simp add: capture_start_def)
  have "unlog ?c0 = capture_start rsp (mappings m w2) (Inr st0)" by (simp add: unlog_def capture_start_def)
  with running have "capture_loop (Suc k) (tracing rsp tr) ?pr rsp (unlog ?c0) = None"
    by (simp add: collector_main_def prepared setup_pt_no_pmi_started [OF started] hw
        del: capture_loop.simps split: option.splits sum.splits)
  then have loop: "capture_loop (Suc k) (tracing rsp tr) (logged ?pr) rsp ?c0 = None"
    unfolding capture_loop_unlog by (simp del: capture_loop.simps)
  from capture_loop_running [OF loop] obtain c where
    c: "capture_rounds k (tracing rsp tr) (logged ?pr) rsp ?c0 = Inr c" "capture_loop 1 (tracing rsp tr) (logged ?pr) rsp c = None"
    by blast
  have "0 < unat (out_buff_num rsp)" using rings by (simp add: rings_ready_def word_less_nat_alt)
  from running_not_panicked [OF c(2) this] obtain st where st: "fst (proc_st c) = Inr st" by blast
  have "collecting rsp tr ?s0 (opt_out_dir opt) c"
    by (rule capture_rounds_invariant [OF c(1), where P = "collecting rsp tr ?s0 (opt_out_dir opt)"])
      (use start collecting_visit in auto)
  then obtain es own where tr: "trace_inv rsp tr c" and
    inv: "collector_inv ?s0 (opt_out_dir opt) es own (\<lambda>i. Tracing.delivered i (snd (proc_st c))) st"
    using st unfolding collecting_def by blast
  have files: "length own = length (tasks (col_sys st))" "made_for (opt_out_dir opt) own (tasks (col_sys st))"
    using inv unfolding collector_inv_def by blast+
  have "tick c = k * unat (out_buff_num rsp)" using capture_rounds_tick [OF c(1)] by (simp add: capture_start_def)
  moreover have "names_ok (disk_of ?s0)" "tasks ?s0 = []" using disk by simp_all
  note collector_inv_stored [OF inv this(2,1)]
  ultimately show ?thesis using c(1) st files trace_inv_delivered [OF tr] unfolding hw
    by (intro exI [of _ c] exI [of _ st] exI [of _ own]) auto
qed


definition going ::
    "PtSetupRst \<Rightarrow> traffic \<Rightarrow> system \<Rightarrow> string \<Rightarrow> nat \<Rightarrow> usize \<Rightarrow> (nat \<Rightarrow> nat) \<Rightarrow> (nat \<Rightarrow> nat \<Rightarrow> nat)
     \<Rightarrow> (collector res \<times> deliveries) capture \<Rightarrow> bool" where
  "going rsp tr s0 dir n limit clock lag c \<longleftrightarrow> collecting rsp tr s0 dir c \<and> length (tmp_buff c) = 819200
     \<and> (\<exists>st made cur. fst (proc_st c) = Inr st \<and> FILE_SIZE st = limit \<and> in_time dir n clock lag (tick c) made cur st)"

lemma going_visit:
  assumes going: "going rsp tr s0 dir n limit clock lag c" and s0: "tasks s0 = []" "names_ok (disk_of s0)"
    and keep: "writers_keep_up n steps lag" and clk: "clock_ok n (unat limit) start clock"
    and fits: "unat limit + 819200 < 2 ^ 64" "n \<le> 2 ^ 32" and i: "i < unat (out_buff_num rsp)" "unat (out_buff_num rsp) \<le> n"
  shows "\<exists>c'. visit (tracing rsp tr) (logged (collector_callback b clock steps)) rsp i c = Inr (True, c')
     \<and> going rsp tr s0 dir n limit clock lag c'"
proof -
  let ?pr = "collector_callback b clock steps"
  from going obtain st made cur where coll: "collecting rsp tr s0 dir c" and tmp: "length (tmp_buff c) = 819200"
    and st: "fst (proc_st c) = Inr st" "FILE_SIZE st = limit" "in_time dir n clock lag (tick c) made cur st"
    unfolding going_def by blast
  from coll st(1) obtain es own where tr: "trace_inv rsp tr c"
    and inv: "collector_inv s0 dir es own (\<lambda>i. Tracing.delivered i (snd (proc_st c))) st" unfolding collecting_def by blast
  from tr have wf: "capture_wf (unat (out_buff_num rsp)) rsp c" by (simp add: trace_inv_def)
  from visit_ok [OF wf tracing_keeps_maps i(1)] obtain a c' where
    v: "visit (tracing rsp tr) (logged ?pr) rsp i c = Inr (a, c')" and tick: "tick c' = Suc (tick c)" by blast
  have "0 < length (take (unat (out_buffer_len rsp)) (tracing rsp tr (tick c) (mapped c) (out_buffer_info rsp ! i)))"
    using wf i(1) tracing_keeps_maps [of rsp tr] by (auto simp: capture_wf_def hw_keeps_maps_def)
  note size = fetch_data_size(1) [OF _ this]
  obtain m tmp data where
    f: "fetch_data (take (unat (out_buffer_len rsp)) (tracing rsp tr (tick c) (mapped c) (out_buffer_info rsp ! i)))
      (read_pos c ! i) (tmp_buff c) = Inr (m, tmp, data)"
    and out: "tmp_buff c' = tmp" "proc_st c' = snd (logged ?pr (tick c) i tmp m (proc_st c))"
      "a = fst (logged ?pr (tick c) i tmp m (proc_st c))"
    using visit_InrD [OF v] unfolding Let_def by fastforce
  have "m \<le> length (tmp_buff c')" using size [OF f] out(1) by simp
  moreover have cb: "(a, fst (proc_st c')) = ?pr (tick c) i (tmp_buff c') m (Inr st)"
    using out st(1) by (simp add: logged_def split_beta)
  moreover have "length (tmp_buff c') = 819200" using visit_tmp_buff [OF v wf i(1) tracing_keeps_maps] tmp by simp
  ultimately have sz: "m \<le> length (tmp_buff c')" "m \<le> 819200" by simp_all
  have n: "i < n" using i by simp
  note clk' = clk [folded st(2)] and fits' = fits(1) [folded st(2)]
  from collector_call_in_time [OF st(3) inv s0 keep clk' fits' fits(2) n sz, of b] cb st(2)
  obtain made' cur' st' where "a" "fst (proc_st c') = Inr st'" "FILE_SIZE st' = limit"
    "in_time dir n clock lag (Suc (tick c)) made' cur' st'" by auto
  with v tick collecting_visit [OF coll s0(1) i(1) v] \<open>length (tmp_buff c') = 819200\<close> show ?thesis
    by (auto simp: going_def)
qed

section \<open>Properties\<close>


lemma demo_collector_prepare:
  "\<exists>opt st. collector_prepare Release demo_machine () = Inr (1, opt, 5, st, ()) \<and> FILE_SIZE st = GB"
proof -
  obtain opt where opt: "read_options (demo_clap demo_options) = Inr opt" "opt_process opt = ''game.exe''" "opt_file_size opt = []"
    using demo_read_options by blast
  have "\<exists>st. collector_env Release 2 (\<lambda>_. 0) (opt_out_dir opt) [] no_files = Inr st \<and> FILE_SIZE st = GB"
    by (auto simp: collector_env_def set_file_size_def to_uppercase_def ends_with_def Let_def split: prod.split)
  then obtain st where st: "collector_env Release 2 (\<lambda>_. 0) (opt_out_dir opt) [] no_files = Inr st" "FILE_SIZE st = GB" by blast
  have dev: "open_device demo_machine = Inr 1"
    by (simp add: open_device_def demo_machine_def get_pt_handle_def expect_def Let_def)
  have proc: "get_process_id ''game.exe'' [(5, ''game.exe'')] = Some 5" by simp
  have "size_PtSetupServerPidRsp = 4" by code_simp
  then have ann: "announce_host demo_machine 1 () = Inr ()"
    by (simp add: announce_host_def demo_machine_def unwrap_ok_def setup_host_pid_def demo_driver_def expect_def Let_def)
  have "collector_prepare Release demo_machine () = Inr (1, opt, 5, st, ())"
    unfolding collector_prepare_def dev res_bind.simps ann
    by (simp add: demo_machine_def opt proc st unwrap_def)
  with st(2) show ?thesis by blast
qed

lemma each_steps: "writers_keep_up n (\<lambda>t. [0..<n + t]) (\<lambda>_ _. 1)"
proof -
  have "count_list [0..<k] j = 1" if "j < k" for j k :: nat
    using that by (induction k) (auto simp: less_Suc_eq count_list_0_iff)
  then show ?thesis by (simp add: writers_keep_up_def)
qed


end
