(* ===== verification/FetchSteps.thy ===== *)
theory FetchSteps
  imports Capture
begin

text \<open>
  \<open>fetch_data\<close> (\<open>src/src/pt_ctrl/mod.rs\<close>) memory access by memory access, with the hardware
  writing in between. \<open>Capture\<close> takes one call as a step; here a step is one read or one write
  of the ring, and what the hardware writes becomes visible byte by byte, in order, at any
  time. The calls themselves follow each other as the loop of \<open>setup_pt_no_pmi\<close> makes them.
\<close>

section \<open>One access at a time\<close>

text \<open>
  Where the loop body is: before the read of \<open>cur\<close> for \<open>j\<close>, before the copy of the byte, before
  it is overwritten; or the loop is over.
\<close>

datatype fetch_pc = Check nat | Copy | Mark | Stop

record fetching =
  ring_cells :: bytes
  from_pos :: nat
  idx :: nat
  fetch_pc :: fetch_pc
  out_buff :: bytes
  rst_size :: nat

definition fetch_start :: "bytes \<Rightarrow> nat \<Rightarrow> bytes \<Rightarrow> fetching" where
  "fetch_start buff pos out = \<lparr>ring_cells = buff, from_pos = pos, idx = 0,
     fetch_pc = (if 0 < length out then Check 0 else Stop), out_buff = out, rst_size = 0\<rparr>"

definition fetch_step :: "fetching \<Rightarrow> fetching res" where
  "fetch_step s =
     (let buff = ring_cells s; buff_len = length buff; pos = from_pos s; i = idx s in
      case fetch_pc s of
        Check j \<Rightarrow>
          if j \<ge> 10 then Inr (s\<lparr>fetch_pc := Stop\<rparr>)
          else if buff_len = 0 then Inl RemByZero
          else if buff ! ((pos + i + j) mod buff_len) \<noteq> 0xFF then Inr (s\<lparr>fetch_pc := Copy\<rparr>)
          else Inr (s\<lparr>fetch_pc := Check (j + 1)\<rparr>)
      | Copy \<Rightarrow>
          if buff_len = 0 then Inl RemByZero
          else res_bind (update_at (out_buff s) i (buff ! ((i + pos) mod buff_len))) (\<lambda>out.
          Inr (s\<lparr>out_buff := out, fetch_pc := Mark\<rparr>))
      | Mark \<Rightarrow>
          Inr (s\<lparr>ring_cells := buff[(i + pos) mod buff_len := 0xFF], rst_size := rst_size s + 1, idx := i + 1,
            fetch_pc := (if i + 1 < length (out_buff s) then Check 0 else Stop)\<rparr>)
      | Stop \<Rightarrow> Inr s)"

fun fetch_steps :: "nat \<Rightarrow> fetching \<Rightarrow> fetching res" where
  "fetch_steps 0 s = Inr s"
| "fetch_steps (Suc n) s = res_bind (fetch_step s) (fetch_steps n)"

section \<open>The hardware in between\<close>

text \<open>
  \<open>Hw x\<close>: the hardware writes its next byte. \<open>Access\<close>: the next access of the fetch. \<open>Again\<close>: when
  the fetch is over, the capture loop hands what it got to its callback, advances the position
  and starts the next fetch with the same buffer.
\<close>

datatype race_event = Hw u8 | Access | Again

record race =
  fetch :: fetching
  hw_count :: nat
  handed :: bytes

fun race_step :: "race_event \<Rightarrow> race \<Rightarrow> race res" where
  "race_step (Hw x) r =
     Inr (r\<lparr>fetch := (fetch r)\<lparr>ring_cells := (ring_cells (fetch r))
              [hw_count r mod length (ring_cells (fetch r)) := x]\<rparr>, hw_count := hw_count r + 1\<rparr>)"
| "race_step Access r = res_bind (fetch_step (fetch r)) (\<lambda>f. Inr (r\<lparr>fetch := f\<rparr>))"
| "race_step Again r =
     (let f = fetch r; len = length (ring_cells f) in
      if fetch_pc f = Stop
      then if len = 0 then Inl RemByZero
           else Inr (r\<lparr>fetch := fetch_start (ring_cells f) ((from_pos f + rst_size f) mod len) (out_buff f),
                  handed := handed r @ take (rst_size f) (out_buff f)\<rparr>)
      else Inr r)"

definition race_run :: "race_event list \<Rightarrow> race \<Rightarrow> race res" where
  "race_run es r = res_fold race_step es r"

definition hw_written :: "race_event list \<Rightarrow> bytes" where
  "hw_written es = concat (map (\<lambda>e. case e of Hw x \<Rightarrow> [x] | _ \<Rightarrow> []) es)"

text \<open>The hardware does not write a cell whose byte has not been taken.\<close>

fun no_lap :: "race_event list \<Rightarrow> race \<Rightarrow> bool" where
  "no_lap [] r = True"
| "no_lap (e # es) r \<longleftrightarrow>
     (case e of Hw x \<Rightarrow> hw_count r < length (ring_cells (fetch r)) + length (handed r) + rst_size (fetch r)
      | _ \<Rightarrow> True)
     \<and> (case race_step e r of Inl err \<Rightarrow> True | Inr r' \<Rightarrow> no_lap es r')"

section \<open>Without the hardware it is \<open>fetch_data\<close>\<close>

lemma fetch_steps_add: "fetch_steps (m + n) s = res_bind (fetch_steps m s) (fetch_steps n)"
  by (induction m arbitrary: s) (auto simp: res_bind_assoc intro!: res_bind_cong)

lemma check_steps:
  assumes "fetch_pc s = Check j" and "j \<le> 10" and "0 < length (ring_cells s)"
  shows "\<exists>n. fetch_steps n s = Inr (s\<lparr>fetch_pc :=
      (if scan_valid (ring_cells s) (from_pos s + idx s) [j..<10] = Inr True then Copy else Stop)\<rparr>)"
  using assms
proof (induction "10 - j" arbitrary: j s)
  case 0
  then have "fetch_steps 1 s = Inr (s\<lparr>fetch_pc := Stop\<rparr>)" by (simp add: fetch_step_def)
  with 0 show ?case by (intro exI [of _ 1]) simp
next
  case (Suc d)
  then have up: "[j..<10] = j # [Suc j..<10]" and j: "\<not> 10 \<le> j" by (simp_all add: upt_rec)
  show ?case
  proof (cases "ring_cells s ! ((from_pos s + idx s + j) mod length (ring_cells s)) = 0xFF")
    case False
    with Suc.prems up j have "fetch_steps 1 s = Inr (s\<lparr>fetch_pc := Copy\<rparr>)"
      "scan_valid (ring_cells s) (from_pos s + idx s) [j..<10] = Inr True"
      by (simp_all add: fetch_step_def)
    then show ?thesis by (intro exI [of _ 1]) simp
  next
    case True
    let ?s = "s\<lparr>fetch_pc := Check (Suc j)\<rparr>"
    from True Suc.prems up j have step: "fetch_step s = Inr ?s"
      "scan_valid (ring_cells s) (from_pos s + idx s) [j..<10] = scan_valid (ring_cells s) (from_pos s + idx s) [Suc j..<10]"
      by (simp_all add: fetch_step_def)
    have "d = 10 - Suc j" "fetch_pc ?s = Check (Suc j)" "Suc j \<le> 10" "0 < length (ring_cells ?s)"
      using Suc by auto
    from Suc.hyps(1) [OF this] obtain n where "fetch_steps n ?s = Inr (s\<lparr>fetch_pc :=
      (if scan_valid (ring_cells s) (from_pos s + idx s) [Suc j..<10] = Inr True then Copy else Stop)\<rparr>)" by auto
    with step show ?thesis by (intro exI [of _ "Suc n"]) simp
  qed
qed

text \<open>The state before iteration \<open>i\<close>.\<close>

definition fetch_at :: "bytes \<Rightarrow> nat \<Rightarrow> nat \<Rightarrow> bytes \<Rightarrow> nat \<Rightarrow> fetching" where
  "fetch_at buff pos i out sz = \<lparr>ring_cells = buff, from_pos = pos, idx = i,
     fetch_pc = (if i < length out then Check 0 else Stop), out_buff = out, rst_size = sz\<rparr>"

lemma fetch_loop_steps:
  assumes "0 < length buff" and "length out = i + n"
  shows "\<exists>k j out' buff' sz'. fetch_loop pos i n buff out sz = Inr (sz', out', buff')
     \<and> fetch_steps k (fetch_at buff pos i out sz) =
        Inr \<lparr>ring_cells = buff', from_pos = pos, idx = j, fetch_pc = Stop, out_buff = out', rst_size = sz'\<rparr>"
  using assms
proof (induction n arbitrary: i buff out sz)
  case 0
  then have "fetch_steps 0 (fetch_at buff pos i out sz) = Inr \<lparr>ring_cells = buff, from_pos = pos, idx = i, fetch_pc = Stop, out_buff = out, rst_size = sz\<rparr>"
    by (simp add: fetch_at_def)
  then show ?case
    by (intro exI [of _ 0] exI [of _ i] exI [of _ out] exI [of _ buff] exI [of _ sz]) simp
next
  case (Suc n)
  let ?s = "fetch_at buff pos i out sz"
  have pc: "fetch_pc ?s = Check 0" and len: "0 < length (ring_cells ?s)" and i: "i < length out"
    using Suc.prems by (simp_all add: fetch_at_def)
  from check_steps [OF pc _ len] obtain k where k: "fetch_steps k ?s =
      Inr (?s\<lparr>fetch_pc := (if scan_valid buff (pos + i) [0..<10] = Inr True then Copy else Stop)\<rparr>)"
    by (auto simp: fetch_at_def)
  obtain v where v: "scan_valid buff (pos + i) [0..<10] = Inr v" using scan_valid_iff [OF Suc.prems(1)] by blast
  show ?case
  proof (cases v)
    case False
    with v k have "fetch_steps k ?s =
        Inr \<lparr>ring_cells = buff, from_pos = pos, idx = i, fetch_pc = Stop, out_buff = out, rst_size = sz\<rparr>"
      by (simp add: fetch_at_def)
    moreover have "fetch_loop pos i (Suc n) buff out sz = Inr (sz, out, buff)" using v False by simp
    ultimately show ?thesis by blast
  next
    case True
    let ?o = "(i + pos) mod length buff"
    let ?out = "out[i := buff ! ?o]" and ?buff = "buff[?o := 0xFF]"
    have "fetch_steps (k + 2) ?s = Inr (fetch_at ?buff pos (Suc i) ?out (sz + 1))"
      unfolding fetch_steps_add k using True v i Suc.prems(1)
      by (simp add: fetch_at_def fetch_step_def numeral_2_eq_2 update_at_def)
    moreover have "0 < length ?buff" "length ?out = Suc i + n" using Suc.prems by simp_all
    from Suc.IH [OF this, of "sz + 1"] obtain k' j out' buff' sz' where
      IH: "fetch_loop pos (Suc i) n ?buff ?out (sz + 1) = Inr (sz', out', buff')"
      "fetch_steps k' (fetch_at ?buff pos (Suc i) ?out (sz + 1)) =
        Inr \<lparr>ring_cells = buff', from_pos = pos, idx = j, fetch_pc = Stop, out_buff = out', rst_size = sz'\<rparr>" by blast
    ultimately have "fetch_steps ((k + 2) + k') ?s =
        Inr \<lparr>ring_cells = buff', from_pos = pos, idx = j, fetch_pc = Stop, out_buff = out', rst_size = sz'\<rparr>"
      unfolding fetch_steps_add [of "k + 2"] by simp
    moreover have "fetch_loop pos i (Suc n) buff out sz = Inr (sz', out', buff')"
      using IH(1) v True i by (simp add: update_at_def)
    ultimately show ?thesis by blast
  qed
qed

lemma fetch_steps_fetch_data:
  assumes "0 < length buff"
  shows "\<exists>k j out' buff' sz'. fetch_data buff pos out = Inr (sz', out', buff')
     \<and> fetch_steps k (fetch_start buff pos out) =
        Inr \<lparr>ring_cells = buff', from_pos = pos, idx = j, fetch_pc = Stop, out_buff = out', rst_size = sz'\<rparr>"
  using fetch_loop_steps [OF assms, of out 0 "length out" pos 0]
  by (simp add: fetch_data_def fetch_at_def fetch_start_def)

section \<open>With the hardware it is still a byte channel\<close>

text \<open>
  What holds between two accesses: read from the next byte to take, the ring holds what was
  written and not taken, then blanks; and the fetch copies only bytes that are there.
\<close>

definition race_inv :: "race \<Rightarrow> bytes \<Rightarrow> bytes \<Rightarrow> bool" where
  "race_inv r ws pending \<longleftrightarrow> (let f = fetch r; len = length (ring_cells f) in
     0 < len \<and> ws = handed r @ take (rst_size f) (out_buff f) @ pending \<and> hw_count r = length ws
     \<and> rst_size f = idx f \<and> idx f \<le> length (out_buff f) \<and> length pending \<le> len
     \<and> from_pos f = length (handed r) mod len
     \<and> rotate (length (handed r) + idx f) (ring_cells f) = pending @ replicate (len - length pending) 0xFF
     \<and> (case fetch_pc f of
          Check j \<Rightarrow> idx f < length (out_buff f)
        | Copy \<Rightarrow> idx f < length (out_buff f) \<and> pending \<noteq> []
        | Mark \<Rightarrow> idx f < length (out_buff f) \<and> pending \<noteq> [] \<and> out_buff f ! idx f = hd pending
        | Stop \<Rightarrow> True))"

lemma race_cell:
  assumes "0 < length buff" and "from = h mod length buff" and "rotate (h + i) buff = v"
  shows "buff ! ((from + i + j) mod length buff) = v ! (j mod length buff)" and "(i + from) mod length buff = (h + i + 0) mod length buff"
proof -
  have pos: "(from + k) mod length buff = (h + k) mod length buff" for k by (simp add: assms(2) mod_add_left_eq)
  from pos [of "i + j"] ring_nth [OF assms(1), of "h + i" j] show "buff ! ((from + i + j) mod length buff) = v ! (j mod length buff)"
    by (simp add: assms(3) add.assoc)
  from pos [of i] show "(i + from) mod length buff = (h + i + 0) mod length buff" by (simp add: add.commute)
qed

lemma race_hw:
  assumes inv: "race_inv r ws pending" and room: "hw_count r < length (ring_cells (fetch r)) + length (handed r) + rst_size (fetch r)"
  shows "\<exists>r'. race_step (Hw x) r = Inr r' \<and> race_inv r' (ws @ [x]) (pending @ [x])"
proof -
  let ?f = "fetch r" and ?len = "length (ring_cells (fetch r))" and ?p = "length (handed r) + idx (fetch r)"
  note I = inv [unfolded race_inv_def Let_def]
  have less: "length pending < ?len" and hw: "hw_count r = ?p + length pending" using I room by auto
  have "rotate ?p ((ring_cells ?f)[(?p + length pending) mod ?len := x]) = (pending @ replicate (?len - length pending) 0xFF)[length pending := x]"
    using rotate_update [OF less, of ?p x] I by simp
  also have "\<dots> = (pending @ [x]) @ replicate (?len - length (pending @ [x])) 0xFF"
    using less by (simp add: list_update_append Suc_diff_Suc [symmetric])
  finally have "rotate ?p ((ring_cells ?f)[hw_count r mod ?len := x]) = (pending @ [x]) @ replicate (?len - length (pending @ [x])) 0xFF"
    by (simp add: hw)
  with I less show ?thesis by (auto simp: race_inv_def Let_def split: fetch_pc.splits)
qed

lemma race_access:
  assumes inv: "race_inv r ws pending"
  shows "\<exists>r' pending'. race_step Access r = Inr r' \<and> race_inv r' ws pending'"
proof -
  let ?f = "fetch r" and ?buff = "ring_cells (fetch r)" and ?len = "length (ring_cells (fetch r))"
  let ?p = "length (handed r) + idx (fetch r)"
  note I = inv [unfolded race_inv_def Let_def]
  have len: "0 < ?len" and from_pos: "from_pos ?f = length (handed r) mod ?len"
    and rot: "rotate ?p ?buff = pending @ replicate (?len - length pending) 0xFF" using I by blast+
  note cell = race_cell [OF len from_pos rot]
  show ?thesis
  proof (cases "fetch_pc ?f")
    case (Check j)
    have "?buff ! ((from_pos ?f + idx ?f + j) mod ?len) = 0xFF" if "pending = []"
      using cell(1) [of j] that len by simp
    with I Check show ?thesis by (auto simp: fetch_step_def race_inv_def Let_def)
  next
    case Copy
    then have ne: "pending \<noteq> []" "idx ?f < length (out_buff ?f)" using I by auto
    then have "?buff ! ((idx ?f + from_pos ?f) mod ?len) = hd pending"
      using cell(1) [of 0] len by (simp add: add.commute nth_append hd_conv_nth)
    with I Copy ne show ?thesis by (auto simp: fetch_step_def race_inv_def Let_def update_at_def)
  next
    case Mark
    then have ne: "pending \<noteq> []" "idx ?f < length (out_buff ?f)" "out_buff ?f ! idx ?f = hd pending" using I by auto
    let ?buff' = "?buff[(idx ?f + from_pos ?f) mod ?len := 0xFF]"
    obtain y ys where y: "pending = y # ys" using ne(1) by (cases pending) auto
    have le: "length pending \<le> ?len" using I by blast
    have k: "?len - length ys = Suc (?len - length pending)" using le y by simp
    have "rotate (Suc ?p) ?buff' = rotate 1 (rotate ?p ?buff')" by (simp add: rotate_rotate)
    also have "rotate ?p ?buff' = (pending @ replicate (?len - length pending) 0xFF)[0 := 0xFF]"
      unfolding cell(2) using rotate_update [OF len, of ?p] rot by simp
    also have "rotate 1 \<dots> = ys @ replicate (?len - length ys) 0xFF"
      unfolding k by (simp add: y replicate_append_same)
    finally have rot': "rotate (length (handed r) + Suc (idx ?f)) ?buff' = ys @ replicate (?len - length ys) 0xFF" by simp
    have "take (Suc (idx ?f)) (out_buff ?f) = take (idx ?f) (out_buff ?f) @ [y]"
      using ne y by (simp add: take_Suc_conv_app_nth)
    with rot' I Mark ne y show ?thesis
      by (intro exI [of _ "r\<lparr>fetch := ?f\<lparr>ring_cells := ?buff', rst_size := rst_size ?f + 1, idx := idx ?f + 1,
            fetch_pc := (if idx ?f + 1 < length (out_buff ?f) then Check 0 else Stop)\<rparr>\<rparr>"] exI [of _ ys])
        (auto simp: fetch_step_def race_inv_def Let_def)
  next
    case Stop
    with inv show ?thesis by (cases r) (auto simp: fetch_step_def)
  qed
qed

lemma race_again:
  assumes inv: "race_inv r ws pending"
  shows "\<exists>r'. race_step Again r = Inr r' \<and> race_inv r' ws pending"
proof (cases "fetch_pc (fetch r) = Stop")
  case True
  note I = inv [unfolded race_inv_def Let_def]
  let ?len = "length (ring_cells (fetch r))"
  have "length (handed r @ take (rst_size (fetch r)) (out_buff (fetch r))) = length (handed r) + idx (fetch r)"
    using I by simp
  moreover have "(from_pos (fetch r) + rst_size (fetch r)) mod ?len = (length (handed r) + idx (fetch r)) mod ?len"
    using I by (simp add: mod_add_left_eq)
  ultimately show ?thesis using I True by (auto simp: race_inv_def Let_def fetch_start_def)
qed (use inv in simp)

lemma race_run_inv:
  assumes "race_inv r ws pending" and "no_lap es r"
  shows "\<exists>r' pending'. race_run es r = Inr r' \<and> race_inv r' (ws @ hw_written es) pending'"
  using assms
proof (induction es arbitrary: r ws pending)
  case Nil
  then show ?case by (auto simp: race_run_def hw_written_def)
next
  case (Cons e es)
  have "\<exists>r1 p1. race_step e r = Inr r1 \<and> race_inv r1 (ws @ hw_written [e]) p1"
  proof (cases e)
    case (Hw x)
    with Cons.prems race_hw [OF Cons.prems(1), of x] show ?thesis by (auto simp: hw_written_def)
  next
    case Access
    with race_access [OF Cons.prems(1)] show ?thesis by (auto simp: hw_written_def)
  next
    case Again
    with race_again [OF Cons.prems(1)] show ?thesis by (auto simp: hw_written_def)
  qed
  then obtain r1 p1 where r1: "race_step e r = Inr r1" "race_inv r1 (ws @ hw_written [e]) p1" by blast
  with Cons.prems(2) have "no_lap es r1" by simp
  from Cons.IH [OF r1(2) this] r1(1) show ?case by (simp add: race_run_def hw_written_def)
qed

section \<open>Properties\<close>

text \<open>The trace has just been started: a blank ring, nothing written, the first fetch not begun.\<close>

definition race_start :: "nat \<Rightarrow> bytes \<Rightarrow> race" where
  "race_start len out = \<lparr>fetch = fetch_start (replicate len 0xFF) 0 out, hw_count = 0, handed = []\<rparr>"

lemma race_start_inv: "0 < len \<Longrightarrow> race_inv (race_start len out) [] []"
  by (simp add: race_inv_def race_start_def fetch_start_def)

text \<open>
  Also: however the writes of the hardware fall between the single reads and
  writes of the fetches, one fetch after the other, as long as no byte is overwritten before it
  was taken: no access fails, and what the callback was handed, then what the fetch has copied
  so far, then at most a ring full of bytes, is what the hardware wrote. So a byte is never
  lost, repeated, invented or reordered by the race on the ring.
\<close>

theorem fetch_interleaved:
  assumes "0 < len" and "no_lap es (race_start len out)"
  shows "\<exists>r pending. race_run es (race_start len out) = Inr r
     \<and> hw_written es = handed r @ take (rst_size (fetch r)) (out_buff (fetch r)) @ pending
     \<and> length pending \<le> len \<and> length (out_buff (fetch r)) = length out"
proof -
  have step: "length (ring_cells (fetch r')) = length (ring_cells (fetch r)) \<and> length (out_buff (fetch r')) = length (out_buff (fetch r))"
    if "race_step e r = Inr r'" for e r r'
    using that by (cases e) (auto simp: fetch_step_def fetch_start_def Let_def res_simps split: fetch_pc.splits if_splits)
  have keeps: "length (ring_cells (fetch r')) = length (ring_cells (fetch r)) \<and> length (out_buff (fetch r')) = length (out_buff (fetch r))"
    if "race_run es r = Inr r'" for r r'
    using that
  proof (induction es arbitrary: r)
    case (Cons e es)
    then obtain r1 where "race_step e r = Inr r1" "race_run es r1 = Inr r'"
      by (auto simp: race_run_def res_simps)
    with Cons.IH step show ?case by metis
  qed (simp add: race_run_def)
  from race_run_inv [OF race_start_inv [OF assms(1)] assms(2)] obtain r pending where
    run: "race_run es (race_start len out) = Inr r" and inv: "race_inv r (hw_written es) pending" by auto
  show ?thesis
    using run inv keeps [OF run] unfolding race_inv_def Let_def by (auto simp: race_start_def fetch_start_def)
qed

text \<open>A ring of two bytes that the hardware fills while it is read.\<close>

definition busy_ring :: "race_event list" where
  "busy_ring = [Hw 7, Access, Hw 9, Access, Access, Hw 5, Access, Access, Access, Again, Access]"

theorem fetch_interleaved_witness:
  "\<exists>r pending. race_run busy_ring (race_start 2 [0, 0]) = Inr r
     \<and> [7, 9, 5] = handed r @ take (rst_size (fetch r)) (out_buff (fetch r)) @ pending \<and> handed r = [7, 9]"
proof -
  have "no_lap busy_ring (race_start 2 [0, 0])"
    by code_simp
  moreover have "hw_written busy_ring = [7, 9, 5]" by (simp add: hw_written_def busy_ring_def)
  moreover have "pred_sum (\<lambda>_. False) (\<lambda>r. handed r = [7, 9]) (race_run busy_ring (race_start 2 [0, 0]))"
    by code_simp
  then have "\<exists>r. race_run busy_ring (race_start 2 [0, 0]) = Inr r \<and> handed r = [7, 9]"
    by (cases "race_run busy_ring (race_start 2 [0, 0])") auto
  ultimately show ?thesis using fetch_interleaved [of 2 busy_ring "[0, 0]"] by auto
qed

end
