(* ===== verification/ClientTasks.thy ===== *)
theory ClientTasks
  imports ServerAgent
begin

text \<open>
  The tasks of the decoding client on the threads of its runtime
  (\<open>ServerAgent::connect\<close>, \<open>proc_data\<close> and \<open>ClientShareInfo::read_mem\<close> in
  \<open>src/src/server_consumer/client_proc.rs\<close>). The runtime is the multi-threaded one of tokio: a
  task runs on one of its \<open>n\<close> threads (by default as many as the machine has processors) and
  gives the thread back when it awaits. Three of the client's tasks call the blocking \<open>recv\<close> of
  a crossbeam channel instead, and keep their thread meanwhile. \<open>ServerAgent\<close> says what a step
  does to the client; here is when a step can be taken.
\<close>

section \<open>Tasks and threads\<close>

text \<open>
  A task that is spawned or woken and waits for a thread; one in \<open>recv\<close>; a worker that decodes
  and will still ask for \<open>r\<close> pages; one that waits for the answer of channel \<open>j\<close>; and one that
  awaits the end of its \<open>send_data\<close>.
\<close>

datatype task_at = Runnable | Receiving | Decoding nat | Asking nat nat | Sending

fun on_thread :: "task_at \<Rightarrow> bool" where
  "on_thread Runnable = False"
| "on_thread Sending = False"
| "on_thread _ = True"

datatype conn_at = Connecting | Listening

text \<open>
  \<open>tasks_at\<close>: the forwarding task, then the two workers, once they are spawned; \<open>inbox\<close>: what has
  arrived on the socket and was not received.
\<close>

record client_rt =
  conn_at :: conn_at
  tasks_at :: "task_at list"
  client :: server_agent
  inbox :: "PtProcMsg list"

definition client_rt_start :: client_rt where
  "client_rt_start = \<lparr>conn_at = Connecting, tasks_at = [], client = ServerAgent_connect, inbox = []\<rparr>"

definition in_use :: "client_rt \<Rightarrow> nat" where
  "in_use s = length (filter on_thread (tasks_at s))"

definition set_task :: "nat \<Rightarrow> task_at \<Rightarrow> client_rt \<Rightarrow> client_rt" where
  "set_task k t s = s\<lparr>tasks_at := (tasks_at s)[k := t]\<rparr>"

text \<open>
  A step of one of the tasks. Connecting, receiving a message and sending one are done by tasks
  that await, and need a thread that no other task keeps; so does a task that was not running.
\<close>

inductive rt_step :: "nat \<Rightarrow> client_rt \<Rightarrow> client_rt \<Rightarrow> bool" for n where
  rt_connect: "conn_at s = Connecting \<Longrightarrow> in_use s < n
    \<Longrightarrow> rt_step n s (s\<lparr>conn_at := Listening, tasks_at := replicate 3 Runnable\<rparr>)"
| rt_receive: "conn_at s = Listening \<Longrightarrow> in_use s < n \<Longrightarrow> inbox s = m # ms \<Longrightarrow> loop_alive (client s)
    \<Longrightarrow> client_step (Arrive m) (client s) = Some (Inr c) \<Longrightarrow> rt_step n s (s\<lparr>client := c, inbox := ms\<rparr>)"
| rt_run: "k < length (tasks_at s) \<Longrightarrow> tasks_at s ! k = Runnable \<Longrightarrow> in_use s < n
    \<Longrightarrow> rt_step n s (set_task k Receiving s)"
| rt_sent: "k < length (tasks_at s) \<Longrightarrow> tasks_at s ! k = Sending \<Longrightarrow> in_use s < n
    \<Longrightarrow> rt_step n s (set_task k Runnable s)"
| rt_forward: "0 < length (tasks_at s) \<Longrightarrow> tasks_at s ! 0 = Receiving \<Longrightarrow> mem_req_queue (client s) \<noteq> []
    \<Longrightarrow> client_step Forward (client s) = Some (Inr c) \<Longrightarrow> rt_step n s (set_task 0 Sending s\<lparr>client := c\<rparr>)"
| rt_init: "0 < k \<Longrightarrow> k < length (tasks_at s) \<Longrightarrow> tasks_at s ! k = Receiving \<Longrightarrow> proc_queue (client s) = ProcInit # q
    \<Longrightarrow> client_step TakeJob (client s) = Some (Inr c) \<Longrightarrow> rt_step n s (s\<lparr>client := c\<rparr>)"
| rt_job: "0 < k \<Longrightarrow> k < length (tasks_at s) \<Longrightarrow> tasks_at s ! k = Receiving \<Longrightarrow> proc_queue (client s) = Proc d # q
    \<Longrightarrow> client_step TakeJob (client s) = Some (Inr c) \<Longrightarrow> rt_step n s (set_task k (Decoding r) s\<lparr>client := c\<rparr>)"
| rt_ask: "0 < k \<Longrightarrow> k < length (tasks_at s) \<Longrightarrow> tasks_at s ! k = Decoding (Suc r)
    \<Longrightarrow> client_step (Ask addr len) (client s) = Some (Inr c)
    \<Longrightarrow> rt_step n s (set_task k (Asking (length (reply_chans (client s))) r) s\<lparr>client := c\<rparr>)"
| rt_answered: "0 < k \<Longrightarrow> k < length (tasks_at s) \<Longrightarrow> tasks_at s ! k = Asking j r \<Longrightarrow> j < length (reply_chans (client s))
    \<Longrightarrow> snd (reply_chans (client s) ! j) \<noteq> Waits \<Longrightarrow> client_step (TakeAnswer j) (client s) = Some (Inr c)
    \<Longrightarrow> rt_step n s (set_task k (Decoding r) s\<lparr>client := c\<rparr>)"
| rt_decoded: "0 < k \<Longrightarrow> k < length (tasks_at s) \<Longrightarrow> tasks_at s ! k = Decoding 0 \<Longrightarrow> rt_step n s (set_task k Sending s)"

text \<open>What the server sends arrives at any time.\<close>

inductive rt_reach :: "nat \<Rightarrow> client_rt \<Rightarrow> bool" for n where
  rt_init_state: "rt_reach n client_rt_start"
| rt_arrive: "rt_reach n s \<Longrightarrow> rt_reach n (s\<lparr>inbox := inbox s @ [m]\<rparr>)"
| rt_next: "rt_reach n s \<Longrightarrow> rt_step n s s' \<Longrightarrow> rt_reach n s'"

inductive_cases rt_stepE: "rt_step n s s'"

section \<open>Every task keeps its place\<close>

lemma set_task_simps [simp]: "conn_at (set_task k t s) = conn_at s" "client (set_task k t s) = client s"
    "inbox (set_task k t s) = inbox s" "tasks_at (set_task k t s) = (tasks_at s)[k := t]"
  by (simp_all add: set_task_def)

fun task_ok_at :: "nat \<Rightarrow> nat \<Rightarrow> task_at \<Rightarrow> bool" where
  "task_ok_at chans k (Decoding r) \<longleftrightarrow> 0 < k"
| "task_ok_at chans k (Asking j r) \<longleftrightarrow> 0 < k \<and> j < chans"
| "task_ok_at chans k _ \<longleftrightarrow> True"

definition tasks_ok :: "nat \<Rightarrow> task_at list \<Rightarrow> bool" where
  "tasks_ok chans ts \<longleftrightarrow> (\<forall>k < length ts. task_ok_at chans k (ts ! k))"

definition rt_inv :: "client_rt \<Rightarrow> bool" where
  "rt_inv s \<longleftrightarrow> length (tasks_at s) = (case conn_at s of Connecting \<Rightarrow> 0 | Listening \<Rightarrow> 3)
     \<and> tasks_ok (length (reply_chans (client s))) (tasks_at s)"

lemma task_ok_at_mono: "task_ok_at m k t \<Longrightarrow> m \<le> n \<Longrightarrow> task_ok_at n k t"
  by (cases t) auto

lemma tasks_ok_mono: "tasks_ok m ts \<Longrightarrow> m \<le> n \<Longrightarrow> tasks_ok n ts"
  unfolding tasks_ok_def using task_ok_at_mono by blast

lemma tasks_ok_set: "tasks_ok m ts \<Longrightarrow> m \<le> n \<Longrightarrow> task_ok_at n k t \<Longrightarrow> tasks_ok n (ts[k := t])"
  using task_ok_at_mono [of m _ _ n] unfolding tasks_ok_def
  by (cases "k < length ts") (auto simp: nth_list_update list_update_beyond)

lemma client_step_chans:
  "client_step e c = Some (Inr c') \<Longrightarrow> length (reply_chans c) \<le> length (reply_chans c')"
  by (cases e) (auto simp: forward_req_def insert_req_def Let_def split: list.splits prod.splits option.splits
      reply_chan.splits if_splits elim!: client_msg.elims)

lemma rt_inv_set:
  assumes "rt_inv s" and "length (reply_chans (client s)) \<le> length (reply_chans c)"
    and "task_ok_at (length (reply_chans c)) k t"
  shows "rt_inv (set_task k t s\<lparr>client := c\<rparr>)"
  using assms(1) tasks_ok_set [OF _ assms(2,3)] by (simp add: rt_inv_def)

lemma rt_inv_step:
  assumes "rt_inv s" and "rt_step n s s'"
  shows "rt_inv s'"
  using assms(2)
proof cases
  case rt_connect
  then show ?thesis by (simp add: rt_inv_def tasks_ok_def)
next
  case (rt_receive m ms c)
  with assms(1) tasks_ok_mono [OF _ client_step_chans [OF rt_receive(6)]] show ?thesis by (simp add: rt_inv_def)
next
  case (rt_run k)
  with rt_inv_set [OF assms(1), of "client s" k Receiving] show ?thesis by (simp add: set_task_def)
next
  case (rt_sent k)
  with rt_inv_set [OF assms(1), of "client s" k Runnable] show ?thesis by (simp add: set_task_def)
next
  case (rt_forward c)
  with rt_inv_set [OF assms(1) client_step_chans [OF rt_forward(5)], of 0 Sending] show ?thesis by simp
next
  case (rt_init k q c)
  with assms(1) tasks_ok_mono [OF _ client_step_chans [OF rt_init(6)]] show ?thesis by (simp add: rt_inv_def)
next
  case (rt_job k d q c r)
  with rt_inv_set [OF assms(1) client_step_chans [OF rt_job(6)], of k "Decoding r"] show ?thesis by simp
next
  case (rt_ask k r addr len c)
  with rt_inv_set [OF assms(1) client_step_chans [OF rt_ask(5)], of k "Asking (length (reply_chans (client s))) r"]
  show ?thesis by auto
next
  case (rt_answered k j r c)
  with rt_inv_set [OF assms(1) client_step_chans [OF rt_answered(7)], of k "Decoding r"] show ?thesis by simp
next
  case (rt_decoded k)
  with rt_inv_set [OF assms(1), of "client s" k Sending] show ?thesis by (simp add: set_task_def)
qed

lemma rt_reach_inv: "rt_reach n s \<Longrightarrow> rt_inv s"
proof (induction rule: rt_reach.induct)
  case rt_init_state
  then show ?case by (simp add: rt_inv_def tasks_ok_def client_rt_start_def)
next
  case (rt_arrive s m)
  then show ?case unfolding rt_inv_def by simp
qed (rule rt_inv_step)


section \<open>The tasks come to rest\<close>

text \<open>What is left to do: messages to receive, jobs to take, and steps of the tasks.\<close>

fun weight :: "task_at \<Rightarrow> nat" where
  "weight Receiving = 0"
| "weight Runnable = 1"
| "weight Sending = 2"
| "weight (Decoding r) = 3 + 5 * r"
| "weight (Asking j r) = 4 + 5 * r"

definition load :: "client_rt \<Rightarrow> nat" where
  "load s = sum_list (map weight (tasks_at s)) + 3 * length (mem_req_queue (client s))"

definition rt_order :: "(client_rt \<times> client_rt) set" where
  "rt_order = measures [\<lambda>s. if conn_at s = Connecting then 1 else 0, \<lambda>s. length (inbox s),
     \<lambda>s. length (proc_queue (client s)), load]"

lemma load_set:
  assumes "k < length (tasks_at s)"
  shows "load (set_task k t s\<lparr>client := c\<rparr>) + weight (tasks_at s ! k) + 3 * length (mem_req_queue (client s))
     = load s + weight t + 3 * length (mem_req_queue c)"
proof -
  have "weight (tasks_at s ! k) \<le> sum_list (map weight (tasks_at s))"
    using assms by (intro member_le_sum_list) auto
  then show ?thesis using assms by (simp add: load_def map_update sum_list_update)
qed

lemma client_step_queues:
  "client_step Forward c = Some (Inr c') \<Longrightarrow> mem_req_queue c' = tl (mem_req_queue c) \<and> proc_queue c' = proc_queue c"
  "client_step (Ask addr len) c = Some (Inr c') \<Longrightarrow> length (mem_req_queue c') = Suc (length (mem_req_queue c)) \<and> proc_queue c' = proc_queue c"
  "client_step (TakeAnswer j) c = Some (Inr c') \<Longrightarrow> mem_req_queue c' = mem_req_queue c \<and> proc_queue c' = proc_queue c"
  "client_step TakeJob c = Some (Inr c') \<Longrightarrow> mem_req_queue c' = mem_req_queue c \<and> proc_queue c' = tl (proc_queue c)"
  by (auto simp: forward_req_def insert_req_def Let_def split: list.splits prod.splits option.splits reply_chan.splits if_splits)

lemma rt_order_load:
  assumes "conn_at s' = conn_at s" and "inbox s' = inbox s" and "proc_queue (client s') = proc_queue (client s)"
    and "load s' < load s"
  shows "(s', s) \<in> rt_order"
  using assms by (simp add: rt_order_def)

lemma rt_step_order:
  assumes "rt_step n s s'"
  shows "(s', s) \<in> rt_order"
  using assms
proof cases
  case rt_connect
  then show ?thesis by (simp add: rt_order_def)
next
  case (rt_receive m ms c)
  then show ?thesis by (simp add: rt_order_def)
next
  case (rt_run k)
  with load_set [where k = k and s = s and t = Receiving and c = "client s"] show ?thesis by (intro rt_order_load) (simp_all add: set_task_def)
next
  case (rt_sent k)
  with load_set [where k = k and s = s and t = Runnable and c = "client s"] show ?thesis by (intro rt_order_load) (simp_all add: set_task_def)
next
  case (rt_forward c)
  note q = client_step_queues(1) [OF rt_forward(5)]
  have "length (mem_req_queue (client s)) = Suc (length (mem_req_queue c))"
    using conjunct1 [OF q] rt_forward(4) by simp
  with load_set [OF rt_forward(2), where t = Sending and c = c] rt_forward(3)
  have "load (set_task 0 Sending s\<lparr>client := c\<rparr>) < load s" by simp
  then show ?thesis unfolding rt_forward(1) by (intro rt_order_load) (simp_all add: conjunct2 [OF q])
next
  case (rt_init k q c)
  with client_step_queues(4) [OF rt_init(6)] show ?thesis by (simp add: rt_order_def)
next
  case (rt_job k d q c r)
  with client_step_queues(4) [OF rt_job(6)] show ?thesis by (simp add: rt_order_def)
next
  case (rt_ask k r addr len c)
  note q = client_step_queues(2) [OF rt_ask(5)]
  from load_set [OF rt_ask(3), where t = "Asking (length (reply_chans (client s))) r" and c = c] rt_ask(4) q
  have "load (set_task k (Asking (length (reply_chans (client s))) r) s\<lparr>client := c\<rparr>) < load s" by simp
  then show ?thesis unfolding rt_ask(1) by (intro rt_order_load) (simp_all add: conjunct2 [OF q])
next
  case (rt_answered k j r c)
  note q = client_step_queues(3) [OF rt_answered(7)]
  from load_set [OF rt_answered(3), where t = "Decoding r" and c = c] rt_answered(4) q
  have "load (set_task k (Decoding r) s\<lparr>client := c\<rparr>) < load s" by simp
  then show ?thesis unfolding rt_answered(1) by (intro rt_order_load) (simp_all add: conjunct2 [OF q])
next
  case (rt_decoded k)
  with load_set [where k = k and s = s and t = Sending and c = "client s"] show ?thesis by (intro rt_order_load) (simp_all add: set_task_def)
qed

lemma rt_terminates: "wf {(s', s). rt_step n s s'}"
  by (rule wf_subset [of rt_order]) (auto simp: rt_order_def dest: rt_step_order [unfolded rt_order_def])

lemma rt_rests: "\<exists>s'. (rt_step n)\<^sup>*\<^sup>* s s' \<and> (\<nexists>s''. rt_step n s' s'')"
  by (rule wf_rests [OF rt_terminates])

lemma rt_reach_steps: "(rt_step n)\<^sup>*\<^sup>* s s' \<Longrightarrow> rt_reach n s \<Longrightarrow> rt_reach n s'"
  by (induction rule: rtranclp_induct) (auto intro: rt_next)

section \<open>Enough threads\<close>

text \<open>
  All is done that can be: every message that can be received has been, no request and no job
  waits, and each worker is idle or waits for an answer the server owes.
\<close>

definition settled :: "client_rt \<Rightarrow> bool" where
  "settled s \<longleftrightarrow> conn_at s = Listening \<and> mem_req_queue (client s) = [] \<and> tasks_at s ! 0 = Receiving
     \<and> (inbox s = [] \<or> \<not> loop_alive (client s) \<or> (\<forall>c. client_step (Arrive (hd (inbox s))) (client s) \<noteq> Some (Inr c)))
     \<and> (\<forall>k \<in> {1, 2}. tasks_at s ! k = Receiving \<and> proc_queue (client s) = []
          \<or> (\<exists>j r. tasks_at s ! k = Asking j r \<and> snd (reply_chans (client s) ! j) = Waits))"

lemma in_use_le: "rt_inv s \<Longrightarrow> in_use s \<le> 3"
  using length_filter_le [of on_thread "tasks_at s"] by (auto simp: rt_inv_def in_use_def split: conn_at.splits)

lemma rest_settled:
  assumes n: "in_use s < n" and inv: "rt_inv s" and rest: "\<nexists>s'. rt_step n s s'"
  shows "settled s"
proof -
  have conn: "conn_at s = Listening" using rt_connect [of s n] n rest by (cases "conn_at s") auto
  then have len: "length (tasks_at s) = 3" and ok: "tasks_ok (length (reply_chans (client s))) (tasks_at s)"
    using inv by (auto simp: rt_inv_def)
  have awake: "tasks_at s ! k \<noteq> Runnable \<and> tasks_at s ! k \<noteq> Sending" if "k < 3" for k
    using rt_run [of k s n] rt_sent [of k s n] n rest that len by auto
  have zero: "tasks_at s ! 0 = Receiving"
  proof -
    have "task_ok_at (length (reply_chans (client s))) 0 (tasks_at s ! 0)" using ok len by (simp add: tasks_ok_def)
    then show ?thesis using awake [of 0] by (cases "tasks_at s ! 0") auto
  qed
  have mem: "mem_req_queue (client s) = []"
    using rt_forward [of s _ n] zero len rest by auto
  have inbox: "inbox s = [] \<or> \<not> loop_alive (client s) \<or> (\<forall>c. client_step (Arrive (hd (inbox s))) (client s) \<noteq> Some (Inr c))"
    using rt_receive [OF conn n] rest by (cases "inbox s") auto
  have "tasks_at s ! k = Receiving \<and> proc_queue (client s) = []
      \<or> (\<exists>j r. tasks_at s ! k = Asking j r \<and> snd (reply_chans (client s) ! j) = Waits)" if k: "0 < k" "k < 3" for k
  proof (cases "tasks_at s ! k")
    case Receiving
    have "proc_queue (client s) = []"
    proof (cases "proc_queue (client s)")
      case (Cons c q)
      with Receiving k len rest rt_init [of k s q _ n] rt_job [of k s _ q _ n] show ?thesis
        by (cases c) auto
    qed simp
    with Receiving show ?thesis by simp
  next
    case (Decoding r)
    with k len rest rt_ask [of k s _ 0 0 _ n] rt_decoded [of k s n] show ?thesis by (cases r) auto
  next
    case (Asking j r)
    have "j < length (reply_chans (client s))"
      using ok k len Asking unfolding tasks_ok_def by fastforce
    with Asking k len rest rt_answered [of k s j r _ n] show ?thesis by auto
  qed (use awake k in auto)
  then show ?thesis using conn zero mem inbox by (simp add: settled_def)
qed

section \<open>Too few threads\<close>

text \<open>The tasks of a client that has connected and received nothing.\<close>

definition untouched :: "client_rt \<Rightarrow> bool" where
  "untouched s \<longleftrightarrow> client s = ServerAgent_connect \<and> inbox s = [] \<and> set (tasks_at s) \<subseteq> {Runnable, Receiving}"

lemma untouched_step:
  assumes "untouched s" and "rt_step n s s'"
  shows "untouched s'"
proof -
  have q: "mem_req_queue (client s) = []" "proc_queue (client s) = []" "inbox s = []"
    using assms(1) by (simp_all add: untouched_def ServerAgent_connect_def)
  have ts: "tasks_at s ! k = Runnable \<or> tasks_at s ! k = Receiving" if "k < length (tasks_at s)" for k
    using assms(1) nth_mem [OF that] by (auto simp: untouched_def)
  from assms(2) show ?thesis
  proof cases
    case rt_connect
    then show ?thesis using assms(1) by (simp add: untouched_def)
  next
    case (rt_run k)
    then show ?thesis using assms(1) set_update_subset_insert [of "tasks_at s" k Receiving] by (auto simp: untouched_def)
  qed (use q ts in force)+
qed

lemma untouched_starved:
  assumes un: "untouched s" and inv: "rt_inv s" and n: "0 < n" "n \<le> 3" and rest: "\<nexists>s'. rt_step n s s'"
  shows "conn_at s = Listening \<and> (\<nexists>s'. rt_step n (s\<lparr>inbox := ms\<rparr>) s')"
proof -
  have ts: "tasks_at s ! k = Runnable \<or> tasks_at s ! k = Receiving" if "k < length (tasks_at s)" for k
    using un nth_mem [OF that] by (auto simp: untouched_def)
  have q: "mem_req_queue (client s) = []" "proc_queue (client s) = []"
    using un by (simp_all add: untouched_def ServerAgent_connect_def)
  have conn: "conn_at s = Listening"
    using rt_connect [of s n] n(1) rest inv by (cases "conn_at s") (auto simp: rt_inv_def in_use_def)
  then have len: "length (tasks_at s) = 3" using inv by (simp add: rt_inv_def)
  have full: "n \<le> in_use s"
  proof (rule ccontr)
    assume "\<not> n \<le> in_use s"
    then have less: "in_use s < n" by simp
    then have "\<exists>t \<in> set (tasks_at s). \<not> on_thread t"
      using n(2) len filter_True [of "tasks_at s" on_thread] by (fastforce simp: in_use_def)
    then obtain k where "k < length (tasks_at s)" "\<not> on_thread (tasks_at s ! k)" by (auto simp: in_set_conv_nth)
    with ts [of k] rt_run [of k s n] less rest show False by auto
  qed
  have "\<not> rt_step n (s\<lparr>inbox := ms\<rparr>) s'" for s'
  proof
    assume "rt_step n (s\<lparr>inbox := ms\<rparr>) s'"
    moreover have "in_use (s\<lparr>inbox := ms\<rparr>) = in_use s" by (simp add: in_use_def)
    ultimately show False
    proof cases
      case (rt_ask k r addr len c)
      then show False using ts [of k] by simp
    next
      case (rt_answered k j r c)
      then show False using ts [of k] by simp
    next
      case (rt_decoded k)
      then show False using ts [of k] by simp
    qed (use conn q full in \<open>simp_all add: in_use_def\<close>)
  qed
  with conn show ?thesis by blast
qed

section \<open>Properties\<close>


text \<open>
  C36: with three threads or fewer it does. The forwarding task and the workers
  wait in blocking \<open>recv\<close> calls and keep all threads: once they have been run, which they are if
  the server is not quicker, no message is ever received, whatever the server sends; the client
  is connected and registered, but decodes nothing.
\<close>

theorem client_starves:
  assumes "0 < n" and "n \<le> 3" and "(rt_step n)\<^sup>*\<^sup>* client_rt_start s" and "\<nexists>s'. rt_step n s s'"
  shows "conn_at s = Listening \<and> sent_msgs (client s) = [RegReq 0]
     \<and> (\<forall>ms. \<nexists>s'. rt_step n (s\<lparr>inbox := ms\<rparr>) s')"
proof -
  have "untouched client_rt_start" by (simp add: untouched_def client_rt_start_def)
  with assms(3) have un: "untouched s"
    by (induction rule: rtranclp_induct) (auto intro: untouched_step)
  have "rt_inv s" using rt_reach_inv [OF rt_reach_steps [OF assms(3) rt_init_state]] .
  from untouched_starved [OF un this assms(1,2,4)] un show ?thesis
    by (simp add: untouched_def ServerAgent_connect_def)
qed

theorem client_starves_witness:
  "\<exists>s. (rt_step 2)\<^sup>*\<^sup>* client_rt_start s \<and> conn_at s = Listening \<and> (\<nexists>s'. rt_step 2 (s\<lparr>inbox := [DataReq [1, 2]]\<rparr>) s')"
proof -
  obtain s where s: "(rt_step 2)\<^sup>*\<^sup>* client_rt_start s" "\<nexists>s'. rt_step 2 s s'" using rt_rests by blast
  have "(0 :: nat) < 2" "(2 :: nat) \<le> 3" by simp_all
  from client_starves [OF this s] s(1) show ?thesis by blast
qed


end
