(* ===== verification/ClientStop.thy ===== *)
theory ClientStop
  imports ClientTasks
begin

text \<open>
  The end of the decoding client (\<open>src/src/server_consumer/client_proc.rs\<close>): the receiving loop of
  \<open>ServerAgent::connect\<close> has ended, because the connection broke or an answer had no taker, and its
  task has dropped what it owned: the sender of the jobs, its sender of memory requests and its
  share of the map of reply channels. The forwarding task and the two workers go on until their
  own channels tell them to stop. They have the threads they need.
\<close>

section \<open>Channels without a sender\<close>

text \<open>
  The senders of the reply channels are kept in the map and in the queue of requests; the
  forwarding task, now the only owner of both, drops them when it ends, and a receiver whose
  channel is empty is told so. (The crossbeam version used discards the messages left in a
  channel together with its receiver.)
\<close>

definition forwarded :: "server_agent \<Rightarrow> nat set" where
  "forwarded a = snd ` set (mem_req_lst a)"

definition listed :: "server_agent \<Rightarrow> nat set" where
  "listed a = forwarded a \<union> (\<lambda>(addr, len, k). k) ` set (mem_req_queue a)"

definition hang_up :: "server_agent \<Rightarrow> server_agent" where
  "hang_up a = a\<lparr>mem_req_queue := [], mem_req_lst := [],
     reply_chans := map (\<lambda>(k, addr, c). (addr, if c = Waits \<and> k \<in> listed a then SenderGone else c))
       (List.enumerate 0 (reply_chans a))\<rparr>"

text \<open>Every receiver that waits has its sender in one of the two.\<close>

definition waits_ok :: "server_agent \<Rightarrow> bool" where
  "waits_ok a \<longleftrightarrow> hm_wf (mem_req_lst a) \<and> (\<forall>k \<in> forwarded a. k < length (reply_chans a))
     \<and> (\<forall>(addr, len, k) \<in> set (mem_req_queue a). k < length (reply_chans a))
     \<and> (\<forall>k < length (reply_chans a). snd (reply_chans a ! k) = Waits \<longrightarrow> k \<in> listed a)"

lemma listed_simps [simp]:
  "forwarded (a\<lparr>proc_queue := q\<rparr>) = forwarded a" "listed (a\<lparr>proc_queue := q\<rparr>) = listed a"
  "forwarded (a\<lparr>loop_alive := l\<rparr>) = forwarded a" "listed (a\<lparr>loop_alive := l\<rparr>) = listed a"
  "forwarded (set_chan k r a) = forwarded a" "listed (set_chan k r a) = listed a"
  by (simp_all add: forwarded_def listed_def)

lemma waits_ok_plain [simp]:
  "waits_ok (a\<lparr>proc_queue := q\<rparr>) = waits_ok a" "waits_ok (a\<lparr>loop_alive := l\<rparr>) = waits_ok a"
  by (simp_all add: waits_ok_def)

lemma waits_ok_set_chan:
  assumes "waits_ok a" and "r \<noteq> Waits"
  shows "waits_ok (set_chan k r a)"
proof (cases "k < length (reply_chans a)")
  case True
  with assms set_chan_snd [OF True] show ?thesis by (auto simp: waits_ok_def)
next
  case False
  then have "set_chan k r a = a" by (simp add: set_chan_def list_update_beyond)
  with assms show ?thesis by simp
qed

lemma waits_ok_ask:
  assumes "waits_ok a"
  shows "waits_ok (a\<lparr>mem_req_queue := mem_req_queue a @ [(addr, len, length (reply_chans a))],
     reply_chans := reply_chans a @ [(addr, Waits)]\<rparr>)"
    (is "waits_ok ?a")
proof -
  have "listed ?a = insert (length (reply_chans a)) (listed a)" "forwarded ?a = forwarded a"
    by (auto simp: listed_def forwarded_def)
  with assms show ?thesis unfolding waits_ok_def by (auto simp: nth_append less_Suc_eq)
qed

lemma waits_ok_forward:
  assumes ok: "waits_ok a"
  shows "waits_ok (forward_req a)"
proof (cases "mem_req_queue a")
  case Nil
  with ok show ?thesis by (simp add: forward_req_def)
next
  case (Cons x q)
  obtain addr len k where x: "x = (addr, len, k)" by (cases x)
  define a' where "a' = (case hm_get (mem_req_lst a) addr of
      Some j \<Rightarrow> if snd (reply_chans a ! j) = Waits then set_chan j SenderGone a else a | None \<Rightarrow> a)"
  then have eq: "insert_req addr k a = a'\<lparr>mem_req_lst := hm_insert (mem_req_lst a) addr k\<rparr>"
    and a': "a' = a \<or> (\<exists>j. hm_get (mem_req_lst a) addr = Some j \<and> a' = set_chan j SenderGone a)"
    and gone: "\<And>j. hm_get (mem_req_lst a) addr = Some j \<Longrightarrow> snd (reply_chans a ! j) = Waits \<Longrightarrow> a' = set_chan j SenderGone a"
    by (auto simp: insert_req_def Let_def split: option.splits)
  have wf: "hm_wf (mem_req_lst a)" and less: "\<forall>k \<in> forwarded a. k < length (reply_chans a)"
    and waits: "\<And>j. j < length (reply_chans a) \<Longrightarrow> snd (reply_chans a ! j) = Waits \<Longrightarrow> j \<in> listed a"
    and queue: "\<forall>(addr, len, k) \<in> set (mem_req_queue a). k < length (reply_chans a)"
    using ok by (auto simp: waits_ok_def)
  have len: "length (reply_chans a') = length (reply_chans a)" using a' by auto
  have set: "set (hm_insert (mem_req_lst a) addr k) = insert (addr, k) {y \<in> set (mem_req_lst a). fst y \<noteq> addr}"
    by (rule hm_insert_set [OF wf])
  have keep: "j \<in> insert k (snd ` {y \<in> set (mem_req_lst a). fst y \<noteq> addr}) \<union> (\<lambda>(addr, len, k). k) ` set q"
    if j: "j < length (reply_chans a)" "snd (reply_chans a' ! j) = Waits" for j
  proof -
    have old: "snd (reply_chans a ! j) = Waits"
      using j a' less set_chan_snd [of _ a SenderGone j] hm_wf_map_of [OF wf]
      by (auto simp: forwarded_def split: if_splits) (metis snd_conv image_eqI reply_chan.distinct(5))
    have "(addr, j) \<notin> set (mem_req_lst a)"
    proof
      assume "(addr, j) \<in> set (mem_req_lst a)"
      then have "hm_get (mem_req_lst a) addr = Some j" using hm_wf_map_of [OF wf] by blast
      from gone [OF this old] j set_chan_snd [OF j(1), of SenderGone j] show False by simp
    qed
    with waits [OF j(1) old] show ?thesis by (auto simp: listed_def forwarded_def Cons x)
  qed
  have "forward_req a = a'\<lparr>mem_req_lst := hm_insert (mem_req_lst a) addr k, mem_req_queue := q,
      sent_msgs := sent_msgs a @ [MemReq addr len]\<rparr>"
    by (simp add: forward_req_def Cons x eq)
  then show ?thesis
    using wf less queue keep len by (auto simp: waits_ok_def forwarded_def listed_def set Cons x)
qed

lemma waits_ok_step:
  assumes "waits_ok a" and "client_step e a = Some (Inr a')"
  shows "waits_ok a'"
proof (cases e)
  case (Ask addr len)
  with assms waits_ok_ask show ?thesis by auto
next
  case Forward
  with assms waits_ok_forward show ?thesis by auto
next
  case (Arrive m)
  with assms show ?thesis
    by (cases m) (auto simp: waits_ok_set_chan split: if_splits option.splits reply_chan.splits)
next
  case (TakeAnswer k)
  with assms show ?thesis by (auto simp: waits_ok_set_chan split: reply_chan.splits if_splits)
next
  case TakeJob
  with assms show ?thesis by auto
qed

lemma hang_up_chans [simp]: "length (reply_chans (hang_up a)) = length (reply_chans a)"
  "proc_queue (hang_up a) = proc_queue a" "mem_req_queue (hang_up a) = []" "mem_req_lst (hang_up a) = []"
  by (simp_all add: hang_up_def)

lemma hang_up_nth: "k < length (reply_chans a) \<Longrightarrow> snd (reply_chans (hang_up a) ! k)
    = (if snd (reply_chans a ! k) = Waits \<and> k \<in> listed a then SenderGone else snd (reply_chans a ! k))"
  by (simp add: hang_up_def nth_enumerate_eq split: prod.split)

lemma hang_up_releases: "waits_ok a \<Longrightarrow> k < length (reply_chans a) \<Longrightarrow> snd (reply_chans (hang_up a) ! k) \<noteq> Waits"
  by (simp add: hang_up_nth waits_ok_def)

lemma waits_ok_hang_up: "waits_ok a \<Longrightarrow> waits_ok (hang_up a)"
  using hang_up_releases [of a] by (simp add: waits_ok_def [of "hang_up a"] forwarded_def)

lemma rt_reach_waits_ok: "rt_reach n s \<Longrightarrow> waits_ok (client s)"
proof (induction rule: rt_reach.induct)
  case rt_init_state
  then show ?case by (simp add: client_rt_start_def ServerAgent_connect_def waits_ok_def forwarded_def)
next
  case (rt_next s s')
  from rt_next(2) show ?case by cases (use rt_next(3) waits_ok_step [OF rt_next(3)] in \<open>simp_all del: client_step.simps\<close>)
qed simp

section \<open>The tasks that are left\<close>

text \<open>
  A task is at one of its places, has ended, or has panicked. \<open>half\<close>: the connection still takes
  messages although none arrives any more; otherwise every send that begins fails. A send that
  was under way may end either way. The workers ignore the result of theirs. A worker that asks
  for memory when the forwarding task has ended unwraps an error.
\<close>

datatype task_left = Live task_at | Ended | Panicked

record stopping =
  tasks_left :: "task_left list"
  left :: server_agent

definition stop_start :: "client_rt \<Rightarrow> stopping" where
  "stop_start s = \<lparr>tasks_left = map Live (tasks_at s), left = (client s)\<lparr>loop_alive := False\<rparr>\<rparr>"

definition put :: "nat \<Rightarrow> task_left \<Rightarrow> stopping \<Rightarrow> stopping" where
  "put k t s = s\<lparr>tasks_left := (tasks_left s)[k := t]\<rparr>"

fun over :: "task_left \<Rightarrow> bool" where
  "over (Live t) = False"
| "over _ = True"

inductive stop_step :: "bool \<Rightarrow> stopping \<Rightarrow> stopping \<Rightarrow> bool" for half where
  s_run: "k < length (tasks_left s) \<Longrightarrow> tasks_left s ! k = Live Runnable
    \<Longrightarrow> stop_step half s (put k (Live Receiving) s)"
| s_sent: "k < length (tasks_left s) \<Longrightarrow> tasks_left s ! k = Live Sending
    \<Longrightarrow> stop_step half s (put k (Live Runnable) s)"
| s_send_failed: "0 < length (tasks_left s) \<Longrightarrow> tasks_left s ! 0 = Live Sending
    \<Longrightarrow> stop_step half s (put 0 Ended s\<lparr>left := hang_up (left s)\<rparr>)"
| s_forward: "half \<Longrightarrow> 0 < length (tasks_left s) \<Longrightarrow> tasks_left s ! 0 = Live Receiving \<Longrightarrow> mem_req_queue (left s) \<noteq> []
    \<Longrightarrow> stop_step half s (put 0 (Live Sending) s\<lparr>left := forward_req (left s)\<rparr>)"
| s_forward_failed: "0 < length (tasks_left s) \<Longrightarrow> tasks_left s ! 0 = Live Receiving \<Longrightarrow> mem_req_queue (left s) \<noteq> []
    \<Longrightarrow> stop_step half s (put 0 Ended s\<lparr>left := hang_up (forward_req (left s)\<lparr>sent_msgs := sent_msgs (left s)\<rparr>)\<rparr>)"
| s_closed: "0 < length (tasks_left s) \<Longrightarrow> tasks_left s ! 0 = Live Receiving \<Longrightarrow> mem_req_queue (left s) = []
    \<Longrightarrow> \<forall>t \<in> set (tl (tasks_left s)). over t \<Longrightarrow> stop_step half s (put 0 Ended s\<lparr>left := hang_up (left s)\<rparr>)"
| s_init: "0 < k \<Longrightarrow> k < length (tasks_left s) \<Longrightarrow> tasks_left s ! k = Live Receiving \<Longrightarrow> proc_queue (left s) = ProcInit # q
    \<Longrightarrow> client_step TakeJob (left s) = Some (Inr c) \<Longrightarrow> stop_step half s (s\<lparr>left := c\<rparr>)"
| s_job: "0 < k \<Longrightarrow> k < length (tasks_left s) \<Longrightarrow> tasks_left s ! k = Live Receiving \<Longrightarrow> proc_queue (left s) = Proc d # q
    \<Longrightarrow> client_step TakeJob (left s) = Some (Inr c) \<Longrightarrow> stop_step half s (put k (Live (Decoding r)) s\<lparr>left := c\<rparr>)"
| s_no_job: "0 < k \<Longrightarrow> k < length (tasks_left s) \<Longrightarrow> tasks_left s ! k = Live Receiving \<Longrightarrow> proc_queue (left s) = []
    \<Longrightarrow> stop_step half s (put k Ended s)"
| s_ask: "0 < k \<Longrightarrow> k < length (tasks_left s) \<Longrightarrow> tasks_left s ! k = Live (Decoding (Suc r)) \<Longrightarrow> tasks_left s ! 0 \<noteq> Ended
    \<Longrightarrow> client_step (Ask addr len) (left s) = Some (Inr c)
    \<Longrightarrow> stop_step half s (put k (Live (Asking (length (reply_chans (left s))) r)) s\<lparr>left := c\<rparr>)"
| s_ask_panics: "0 < k \<Longrightarrow> k < length (tasks_left s) \<Longrightarrow> tasks_left s ! k = Live (Decoding (Suc r)) \<Longrightarrow> tasks_left s ! 0 = Ended
    \<Longrightarrow> stop_step half s (put k Panicked s)"
| s_answered: "0 < k \<Longrightarrow> k < length (tasks_left s) \<Longrightarrow> tasks_left s ! k = Live (Asking j r) \<Longrightarrow> j < length (reply_chans (left s))
    \<Longrightarrow> snd (reply_chans (left s) ! j) \<noteq> Waits \<Longrightarrow> client_step (TakeAnswer j) (left s) = Some (Inr c)
    \<Longrightarrow> stop_step half s (put k (Live (Decoding r)) s\<lparr>left := c\<rparr>)"
| s_decoded: "0 < k \<Longrightarrow> k < length (tasks_left s) \<Longrightarrow> tasks_left s ! k = Live (Decoding 0)
    \<Longrightarrow> stop_step half s (put k (Live Sending) s)"

lemma put_simps [simp]: "left (put k t s) = left s" "tasks_left (put k t s) = (tasks_left s)[k := t]"
  by (simp_all add: put_def)

section \<open>They come to rest\<close>

fun weight_left :: "task_left \<Rightarrow> nat" where
  "weight_left (Live t) = Suc (weight t)"
| "weight_left _ = 0"

definition load_left :: "stopping \<Rightarrow> nat" where
  "load_left s = sum_list (map weight_left (tasks_left s)) + 3 * length (mem_req_queue (left s))"

lemma load_left_put:
  assumes "k < length (tasks_left s)"
  shows "load_left (put k t s\<lparr>left := c\<rparr>) + weight_left (tasks_left s ! k) + 3 * length (mem_req_queue (left s))
     = load_left s + weight_left t + 3 * length (mem_req_queue c)"
proof -
  have "weight_left (tasks_left s ! k) \<le> sum_list (map weight_left (tasks_left s))"
    using assms by (intro member_le_sum_list) auto
  then show ?thesis using assms by (simp add: load_left_def map_update sum_list_update)
qed

lemma load_left_put':
  "k < length (tasks_left s) \<Longrightarrow> load_left (put k t s) + weight_left (tasks_left s ! k) = load_left s + weight_left t"
  using load_left_put [where k = k and s = s and t = t and c = "left s"] by (simp add: put_def)

lemma forward_req_queues [simp]:
  "mem_req_queue (forward_req a) = tl (mem_req_queue a)" "proc_queue (forward_req a) = proc_queue a"
  using client_step_queues(1) [of a "forward_req a"] by simp_all

definition stop_order :: "(stopping \<times> stopping) set" where
  "stop_order = measures [\<lambda>s. length (proc_queue (left s)), load_left]"

lemma stop_order_load:
  "proc_queue (left s') = proc_queue (left s) \<Longrightarrow> load_left s' < load_left s \<Longrightarrow> (s', s) \<in> stop_order"
  by (simp add: stop_order_def)

lemma stop_step_order:
  assumes "stop_step half s s'"
  shows "(s', s) \<in> stop_order"
  using assms
proof cases
  case (s_run k)
  with load_left_put' [of k s "Live Receiving"] show ?thesis by (intro stop_order_load) simp_all
next
  case (s_sent k)
  with load_left_put' [of k s "Live Runnable"] show ?thesis by (intro stop_order_load) simp_all
next
  case s_send_failed
  with load_left_put [where k = 0 and s = s and t = Ended and c = "hang_up (left s)"] show ?thesis by (intro stop_order_load) simp_all
next
  case s_forward
  then obtain x q where "mem_req_queue (left s) = x # q" by (cases "mem_req_queue (left s)") auto
  with s_forward load_left_put [where k = 0 and s = s and t = "Live Sending" and c = "forward_req (left s)"] show ?thesis by (intro stop_order_load) simp_all
next
  case s_forward_failed
  with load_left_put [where k = 0 and s = s and t = Ended and c = "hang_up (forward_req (left s)\<lparr>sent_msgs := sent_msgs (left s)\<rparr>)"]
  show ?thesis by (intro stop_order_load) simp_all
next
  case s_closed
  with load_left_put [where k = 0 and s = s and t = Ended and c = "hang_up (left s)"] show ?thesis by (intro stop_order_load) simp_all
next
  case (s_init k q c)
  then show ?thesis by (auto simp: stop_order_def)
next
  case (s_job k d q c r)
  then show ?thesis by (auto simp: stop_order_def)
next
  case (s_no_job k)
  with load_left_put' [of k s Ended] show ?thesis by (intro stop_order_load) simp_all
next
  case (s_ask k r addr len c)
  with load_left_put [where k = k and s = s and t = "Live (Asking (length (reply_chans (left s))) r)" and c = c] show ?thesis by (intro stop_order_load) auto
next
  case (s_ask_panics k r)
  with load_left_put' [of k s Panicked] show ?thesis by (intro stop_order_load) simp_all
next
  case (s_answered k j r c)
  note q = client_step_queues(3) [OF s_answered(7)]
  from load_left_put [where k = k and s = s and t = "Live (Decoding r)" and c = c] s_answered q show ?thesis by (intro stop_order_load) simp_all
next
  case (s_decoded k)
  with load_left_put' [of k s "Live Sending"] show ?thesis by (intro stop_order_load) simp_all
qed

lemma stop_terminates: "wf {(s', s). stop_step half s s'}"
  by (rule wf_subset [of stop_order]) (auto simp: stop_order_def dest: stop_step_order [unfolded stop_order_def])

lemma stop_rests: "\<exists>s'. (stop_step half)\<^sup>*\<^sup>* s s' \<and> (\<nexists>s''. stop_step half s' s'')"
  by (rule wf_rests [OF stop_terminates])

section \<open>Where they rest\<close>

fun task_left_ok :: "nat \<Rightarrow> nat \<Rightarrow> task_left \<Rightarrow> bool" where
  "task_left_ok chans k (Live t) = task_ok_at chans k t"
| "task_left_ok chans k Ended = True"
| "task_left_ok chans k Panicked = (0 < k)"

definition stop_inv :: "stopping \<Rightarrow> bool" where
  "stop_inv s \<longleftrightarrow> length (tasks_left s) = 3
     \<and> (\<forall>k < 3. task_left_ok (length (reply_chans (left s))) k (tasks_left s ! k)) \<and> waits_ok (left s)
     \<and> (tasks_left s ! 0 = Ended \<longrightarrow> (\<forall>k < length (reply_chans (left s)). snd (reply_chans (left s) ! k) \<noteq> Waits))"

lemma task_left_ok_mono: "task_left_ok m k t \<Longrightarrow> m \<le> n \<Longrightarrow> task_left_ok n k t"
  by (cases t) (auto intro: task_ok_at_mono)

lemma nth_put: "m < length ts \<Longrightarrow> ts[i := u] ! m = (if m = i then u else ts ! m)"
  by (simp add: nth_list_update)

lemma stop_inv_put:
  assumes inv: "stop_inv s" and len: "length (reply_chans (left s)) \<le> length (reply_chans c)" and ok: "waits_ok c"
    and t: "task_left_ok (length (reply_chans c)) k t"
    and gone: "(if k = 0 then t else tasks_left s ! 0) = Ended \<Longrightarrow> \<forall>j < length (reply_chans c). snd (reply_chans c ! j) \<noteq> Waits"
  shows "stop_inv (put k t s\<lparr>left := c\<rparr>)"
proof -
  have three: "length (tasks_left s) = 3" using inv by (simp add: stop_inv_def)
  have "task_left_ok (length (reply_chans c)) i (if i = k then t else tasks_left s ! i)" if "i < 3" for i
    using that inv t task_left_ok_mono [OF _ len] by (simp add: stop_inv_def)
  then show ?thesis using three ok gone by (auto simp: stop_inv_def nth_put)
qed

lemma stop_inv_put':
  assumes "stop_inv s" and "task_left_ok (length (reply_chans (left s))) k t" and "t \<noteq> Ended \<or> 0 < k"
  shows "stop_inv (put k t s)"
proof -
  have "waits_ok (left s)" and "tasks_left s ! 0 = Ended \<longrightarrow> (\<forall>k < length (reply_chans (left s)). snd (reply_chans (left s) ! k) \<noteq> Waits)"
    using assms(1) by (simp_all add: stop_inv_def)
  with assms stop_inv_put [OF assms(1), where c = "left s" and k = k and t = t]
  show ?thesis by (cases "k = 0") (simp_all add: put_def)
qed

lemma answer_keeps:
  assumes "client_step (TakeAnswer j) c = Some (Inr c')" and "k < length (reply_chans c')" and "snd (reply_chans c' ! k) = Waits"
  shows "k < length (reply_chans c) \<and> snd (reply_chans c ! k) = Waits"
proof (cases "j < length (reply_chans c)")
  case True
  with assms set_chan_snd [OF True, of Gone k] show ?thesis by (auto split: reply_chan.splits if_splits)
qed (use assms in simp)

lemma stop_inv_step:
  assumes inv: "stop_inv s" and step: "stop_step half s s'"
  shows "stop_inv s'"
proof -
  have wait: "waits_ok (left s)" and len: "length (tasks_left s) = 3" using inv by (auto simp: stop_inv_def)
  note released = hang_up_releases [where a = "left s"]
  from step show ?thesis
  proof cases
    case (s_run k)
    with inv stop_inv_put' [of s k "Live Receiving"] show ?thesis by simp
  next
    case (s_sent k)
    with inv stop_inv_put' [of s k "Live Runnable"] show ?thesis by simp
  next
    case s_send_failed
    with inv wait show ?thesis by (auto intro!: stop_inv_put waits_ok_hang_up simp: hang_up_releases)
  next
    case s_forward
    with inv wait client_step_chans [of Forward "left s" "forward_req (left s)"] show ?thesis
      by (auto intro!: stop_inv_put waits_ok_forward)
  next
    case s_forward_failed
    let ?c = "forward_req (left s)\<lparr>sent_msgs := sent_msgs (left s)\<rparr>"
    have "waits_ok ?c" using waits_ok_forward [OF wait] by (simp add: waits_ok_def listed_def forwarded_def)
    with s_forward_failed inv client_step_chans [of Forward "left s" "forward_req (left s)"] show ?thesis
      by (auto intro!: stop_inv_put waits_ok_hang_up dest: hang_up_releases)
  next
    case s_closed
    with inv wait show ?thesis by (auto intro!: stop_inv_put waits_ok_hang_up simp: hang_up_releases)
  next
    case (s_init k q c)
    with inv show ?thesis by (auto simp: stop_inv_def)
  next
    case (s_job k d q c r)
    moreover have "tasks_left s ! 0 = Ended \<longrightarrow> (\<forall>j < length (reply_chans (left s)). snd (reply_chans (left s) ! j) \<noteq> Waits)"
      using inv by (simp add: stop_inv_def)
    ultimately show ?thesis using inv wait stop_inv_put [of s c k "Live (Decoding r)"] by auto
  next
    case (s_no_job k)
    with inv stop_inv_put' [of s k Ended] show ?thesis by simp
  next
    case (s_ask k r addr len c)
    with inv waits_ok_step [OF wait s_ask(6)] stop_inv_put [where s = s and c = c and k = k
        and t = "Live (Asking (length (reply_chans (left s))) r)"] show ?thesis by auto
  next
    case (s_ask_panics k r)
    with inv stop_inv_put' [of s k Panicked] show ?thesis by simp
  next
    case (s_answered k j r c)
    have "\<forall>j < length (reply_chans c). snd (reply_chans c ! j) \<noteq> Waits" if "tasks_left s ! 0 = Ended"
      using answer_keeps [OF s_answered(7)] inv that by (auto simp: stop_inv_def)
    with s_answered inv waits_ok_step [OF wait s_answered(7)] client_step_chans [OF s_answered(7)] show ?thesis
      by (auto intro!: stop_inv_put simp del: client_step.simps)
  next
    case (s_decoded k)
    with inv stop_inv_put' [of s k "Live Sending"] show ?thesis by simp
  qed
qed

lemma stop_inv_steps: "(stop_step half)\<^sup>*\<^sup>* s s' \<Longrightarrow> stop_inv s \<Longrightarrow> stop_inv s'"
  by (induction rule: rtranclp_induct) (auto intro: stop_inv_step)

lemma stop_start_inv:
  assumes "rt_reach n s" and "conn_at s = Listening"
  shows "stop_inv (stop_start s)"
  using rt_reach_inv [OF assms(1)] rt_reach_waits_ok [OF assms(1)] assms(2)
  by (simp add: stop_inv_def stop_start_def rt_inv_def tasks_ok_def)

text \<open>
  A worker that waits for an answer; and the deadlock: the forwarding task waits for the requests
  of workers of which at least one is left, and all that are left wait for answers whose senders
  the forwarding task holds.
\<close>

definition waiting :: "server_agent \<Rightarrow> task_left \<Rightarrow> bool" where
  "waiting a t = (case t of Live (Asking j r) \<Rightarrow> snd (reply_chans a ! j) = Waits | _ \<Rightarrow> False)"

definition deadlock :: "stopping \<Rightarrow> bool" where
  "deadlock s \<longleftrightarrow> tasks_left s ! 0 = Live Receiving \<and> mem_req_queue (left s) = []
     \<and> list_all (\<lambda>t. over t \<or> waiting (left s) t) (tl (tasks_left s)) \<and> list_ex (waiting (left s)) (tl (tasks_left s))"

lemma rest_workers:
  assumes inv: "stop_inv s" and rest: "\<nexists>s'. stop_step half s s'" and k: "0 < k" "k < 3"
  shows "over (tasks_left s ! k) \<or> waiting (left s) (tasks_left s ! k)"
proof (cases "tasks_left s ! k")
  case (Live t)
  have len: "k < length (tasks_left s)" using inv k by (simp add: stop_inv_def)
  show ?thesis
  proof (cases t)
    case Runnable
    with Live rest s_run [OF len, of half] show ?thesis by auto
  next
    case Sending
    with Live rest s_sent [OF len, of half] show ?thesis by auto
  next
    case Receiving
    show ?thesis
    proof (cases "proc_queue (left s)")
      case Nil
      with Live Receiving rest s_no_job [OF k(1) len, of half] show ?thesis by auto
    next
      case (Cons c q)
      with Live Receiving rest s_init [OF k(1) len, of q _ half] s_job [OF k(1) len, of _ q _ half] show ?thesis
        by (cases c) auto
    qed
  next
    case (Decoding r)
    show ?thesis
    proof (cases r)
      case 0
      with Live Decoding rest s_decoded [OF k(1) len, of half] show ?thesis by auto
    next
      case (Suc r')
      with Live Decoding rest s_ask_panics [OF k(1) len, of r' half] s_ask [OF k(1) len, of r' 0 0 _ half] show ?thesis
        by (cases "tasks_left s ! 0 = Ended") auto
    qed
  next
    case (Asking j r)
    have "task_left_ok (length (reply_chans (left s))) k (tasks_left s ! k)" using inv k by (simp add: stop_inv_def)
    with Live Asking rest s_answered [OF k(1) len, of j r _ half] show ?thesis by (auto simp: waiting_def)
  qed
qed simp_all

lemma stop_inv_three:
  assumes "stop_inv s"
  obtains f w1 w2 where "tasks_left s = [f, w1, w2]"
  using assms unfolding stop_inv_def by (metis (no_types) length_0_conv length_Suc_conv numeral_3_eq_3)

lemma rest_cases:
  assumes inv: "stop_inv s" and rest: "\<nexists>s'. stop_step half s s'"
  shows "list_all over (tasks_left s) \<or> deadlock s"
proof -
  obtain f w1 w2 where ts: "tasks_left s = [f, w1, w2]" by (rule stop_inv_three [OF inv])
  have w: "over w1 \<or> waiting (left s) w1" "over w2 \<or> waiting (left s) w2"
    using rest_workers [OF inv rest, of 1] rest_workers [OF inv rest, of 2] by (simp_all add: ts)
  have "\<forall>k < 3. task_left_ok (length (reply_chans (left s))) k ([f, w1, w2] ! k)" using inv by (simp add: stop_inv_def ts)
  then have "task_left_ok (length (reply_chans (left s))) 0 f" by (auto dest: spec [of _ 0])
  then consider "f = Ended" | "f = Live Runnable" | "f = Live Sending" | "f = Live Receiving"
    by (cases "(length (reply_chans (left s)), 0 :: nat, f)" rule: task_left_ok.cases) (auto elim: task_ok_at.elims)
  then show ?thesis
  proof cases
    case 1
    have "\<not> waiting (left s) t" if "k < 3" "tasks_left s ! k = t" for k t
      using inv 1 that unfolding stop_inv_def waiting_def
      by (fastforce simp: ts split: task_left.splits task_at.splits)
    from this [of 1] this [of 2] w 1 show ?thesis by (simp add: ts)
  next
    case 2
    with rest s_run [of 0 s half] show ?thesis by (auto simp: ts)
  next
    case 3
    with rest s_sent [of 0 s half] show ?thesis by (auto simp: ts)
  next
    case 4
    have "mem_req_queue (left s) = []" using rest 4 s_forward_failed [of s half] by (auto simp: ts)
    moreover from this have "\<not> (over w1 \<and> over w2)" using rest 4 s_closed [of s half] by (auto simp: ts)
    ultimately show ?thesis using w 4 by (auto simp: deadlock_def ts)
  qed
qed

section \<open>Answers that are owed\<close>

text \<open>A request was forwarded and its answer has not arrived.\<close>

definition owed :: "server_agent \<Rightarrow> bool" where
  "owed a = list_ex (\<lambda>(addr, k). snd (reply_chans a ! k) = Waits) (mem_req_lst a)"

lemma owed_iff: "owed a \<longleftrightarrow> (\<exists>k \<in> forwarded a. snd (reply_chans a ! k) = Waits)"
  by (force simp: owed_def forwarded_def list_ex_iff)

lemma owed_plain [simp]: "owed (a\<lparr>proc_queue := q\<rparr>) = owed a" "owed (a\<lparr>loop_alive := l\<rparr>) = owed a"
    "\<not> owed (hang_up a)"
  by (simp_all add: owed_def)

lemma not_owed_step:
  assumes "stop_inv s" and "\<not> owed (left s)" and "stop_step False s s'"
  shows "\<not> owed (left s')"
proof -
  have less: "\<forall>k \<in> forwarded (left s). k < length (reply_chans (left s))" using assms(1) by (simp add: stop_inv_def waits_ok_def)
  from assms(3) show ?thesis
  proof cases
    case (s_ask k r addr len c)
    then have "forwarded c = forwarded (left s)" by (auto simp: forwarded_def)
    with s_ask less assms(2) show ?thesis by (auto simp: owed_iff nth_append)
  next
    case (s_answered k j r c)
    then have "forwarded c = forwarded (left s)" "length (reply_chans c) = length (reply_chans (left s))"
      by (auto split: reply_chan.splits)
    with less answer_keeps [OF s_answered(7)] assms(2) s_answered(1) show ?thesis by (auto simp: owed_iff)
  qed (use assms(2) in auto)
qed

lemma deadlock_owed:
  assumes "stop_inv s" and "deadlock s"
  shows "owed (left s)"
proof -
  obtain f w1 w2 where ts: "tasks_left s = [f, w1, w2]" by (rule stop_inv_three [OF assms(1)])
  have "waiting (left s) (tasks_left s ! 1) \<or> waiting (left s) (tasks_left s ! 2)"
    using assms(2) by (auto simp: deadlock_def ts)
  then obtain k where w: "waiting (left s) (tasks_left s ! k)" "k < 3" by force
  then obtain j r where k: "tasks_left s ! k = Live (Asking j r)" "snd (reply_chans (left s) ! j) = Waits"
    by (auto simp: waiting_def split: task_left.splits task_at.splits)
  have "task_left_ok (length (reply_chans (left s))) k (tasks_left s ! k)" "waits_ok (left s)"
    using assms(1) w(2) by (auto simp: stop_inv_def)
  with k assms(2) have "j \<in> forwarded (left s)" by (auto simp: waits_ok_def deadlock_def listed_def)
  with k(2) show ?thesis by (auto simp: owed_iff)
qed

text \<open>A worker waits, and nobody else is going to ask.\<close>

fun asks_no_more :: "server_agent \<Rightarrow> task_left \<Rightarrow> bool" where
  "asks_no_more a (Live (Decoding r)) \<longleftrightarrow> r = 0"
| "asks_no_more a (Live (Asking j r)) \<longleftrightarrow> snd (reply_chans a ! j) = Waits"
| "asks_no_more a _ \<longleftrightarrow> True"

definition doomed :: "nat \<Rightarrow> task_at \<Rightarrow> stopping \<Rightarrow> bool" where
  "doomed k t s \<longleftrightarrow> tasks_left s ! k = Live t \<and> waiting (left s) (Live t)
     \<and> tasks_left s ! 0 \<in> {Live Receiving, Live Runnable} \<and> mem_req_queue (left s) = [] \<and> proc_queue (left s) = []
     \<and> length (tasks_left s) = 3 \<and> (\<forall>i < 3. 0 < i \<longrightarrow> asks_no_more (left s) (tasks_left s ! i))"

lemma doomed_put:
  assumes "doomed k t s" and "i \<noteq> k" and "i = 0 \<Longrightarrow> u \<in> {Live Receiving, Live Runnable}" and "asks_no_more (left s) u"
  shows "doomed k t (put i u s)"
  using assms by (auto simp: doomed_def nth_put)

lemma doomed_step:
  assumes "doomed k t s" and "0 < k" and "k < 3" and "stop_step half s s'"
  shows "doomed k t s'"
proof -
  obtain j r where t: "t = Asking j r" "snd (reply_chans (left s) ! j) = Waits"
    using assms(1) by (auto simp: doomed_def waiting_def split: task_at.splits)
  have tk: "tasks_left s ! k = Live (Asking j r)" using assms(1) t(1) by (simp add: doomed_def)
  have no: "asks_no_more (left s) (tasks_left s ! i)" if "0 < i" "i < length (tasks_left s)" for i
    using that assms(1) by (auto simp: doomed_def)
  note d = assms(1) [unfolded doomed_def]
  from assms(4) show ?thesis
  proof cases
    case (s_run i)
    then have "i \<noteq> k" using tk by auto
    with s_run doomed_put [OF assms(1), of i "Live Receiving"] show ?thesis by auto
  next
    case (s_sent i)
    then have "i \<noteq> k" using tk by auto
    with s_sent doomed_put [OF assms(1), of i "Live Runnable"] show ?thesis by auto
  next
    case s_closed
    have "tasks_left s ! k \<in> set (tl (tasks_left s))"
      using assms(2,3) d nth_mem [of "k - 1" "tl (tasks_left s)"] by (auto simp: nth_tl)
    with s_closed tk show ?thesis by auto
  next
    case (s_no_job i)
    then have "i \<noteq> k" using tk by auto
    with s_no_job doomed_put [OF assms(1), of i Ended] show ?thesis by auto
  next
    case (s_ask i r' addr len c)
    with no [of i] show ?thesis by simp
  next
    case (s_ask_panics i r')
    with no [of i] show ?thesis by simp
  next
    case (s_answered i j' r' c)
    with no [of i] show ?thesis by simp
  next
    case (s_decoded i)
    then have "i \<noteq> k" using tk by auto
    with s_decoded doomed_put [OF assms(1), of i "Live Sending"] show ?thesis by auto
  qed (use d in auto)
qed

section \<open>Properties\<close>

text \<open>
  C24: after the receiving loop has ended, in whatever state it left the client, the
  tasks come to rest after finitely many steps. Then either all of them have ended or panicked,
  or they are in a deadlock, a worker waiting for an answer and the forwarding task for a request;
  and if no answer was owed when the loop ended and the connection takes no more messages, they
  have all ended or panicked.
\<close>

theorem client_stops:
  assumes "rt_reach n s" and "conn_at s = Listening"
  shows "wf {(s', s). stop_step half s s'}
     \<and> (\<exists>s'. (stop_step half)\<^sup>*\<^sup>* (stop_start s) s' \<and> (\<nexists>s''. stop_step half s' s''))
     \<and> (\<forall>s'. (stop_step half)\<^sup>*\<^sup>* (stop_start s) s' \<longrightarrow> (\<nexists>s''. stop_step half s' s'')
          \<longrightarrow> (list_all over (tasks_left s') \<or> deadlock s')
            \<and> (\<not> half \<longrightarrow> \<not> owed (client s) \<longrightarrow> list_all over (tasks_left s')))"
proof -
  note start = stop_start_inv [OF assms]
  have "\<not> owed (left s')" if "(stop_step False)\<^sup>*\<^sup>* (stop_start s) s'" "\<not> owed (client s)" for s'
    using that
  proof (induction rule: rtranclp_induct)
    case base
    then show ?case by (simp add: stop_start_def)
  next
    case (step s1 s2)
    then show ?case using not_owed_step [OF stop_inv_steps [OF step(1) start]] by blast
  qed
  then have "list_all over (tasks_left s')" if "(stop_step half)\<^sup>*\<^sup>* (stop_start s) s'" "\<nexists>s''. stop_step half s' s''"
      "\<not> half" "\<not> owed (client s)" for s'
    using that rest_cases [OF stop_inv_steps [OF that(1) start] that(2)]
      deadlock_owed [OF stop_inv_steps [OF that(1) start]] by auto
  moreover have "list_all over (tasks_left s') \<or> deadlock s'"
    if "(stop_step half)\<^sup>*\<^sup>* (stop_start s) s'" "\<nexists>s''. stop_step half s' s''" for s'
    by (rule rest_cases [OF stop_inv_steps [OF that(1) start] that(2)])
  ultimately show ?thesis using stop_terminates [of half] stop_rests [of half] by blast
qed

text \<open>
  C37: a worker that waits for an answer when the connection ends waits for ever,
  if there are no jobs left and the other worker asks for nothing more: the sender of its reply
  channel is in the map, which the forwarding task owns, and that task waits for the workers to
  drop their senders.
\<close>

theorem client_deadlock:
  assumes "rt_reach n s" and "conn_at s = Listening" and "k = 1 \<or> k = 2"
    and "tasks_at s ! k = Asking j r" and "snd (reply_chans (client s) ! j) = Waits"
    and "tasks_at s ! 0 \<in> {Receiving, Runnable}" and "mem_req_queue (client s) = []" and "proc_queue (client s) = []"
    and "asks_no_more (client s) (Live (tasks_at s ! (3 - k)))"
    and "(stop_step half)\<^sup>*\<^sup>* (stop_start s) s'"
  shows "tasks_left s' ! k = Live (Asking j r) \<and> snd (reply_chans (left s') ! j) = Waits \<and> \<not> over (tasks_left s' ! 0)
     \<and> ((\<nexists>s''. stop_step half s' s'') \<longrightarrow> deadlock s')"
proof -
  have k: "0 < k" "k < 3" using assms(3) by auto
  have len: "length (tasks_at s) = 3" using rt_reach_inv [OF assms(1)] assms(2) by (simp add: rt_inv_def)
  have no: "asks_no_more (a\<lparr>loop_alive := l\<rparr>) t = asks_no_more a t" for a l t
    by (cases "(a, t)" rule: asks_no_more.cases) auto
  have "asks_no_more (client s) (Live (tasks_at s ! i))" if "0 < i" "i < 3" for i
    using that assms(3,4,5,9) by (cases "i = k") (auto simp: eval_nat_numeral less_Suc_eq)
  then have "doomed k (Asking j r) (stop_start s)"
    using assms(4-8) k len by (auto simp: doomed_def stop_start_def waiting_def no)
  with assms(10) have d: "doomed k (Asking j r) s'"
    by (induction rule: rtranclp_induct) (auto intro: doomed_step [OF _ k])
  have inv: "stop_inv s'" by (rule stop_inv_steps [OF assms(10) stop_start_inv [OF assms(1,2)]])
  have "\<not> list_all over (tasks_left s')" using d k by (auto simp: doomed_def list_all_length)
  with rest_cases [OF inv, of half] have "(\<nexists>s''. stop_step half s' s'') \<longrightarrow> deadlock s'" by blast
  then show ?thesis using d by (auto simp: doomed_def waiting_def)
qed

text \<open>A client whose first worker has asked for a page; the answer has not come.\<close>

definition asking_client :: client_rt where
  "asking_client = \<lparr>conn_at = Listening, tasks_at = [Runnable, Asking 0 0, Runnable],
     client = \<lparr>mem_req_queue = [], mem_req_lst = [(0x1000, 0)], reply_chans = [(0x1000, Waits)],
       proc_queue = [], loop_alive = True, sent_msgs = [RegReq 0, MemReq 0x1000 8]\<rparr>, inbox = []\<rparr>"

lemma connected_reach: "rt_reach 4 \<lparr>conn_at = Listening, tasks_at = [Runnable, Runnable, Runnable], client = ServerAgent_connect, inbox = []\<rparr>"
  using rt_next [OF rt_init_state rt_connect [of client_rt_start 4]]
  by (simp add: client_rt_start_def in_use_def numeral_3_eq_3)

lemma asking_reach: "rt_reach 4 asking_client"
proof -
  note next' = rt_next [where n = 4]
  note defs = in_use_def set_task_def ServerAgent_connect_def forward_req_def insert_req_def
  from rt_arrive [OF connected_reach, of "DataReq [1]"]
  have 1: "rt_reach 4 \<lparr>conn_at = Listening, tasks_at = [Runnable, Runnable, Runnable], client = ServerAgent_connect,
      inbox = [DataReq [1]]\<rparr>" by simp
  from next' [OF 1 rt_receive]
  have 2: "rt_reach 4 \<lparr>conn_at = Listening, tasks_at = [Runnable, Runnable, Runnable],
      client = ServerAgent_connect\<lparr>proc_queue := [Proc [1]]\<rparr>, inbox = []\<rparr>" by (simp add: defs)
  from next' [OF 2 rt_run [where k = 1]]
  have 3: "rt_reach 4 \<lparr>conn_at = Listening, tasks_at = [Runnable, Receiving, Runnable],
      client = ServerAgent_connect\<lparr>proc_queue := [Proc [1]]\<rparr>, inbox = []\<rparr>" by (simp add: defs)
  from next' [OF 3 rt_job [where k = 1 and r = 1]]
  have 4: "rt_reach 4 \<lparr>conn_at = Listening, tasks_at = [Runnable, Decoding 1, Runnable], client = ServerAgent_connect, inbox = []\<rparr>"
    by (simp add: defs)
  from next' [OF 4 rt_ask [where k = 1 and r = 0 and addr = "0x1000" and len = 8]]
  have 5: "rt_reach 4 \<lparr>conn_at = Listening, tasks_at = [Runnable, Asking 0 0, Runnable], client = ServerAgent_connect
      \<lparr>mem_req_queue := [(0x1000, 8, 0)], reply_chans := [(0x1000, Waits)]\<rparr>, inbox = []\<rparr>" by (simp add: defs)
  from next' [OF 5 rt_run [where k = 0]]
  have 6: "rt_reach 4 \<lparr>conn_at = Listening, tasks_at = [Receiving, Asking 0 0, Runnable], client = ServerAgent_connect
      \<lparr>mem_req_queue := [(0x1000, 8, 0)], reply_chans := [(0x1000, Waits)]\<rparr>, inbox = []\<rparr>" by (simp add: defs)
  from next' [OF 6 rt_forward]
  have 7: "rt_reach 4 (asking_client\<lparr>tasks_at := [Sending, Asking 0 0, Runnable]\<rparr>)" by (simp add: defs asking_client_def)
  from next' [OF 7 rt_sent [where k = 0]] show ?thesis by (simp add: defs asking_client_def)
qed

theorem client_stops_witness:
  "\<exists>s'. (stop_step False)\<^sup>*\<^sup>* (stop_start \<lparr>conn_at = Listening, tasks_at = [Runnable, Runnable, Runnable],
      client = ServerAgent_connect, inbox = []\<rparr>) s' \<and> list_all over (tasks_left s')"
proof -
  have "\<not> owed ServerAgent_connect" by (simp add: ServerAgent_connect_def owed_def)
  with client_stops [OF connected_reach, of False] show ?thesis by (simp del: list_all_iff) blast
qed

theorem client_deadlock_witness:
  "\<exists>s'. (stop_step False)\<^sup>*\<^sup>* (stop_start asking_client) s' \<and> deadlock s'"
proof -
  obtain s' where s': "(stop_step False)\<^sup>*\<^sup>* (stop_start asking_client) s'" "\<nexists>s''. stop_step False s' s''"
    using stop_rests by blast
  have "deadlock s'"
    using client_deadlock [OF asking_reach, of 1 0 0 False s'] s' by (simp add: asking_client_def)
  with s'(1) show ?thesis by blast
qed

end
