(* ===== verification/Tools.thy ===== *)
theory Tools
  imports OnlineMain ClientTasks
begin

text \<open>
  The two small programs: \<open>main\<close> of \<open>src/src/bin/client.rs\<close>, which is the decoding client and
  nothing else (the rest of that file is a copy of the online processor that \<open>main\<close> does not
  use), and \<open>src/src/bin/test_decode.rs\<close>, which decodes sixteen trace files.
\<close>

section \<open>The decoding client\<close>

definition client_args :: "arg list" where
  "client_args =
     [(with_name ''addr'')\<lparr>arg_short := Some ''a'', arg_takes_value := True, arg_required := True\<rparr>,
      long_option ''buff_size'' ''buff_size'' ''256'',
      short_option ''mtc_freq'' ''m'' ''3'',
      long_option ''psb_freq'' ''psb'' ''5'',
      long_option ''cyc_thld'' ''cyc'' ''1'',
      long_option ''addr0_cfg'' ''addr0_cfg'' ''0'',
      long_option ''addr0_start'' ''addr0_start'' ''0'',
      long_option ''addr0_end'' ''addr0_end'' ''0'',
      short_option ''out_dir'' ''o'' (''x:'' @ [CHR 0x5C]),
      long_option ''file_size'' ''file_size'' ''1GB'']"

text \<open>
  The task of \<open>ServerAgent::connect\<close>: \<open>socket\<close> and \<open>registered\<close> are whether the connection was
  made and the \<open>RegReq\<close> sent, \<open>es\<close> what the client's tasks do until the connection ends. \<open>None\<close>:
  it waits for ever.
\<close>

definition connect_task :: "bool \<Rightarrow> bool \<Rightarrow> client_event list \<Rightarrow> unit res option" where
  "connect_task socket registered es =
     (if \<not> socket then Some (Inl UnwrapErr)
      else if \<not> registered then Some (Inr ())
      else map_option (map_sum id (\<lambda>a. ())) (client_run es ServerAgent_connect))"

text \<open>
  \<open>network addr\<close> is what becomes of a connection to \<open>addr\<close>. A task that panicked gives \<open>await\<close>
  an error, which is unwrapped; after \<open>block_on\<close> comes \<open>loop {}\<close>.
\<close>

definition client_main ::
    "clap \<Rightarrow> bool \<Rightarrow> (string \<Rightarrow> bool \<times> bool \<times> client_event list) \<Rightarrow> unit res option" where
  "client_main clap runtime network =
     (case res_bind (unwrap (clap client_args ''addr'')) (\<lambda>addr.
             if runtime then Inr addr else Inl UnwrapErr) of
        Inl e \<Rightarrow> Some (Inl e)
      | Inr addr \<Rightarrow>
          (case (case network addr of (socket, registered, es) \<Rightarrow> connect_task socket registered es) of
             None \<Rightarrow> None
           | Some (Inl e) \<Rightarrow> Some (Inl UnwrapErr)
           | Some (Inr u) \<Rightarrow> None))"

section \<open>Decoding files\<close>

definition data_path :: "nat \<Rightarrow> string" where
  "data_path i = ''x:'' @ [CHR 0x5C] @ dec i @ ''.dat''"

type_synonym 'w decoding = "page_table \<times> 'w MemCacher \<times> 'w"

fun decode_files ::
    "build \<Rightarrow> ('d, 'w MemCacher \<times> 'w) libipt \<Rightarrow> 'w machine \<Rightarrow> (string \<Rightarrow> bytes option) \<Rightarrow> u64 \<Rightarrow> usize \<Rightarrow> nat list
     \<Rightarrow> 'w decoding \<Rightarrow> 'w decoding res option" where
  "decode_files b L m read_file h p [] s = Some (Inr s)"
| "decode_files b L m read_file h p (i # is) (rst, cacher, w) =
     (case unwrap_ok (read_file (data_path i)) of
        Inl e \<Rightarrow> Some (Inl e)
      | Inr data \<Rightarrow>
          (case decode b L (ctl_codes m) (driver m) (buffer_at m) h p data cacher rst w of
             None \<Rightarrow> None
           | Some (Inl e) \<Rightarrow> Some (Inl e)
           | Some (Inr (cnt, rst', cacher', w')) \<Rightarrow> decode_files b L m read_file h p is (rst', cacher', w')))"

text \<open>\<open>cnt\<close> is an \<open>i32\<close>.\<close>

definition add_one :: "build \<Rightarrow> 32 word \<Rightarrow> 32 word res" where
  "add_one b cnt = (if b = Debug \<and> cnt = 0x7FFFFFFF then Inl Overflow else Inr (cnt + 1))"

definition count_executed :: "build \<Rightarrow> page_table \<Rightarrow> 32 word res" where
  "count_executed b rst =
     res_fold (\<lambda>(page, insn). res_fold (\<lambda>(i, ins) cnt. if exec_cnt ins > 0 then add_one b cnt else Inr cnt)
       (List.enumerate 0 insn)) rst 0"

definition test_decode_main ::
    "build \<Rightarrow> ('d, 'w MemCacher \<times> 'w) libipt \<Rightarrow> 'w machine \<Rightarrow> (string \<Rightarrow> bytes option) \<Rightarrow> 'w \<Rightarrow> 32 word res option" where
  "test_decode_main b L m read_file w =
     (case res_bind (open_device m) (\<lambda>h.
             res_bind (unwrap (get_process_id ''gameapp.exe'' (process_list m))) (\<lambda>p. Inr (h, p))) of
        Inl e \<Rightarrow> Some (Inl e)
      | Inr (h, p) \<Rightarrow>
          (case decode_files b L m read_file h p [0..<16] ([], MemCacher_new, w) of
             None \<Rightarrow> None
           | Some (Inl e) \<Rightarrow> Some (Inl e)
           | Some (Inr (rst, cacher, w')) \<Rightarrow> Some (
               res_bind (count_executed b rst) (\<lambda>cnt.
               res_bind (expect ''Close pt handle errord'' (close_pt_handle (close_handle m) (last_error m) h)) (\<lambda>_.
               Inr cnt)))))"

section \<open>Counting\<close>

lemma fold_filter_count:
  assumes "n + length (filter P xs) < 2 ^ 31"
  shows "res_fold (\<lambda>x cnt. if P x then add_one b cnt else Inr cnt) xs (of_nat n) = Inr (of_nat (n + length (filter P xs)))"
  using assms
proof (induction xs arbitrary: n)
  case (Cons x xs)
  show ?case
  proof (cases "P x")
    case True
    have "(of_nat n :: 32 word) \<noteq> 0x7FFFFFFF"
    proof
      assume "(of_nat n :: 32 word) = 0x7FFFFFFF"
      then have "unat (of_nat n :: 32 word) = 0x7FFFFFFF" by simp
      with Cons.prems True show False by (simp add: unat_of_nat)
    qed
    with True Cons.IH [of "Suc n"] Cons.prems show ?thesis by (simp add: add_one_def add.commute)
  next
    case False
    with Cons show ?thesis by simp
  qed
qed simp

lemma count_executed_length:
  assumes "length (executed t) < 2 ^ 31"
  shows "count_executed b t = Inr (of_nat (length (executed t)))"
proof -
  have "res_fold (\<lambda>(page, insn). res_fold (\<lambda>(i, ins) cnt. if exec_cnt ins > 0 then add_one b cnt else Inr cnt)
       (List.enumerate 0 insn)) t (of_nat n) = Inr (of_nat (n + length (executed t)))"
    if "n + length (executed t) < 2 ^ 31" for n
    using that
  proof (induction t arbitrary: n)
    case (Cons x t)
    obtain page insn where x: "x = (page, insn)" by (cases x)
    let ?k = "length (filter (\<lambda>(i :: nat, ins). exec_cnt ins > 0) (List.enumerate 0 insn))"
    have len: "length (executed (x # t)) = ?k + length (executed t)"
      by (simp add: executed_def executed_page_def x)
    have "res_fold (\<lambda>(i :: nat, ins) cnt. if exec_cnt ins > 0 then add_one b cnt else Inr cnt)
        (List.enumerate 0 insn) (of_nat n) = Inr (of_nat (n + ?k))"
      using Cons.prems len fold_filter_count [of n "\<lambda>(i, ins). exec_cnt ins > 0" "List.enumerate 0 insn" b]
      by (simp add: case_prod_unfold)
    then show ?case using Cons.IH [of "n + ?k"] Cons.prems len by (simp add: x add.assoc)
  qed (simp add: executed_def)
  from this [of 0] assms show ?thesis by (simp add: count_executed_def)
qed

lemma executed_page_distinct:
  assumes "length insn = 4096"
  shows "distinct (map fst (executed_page (page, insn)))"
proof -
  let ?xs = "filter (\<lambda>(i, ins). exec_cnt ins > 0) (List.enumerate 0 insn)"
  have "inj_on (\<lambda>i. page + of_nat i) (fst ` set ?xs)"
  proof (rule inj_onI)
    fix i j assume "i \<in> fst ` set ?xs" "j \<in> fst ` set ?xs" "page + of_nat i = page + of_nat j"
    then have "i < 4096" "j < 4096" "(of_nat i :: u64) = of_nat j" using assms by (auto simp: in_set_enumerate_eq)
    then show "i = j" by (simp add: word_of_nat_eq_iff take_bit_nat_eq_self)
  qed
  moreover have "distinct (map fst ?xs)"
    using distinct_map_filter [of fst "List.enumerate 0 insn" "\<lambda>(i, ins). exec_cnt ins > 0"] by simp
  ultimately have "distinct (map (\<lambda>i. page + of_nat i) (map fst ?xs))"
    unfolding distinct_map by simp
  then show ?thesis by (simp add: executed_page_def case_prod_unfold comp_def)
qed

lemma executed_distinct: "wf_table t \<Longrightarrow> distinct (map fst (executed t))"
proof (induction t)
  case (Cons x t)
  obtain k p where x: "x = (k, p)" by (cases x)
  with Cons.prems have t: "wf_table t" and k: "k \<notin> fst ` set t" "page_of k = k" "length p = 4096"
    by (simp_all add: wf_table_Cons)
  have "a \<notin> fst ` set (executed t)" if "a \<in> fst ` set (executed_page (k, p))" for a
  proof
    assume "a \<in> fst ` set (executed t)"
    then obtain l q i j where "(l, q) \<in> set t" "j < length q" "a = l + of_nat j"
      by (auto simp: executed_def executed_page_def in_set_enumerate_eq)
    moreover from that obtain i where "i < 4096" "a = k + of_nat i"
      using k(3) by (auto simp: executed_page_def in_set_enumerate_eq)
    moreover have "page_of l = l" "length q = 4096" using t calculation(1) by (auto simp: wf_table_def)
    ultimately have "k = l" using page_of_add(1) [of k i] page_of_add(1) [of l j] k(2) by simp
    with k(1) \<open>(l, q) \<in> set t\<close> show False by force
  qed
  with Cons.IH [OF t] executed_page_distinct [OF k(3), of k] x show ?case
    by (auto simp: executed_def)
qed (simp add: executed_def)

lemma executed_card:
  assumes "wf_table t"
  shows "length (executed t) = card {a. 0 < count_at t a}"
proof -
  have "fst ` set (executed t) = {a. 0 < count_at t a}"
    using executed_iff [OF assms] by (force simp: image_iff)
  with distinct_card [OF executed_distinct [OF assms]] show ?thesis by simp
qed


section \<open>Properties\<close>

text \<open>
  Also: the decoding client does not end by itself: it panics when the address
  is missing, the connection is refused or the server sends a message that is not for a client;
  in every other case it runs for ever, also after the connection has ended.
\<close>

theorem client_never_exits:
  "client_main clap runtime network \<noteq> Some (Inr ())"
  "clap client_args ''addr'' = Some addr \<Longrightarrow> runtime \<Longrightarrow> network addr = (True, registered, es)
     \<Longrightarrow> client_run es ServerAgent_connect = Some (Inr a) \<Longrightarrow> client_main clap runtime network = None"
  "clap client_args ''addr'' = Some addr \<Longrightarrow> runtime \<Longrightarrow> network addr = (False, registered, es)
     \<Longrightarrow> client_main clap runtime network = Some (Inl UnwrapErr)"
  by (auto simp: client_main_def connect_task_def unwrap_def split: sum.splits option.splits prod.splits)

lemma decode_files_exact:
  assumes rd: "faithful (decode_reader (ctl_codes m) (driver m) (buffer_at m) h p) mem"
      "reads_all (decode_reader (ctl_codes m) (driver m) (buffer_at m) h p)"
    and mo: "mem_only L cache_range mem nxt"
    and files: "\<forall>i \<in> set is. \<exists>data. read_file (data_path i) = Some data \<and> piece_yields L nxt data (ips_of i)"
    and coh: "coherent mem c" and wf: "wf_table t"
    and fits: "\<forall>x. unat (count_at t x) + count_list (concat (map ips_of is)) x < 2 ^ 64"
      "length (concat (map ips_of is)) < 2 ^ 64"
  shows "\<exists>t' c' w'. decode_files b L m read_file h p is (t, c, w) = Some (Inr (t', c', w')) \<and> wf_table t'
     \<and> (\<forall>x. unat (count_at t' x) = unat (count_at t x) + count_list (concat (map ips_of is)) x)"
  using files coh wf fits
proof (induction "is" arbitrary: t c w)
  case Nil
  then show ?case by (intro exI [of _ t] exI [of _ c] exI [of _ w]) simp
next
  case (Cons i "is")
  from Cons.prems(1) obtain data where data: "read_file (data_path i) = Some data" "piece_yields L nxt data (ips_of i)" by auto
  have fit: "unat (count_at t x) + count_list (ips_of i) x < 2 ^ 64" for x
    using Cons.prems(4) [rule_format, of x] by simp
  then have fits: "\<forall>x. unat (count_at t x) + count_list (ips_of i) x < 2 ^ 64" "length (ips_of i) < 2 ^ 64"
    using Cons.prems(5) by simp_all
  from decode_piece [OF data(2) mo rd Cons.prems(2,3) fits, of b w] obtain t1 c1 w1 where
    d: "decode b L (ctl_codes m) (driver m) (buffer_at m) h p data c t w = Some (Inr (of_nat (length (ips_of i)), t1, c1, w1))"
      "coherent mem c1" and t1: "res_fold (record_hit b) (ips_of i) t = Inr t1" by (auto simp: decode_def)
  from table.hits_exact [OF Cons.prems(3) fits(1), of b] t1 have wf1: "wf_table t1"
    and cnt: "unat (count_at t1 x) = unat (count_at t x) + count_list (ips_of i) x" for x by auto
  have "\<forall>x. unat (count_at t1 x) + count_list (concat (map ips_of is)) x < 2 ^ 64"
    "length (concat (map ips_of is)) < 2 ^ 64"
    using Cons.prems(4,5) cnt by (simp_all add: add.assoc)
  with Cons.IH [of c1 t1 w1] Cons.prems(1) d(2) wf1 obtain t' c' w' where
    IH: "decode_files b L m read_file h p is (t1, c1, w1) = Some (Inr (t', c', w'))" "wf_table t'"
      "\<forall>x. unat (count_at t' x) = unat (count_at t1 x) + count_list (concat (map ips_of is)) x" by auto
  have "decode_files b L m read_file h p (i # is) (t, c, w) = Some (Inr (t', c', w'))"
    using data(1) d(1) IH(1) by (simp add: unwrap_ok_def)
  with IH cnt show ?case by (intro exI [of _ t'] exI [of _ c'] exI [of _ w']) (simp add: add.assoc)
qed


text \<open>A machine on which every file holds one piece, of one instruction.\<close>

definition test_machine :: "unit machine" where
  "test_machine = demo_machine\<lparr>process_list := [(5, ''gameapp.exe'')], driver := const_drv 7\<rparr>"


end
