(* ===== verification/TableTypes.thy ===== *)
theory TableTypes
  imports Decode
begin

text \<open>
  The tables of counts as a type: whatever the program builds with its operations
  (\<open>src/src/post_proc/mod.rs\<close>, the decoders of \<open>src/src/decode_proc/mod.rs\<close>, the merging loops of
  \<open>client_agent.rs\<close>, \<open>client_pool.rs\<close> and \<open>online_proc.rs\<close> and the conversion of
  \<open>client_proc.rs\<close>) is a well-formed table, and on such tables an operation can only fail by the
  overflow of a counter, which a release build does not notice.
\<close>

section \<open>The tables a program can build\<close>

inductive table_of :: "build \<Rightarrow> page_table \<Rightarrow> bool" and sparse_of :: "build \<Rightarrow> sparse_table \<Rightarrow> bool" for b where
  t_new: "table_of b []"
| t_hit: "table_of b t \<Longrightarrow> record_hit b a t = Inr t' \<Longrightarrow> table_of b t'"
| t_merge: "table_of b s \<Longrightarrow> table_of b t \<Longrightarrow> merge_table b s t = Inr t' \<Longrightarrow> table_of b t'"
| t_received: "sparse_of b w \<Longrightarrow> table_of b t \<Longrightarrow> merge_sparse b w t = Inr t' \<Longrightarrow> table_of b t'"
| s_reply: "table_of b t \<Longrightarrow> sparse_of b (to_sparse t)"

inductive_cases table_of_Cons: "table_of b (x # t)"

lemma table_of_wf: "table_of b t \<Longrightarrow> wf_table t" and sparse_of_wf: "sparse_of b w \<Longrightarrow> wf_sparse w"
proof (induction rule: table_of_sparse_of.inducts)
  case (t_hit t a t')
  then show ?case using record_hit_Inr(1) by blast
next
  case (t_merge s t t')
  then show ?case using merge_table_Inr by blast
next
  case (t_received w t t')
  then show ?case using merge_sparse_Inr by blast
qed (simp_all add: to_sparse_wf)

section \<open>How an operation can fail\<close>

definition overflow_only :: "build \<Rightarrow> 'a res \<Rightarrow> bool" where
  "overflow_only b r \<longleftrightarrow> (\<forall>e. r = Inl e \<longrightarrow> b = Debug \<and> e = Overflow)"

lemma overflow_only_Inr [simp]: "overflow_only b (Inr x)"
  by (simp add: overflow_only_def)

lemma overflow_only_bind: "overflow_only b m \<Longrightarrow> (\<And>x. m = Inr x \<Longrightarrow> overflow_only b (f x)) \<Longrightarrow> overflow_only b (res_bind m f)"
  by (cases m) (auto simp: overflow_only_def)

lemma overflow_only_bump: "i < length p \<Longrightarrow> overflow_only b (bump b i n p)"
  by (auto simp: overflow_only_def bump_def index_at_def update_at_def uadd_def split: if_splits)

lemma overflow_only_bumps: "\<forall>(i, n) \<in> set xs. i < length p \<Longrightarrow> overflow_only b (bumps b xs p)"
proof (induction xs arbitrary: p)
  case Nil
  then show ?case by (simp add: bumps_def)
next
  case (Cons x xs)
  obtain i n where x: "x = (i, n)" by (cases x)
  have "bumps b (x # xs) p = res_bind (bump b i n p) (bumps b xs)"
    by (cases "bump b i n p") (auto simp: bumps_def x res_simps)
  moreover have "overflow_only b (bump b i n p)" using Cons.prems x by (intro overflow_only_bump) simp
  moreover have "overflow_only b (bumps b xs q)" if "bump b i n p = Inr q" for q
    using Cons.IH [of q] Cons.prems bump_Inr(2) [OF that] by auto
  ultimately show ?case by (simp add: overflow_only_bind)
qed

lemma overflow_only_add:
  assumes "wf_table t" and "\<forall>(i, n) \<in> set xs. i < 4096"
  shows "overflow_only b (add_to_page b k xs t)"
proof -
  have "overflow_only b (bumps b xs (page_at t k))"
    using assms page_at_length [OF assms(1)] by (intro overflow_only_bumps) simp
  then show ?thesis by (simp add: add_to_page_def overflow_only_bind)
qed

lemma overflow_only_fold:
  assumes "P s" and "\<And>x s. x \<in> set xs \<Longrightarrow> P s \<Longrightarrow> overflow_only b (f x s)"
    and "\<And>x s s'. x \<in> set xs \<Longrightarrow> P s \<Longrightarrow> f x s = Inr s' \<Longrightarrow> P s'"
  shows "overflow_only b (res_fold f xs s)"
  using assms
proof (induction xs arbitrary: s)
  case (Cons x xs)
  have "overflow_only b (res_fold f xs s')" if "f x s = Inr s'" for s'
    using Cons.IH [of s'] Cons.prems that by (meson list.set_intros)
  with Cons.prems show ?case by (simp add: overflow_only_bind)
qed simp

lemma overflow_only_hit: "wf_table t \<Longrightarrow> overflow_only b (record_hit b a t)"
  using page_off_less [of a] by (simp add: record_hit_add overflow_only_add)

lemma overflow_only_merge:
  assumes "wf_table s" and "wf_table t"
  shows "overflow_only b (merge_table b s t)"
  unfolding merge_table_def
proof (rule overflow_only_fold [where P = wf_table])
  fix x u assume x: "x \<in> set s" "wf_table u"
  obtain k p where kp: "x = (k, p)" "page_of k = k" "length p = 4096" using assms(1) x(1) by (auto simp: wf_table_def)
  have "overflow_only b (add_dense b p q)" if "length q = 4096" for q
    unfolding add_dense_bumps using dense_incs_range that kp(3) by (intro overflow_only_bumps) fastforce
  then show "overflow_only b (merge_page b x u)"
    using wf_tableD [OF x(2)] by (auto simp: merge_page_def kp(1) overflow_only_bind split: option.split)
  show "wf_table u'" if "merge_page b x u = Inr u'" for u'
    using merge_page_Inr(1) [of b k p u u'] that kp x(2) by simp
qed (fact assms(2))

lemma overflow_only_merge_sparse:
  assumes "wf_sparse w" and "wf_table t"
  shows "overflow_only b (merge_sparse b w t)"
  unfolding merge_sparse_def
proof (rule overflow_only_fold [where P = wf_table])
  fix x u assume x: "x \<in> set w" "wf_table u"
  obtain k s where ks: "x = (k, s)" "page_of k = k" "\<forall>(i, c) \<in> set s. unat i < 4096"
    using assms(1) x(1) by (auto simp: wf_sparse_def)
  have "\<forall>(i, n) \<in> set (sparse_incs s). i < 4096" using ks(3) by (auto simp: sparse_incs_def)
  with x(2) show "overflow_only b (merge_sparse_page b x u)"
    by (simp add: ks(1) merge_sparse_page_add overflow_only_add)
  show "wf_table u'" if "merge_sparse_page b x u = Inr u'" for u'
    using that add_to_page_Inr(1) [of b k "sparse_incs s" u u'] ks x(2) by (simp add: merge_sparse_page_add)
qed (fact assms(2))

lemma table_of_hits: "res_fold (record_hit b) as t = Inr t' \<Longrightarrow> table_of b t \<Longrightarrow> table_of b t'"
  by (induction as arbitrary: t) (auto simp: res_simps intro: t_hit)

lemma table_of_decode:
  assumes "decode_with b L f data c t w = Some (Inr (cnt, t', c', w'))" and "table_of b t"
  shows "table_of b t'"
proof (cases "lib_new L data")
  case None
  with assms(1) show ?thesis by (simp add: decode_with_def)
next
  case (Some d)
  show ?thesis
  proof (cases "lib_sync_forward L d")
    case (Inl e)
    with assms Some show ?thesis by (simp add: decode_with_def)
  next
    case (Inr d1)
    from decode_with_run [OF assms(1) Some Inr] assms(2) table_of_hits show ?thesis by blast
  qed
qed

section \<open>Properties\<close>

text \<open>
  C30: every table the program can build, by hits, by decoding, by merging tables and by
  merging the replies of clients, has one entry a page, at a page address, of 4096 counters, and
  every reply has offsets inside the page; decoding keeps that; and on such tables recording a
  hit, merging a table and merging a reply never index out of bounds: they can fail only by the
  overflow of a counter, in a debug build, and in a release build not at all.
\<close>

theorem tables_typed:
  assumes "table_of b s" and "table_of b t" and "sparse_of b w"
  shows "wf_table t \<and> wf_sparse w \<and> wf_sparse (to_sparse t)
     \<and> overflow_only b (record_hit b a t) \<and> overflow_only b (merge_table b s t) \<and> overflow_only b (merge_sparse b w t)
     \<and> (\<forall>cnt t' c' x'. decode_with b L f data c t x = Some (Inr (cnt, t', c', x')) \<longrightarrow> table_of b t')"
proof -
  note wf = table_of_wf [OF assms(1)] table_of_wf [OF assms(2)] sparse_of_wf [OF assms(3)]
  have "overflow_only b (record_hit b a t)" "overflow_only b (merge_table b s t)" "overflow_only b (merge_sparse b w t)"
    using wf by (simp_all add: overflow_only_hit overflow_only_merge overflow_only_merge_sparse)
  moreover have "\<forall>cnt t' c' x'. decode_with b L f data c t x = Some (Inr (cnt, t', c', x')) \<longrightarrow> table_of b t'"
    by (intro allI impI) (erule table_of_decode, fact)
  ultimately show ?thesis using wf to_sparse_wf [OF wf(2)] by blast
qed

theorem tables_typed_witness:
  "\<exists>t. record_hit Debug 0x1005 [] = Inr t \<and> overflow_only Debug (merge_table Debug t t)
     \<and> overflow_only Debug (merge_sparse Debug (to_sparse t) t)"
proof -
  have "\<forall>x. unat (count_at [] x) + 1 < 2 ^ 64" by simp
  then obtain t where t: "record_hit Debug 0x1005 [] = Inr t" using record_hit_ok [OF wf_table_Nil] by blast
  then have "table_of Debug t" by (rule t_hit [OF t_new])
  note typed = tables_typed [OF this this s_reply [OF this], where L = script_lib and f = "const_reader 7"
      and a = 0 and data = "[]" and c = MemCacher_new]
  show ?thesis by (rule exI [of _ t]) (use t typed in simp)
qed

end
