(* ===== verification/Deployed.thy ===== *)
theory Deployed
  imports Server Session
begin

text \<open>
  The distributed program as a whole: the server (\<open>Server\<close>, \<open>src/src/bin/server.rs\<close>) with its
  splitters, its pool and the clients of the pool (\<open>client_pool.rs\<close>, \<open>client_agent.rs\<close>), each
  with its connection and the decoding client at the other end (\<open>Session\<close>,
  \<open>client_proc.rs\<close>). Every piece of a trace is somewhere, once, and the counts the server's
  agents hold are those of the pieces that were decoded.
\<close>

section \<open>State and steps\<close>

text \<open>
  \<open>wire\<close> holds both ends of a connection, the server's being that of the pool; the other fields
  of a link and \<open>given\<close>, \<open>early\<close> and \<open>fed_to\<close> are history: what happened on the server's side,
  which pieces the client decoded, which pieces the pool was given, those of them it was given
  before there was a client, and what each splitter was sent.
\<close>

record 'w link =
  wire :: "'w session"
  happened :: "agent_event list"
  decoded_jobs :: "(bytes \<times> sparse_table) list"

record 'w network =
  hub :: server
  links :: "'w link list"
  given :: "bytes list"
  early :: "bytes list"
  fed_to :: "nat \<Rightarrow> bytes list"

definition new_link :: "'w \<Rightarrow> 'w link" where
  "new_link w = \<lparr>wire = session_start w, happened = [], decoded_jobs = []\<rparr>"

definition publish_on :: "agent \<Rightarrow> bytes \<Rightarrow> 'w link \<Rightarrow> 'w link" where
  "publish_on a d l = l\<lparr>wire := srv_moves a (wire l), happened := happened l @ [Publish d]\<rparr>"

definition link_moves :: "'w session \<Rightarrow> agent_event list \<Rightarrow> (bytes \<times> sparse_table) list \<Rightarrow> 'w link \<Rightarrow> 'w link" where
  "link_moves s es js l = l\<lparr>wire := s, happened := happened l @ es, decoded_jobs := decoded_jobs l @ js\<rparr>"

text \<open>
  The pool and the splitters move as in \<open>Server\<close>; a link moves by a step of its session, but that
  only the pool publishes to it, and nothing in the program fetches from it or aborts it.
\<close>

inductive net_step ::
    "build \<Rightarrow> ('d, unit MemCacher \<times> unit) libipt
     \<Rightarrow> (usize \<Rightarrow> usize \<Rightarrow> u64 \<Rightarrow> usize \<Rightarrow> bytes \<Rightarrow> (usize \<times> bytes) res)
     \<Rightarrow> ('e, 'w MemCacher \<times> 'w) libipt \<Rightarrow> 'w asker \<Rightarrow> 'w \<Rightarrow> 'w network \<Rightarrow> 'w network \<Rightarrow> bool"
  for b L rm Lc ask w0 f where
  n_feed: "server_processor i buff sz (hub f) = Inr (go, s) \<Longrightarrow> net_step b L rm Lc ask w0 f
     (f\<lparr>hub := s, fed_to := (fed_to f)(i := fed_to f i @ (if sz > 0 then [take sz buff] else []))\<rparr>)"
| n_ctrl_c: "net_step b L rm Lc ask w0 f (f\<lparr>hub := (hub f)\<lparr>base := (base (hub f))\<lparr>G_STOP := True\<rparr>\<rparr>\<rparr>)"
| n_split: "server_split L i (hub f) = Some (Inr s) \<Longrightarrow> net_step b L rm Lc ask w0 f (f\<lparr>hub := s\<rparr>)"
| n_ids: "net_step b L rm Lc ask w0 f (f\<lparr>hub := server_set_ids dev_handle pid (hub f)\<rparr>)"
| n_start: "net_step b L rm Lc ask w0 f (f\<lparr>hub := start_pool ip_addr bound (hub f)\<rparr>)"
| n_hand: "pool_task (hub f) = Serving p pid h \<Longrightarrow> work_chan (base (hub f)) = d # ds
    \<Longrightarrow> select_client (clients p) = Inr (Some k) \<Longrightarrow> dispatch (hub f) = Some s
    \<Longrightarrow> pool_task s = Serving p' pid h \<Longrightarrow> clients p' ! k = Some a \<Longrightarrow> net_step b L rm Lc ask w0 f
     (f\<lparr>hub := s, given := given f @ [d], links := (links f)[k := publish_on a d (links f ! k)]\<rparr>)"
| n_drop: "pool_task (hub f) = Serving p pid h \<Longrightarrow> work_chan (base (hub f)) = d # ds
    \<Longrightarrow> select_client (clients p) = Inr None \<Longrightarrow> dispatch (hub f) = Some s
    \<Longrightarrow> net_step b L rm Lc ask w0 f (f\<lparr>hub := s, given := given f @ [d], early := early f @ [d]\<rparr>)"
| n_panic: "dispatch (hub f) = Some s \<Longrightarrow> pool_task s = Ended \<Longrightarrow> net_step b L rm Lc ask w0 f (f\<lparr>hub := s\<rparr>)"
| n_accept: "pool_task (hub f) = Serving p pid h \<Longrightarrow> accepting p \<Longrightarrow> net_step b L rm Lc ask w0 f
     (f\<lparr>hub := (hub f)\<lparr>pool_task := Serving (accept p) pid h\<rparr>, links := links f @ [new_link w0]\<rparr>)"
| n_link: "pool_task (hub f) = Serving p pid h \<Longrightarrow> k < length (links f)
    \<Longrightarrow> session_step b (rm pid h) Lc ask (wire (links f ! k)) es js s \<Longrightarrow> list_all own_event es
    \<Longrightarrow> net_step b L rm Lc ask w0 f
     (f\<lparr>hub := (hub f)\<lparr>pool_task := Serving (p\<lparr>clients := (clients p)[k := Some (srv s)]\<rparr>) pid h\<rparr>,
        links := (links f)[k := link_moves s es js (links f ! k)]\<rparr>)"

inductive net_reach ::
    "build \<Rightarrow> ('d, unit MemCacher \<times> unit) libipt
     \<Rightarrow> (usize \<Rightarrow> usize \<Rightarrow> u64 \<Rightarrow> usize \<Rightarrow> bytes \<Rightarrow> (usize \<times> bytes) res)
     \<Rightarrow> ('e, 'w MemCacher \<times> 'w) libipt \<Rightarrow> 'w asker \<Rightarrow> 'w \<Rightarrow> 'w network \<Rightarrow> bool"
  for b L rm Lc ask w0 where
  nr_start: "server_create_env b cpu_nums clock file_size dk = Inr s
    \<Longrightarrow> net_reach b L rm Lc ask w0 \<lparr>hub = s, links = [], given = [], early = [], fed_to = (\<lambda>i. [])\<rparr>"
| nr_step: "net_reach b L rm Lc ask w0 f \<Longrightarrow> net_step b L rm Lc ask w0 f f' \<Longrightarrow> net_reach b L rm Lc ask w0 f'"

section \<open>The links\<close>

definition link_ok ::
    "build \<Rightarrow> (u64 \<Rightarrow> usize \<Rightarrow> bytes \<Rightarrow> (usize \<times> bytes) res) \<Rightarrow> ('e, 'w MemCacher \<times> 'w) libipt \<Rightarrow> 'w asker \<Rightarrow> 'w
     \<Rightarrow> 'w link \<Rightarrow> bool" where
  "link_ok b rm Lc ask w0 l \<longleftrightarrow> session_run b rm Lc ask w0 (happened l) (decoded_jobs l) (wire l)
     \<and> fetched (happened l) = []"

definition links_inv ::
    "build \<Rightarrow> (usize \<Rightarrow> usize \<Rightarrow> u64 \<Rightarrow> usize \<Rightarrow> bytes \<Rightarrow> (usize \<times> bytes) res) \<Rightarrow> ('e, 'w MemCacher \<times> 'w) libipt
     \<Rightarrow> 'w asker \<Rightarrow> 'w \<Rightarrow> 'w network \<Rightarrow> bool" where
  "links_inv b rm Lc ask w0 f \<longleftrightarrow> (case pool_task (hub f) of
       Spawned \<Rightarrow> links f = [] \<and> given f = [] \<and> early f = []
     | Serving p pid h \<Rightarrow> clients p = map (\<lambda>l. Some (srv (wire l))) (links f)
         \<and> (\<forall>l \<in> set (links f). link_ok b (rm pid h) Lc ask w0 l)
         \<and> mset (given f) = mset (early f) + mset (concat (map (\<lambda>l. published (happened l)) (links f)))
     | Ended \<Rightarrow> True)"

lemma published_append [simp]: "published (es @ fs) = published es @ published fs"
  by (simp add: published_def)

lemma own_event_frame:
  assumes "list_all own_event es"
  shows "published es = []" and "fetched es = []"
proof -
  have "published es = [] \<and> fetched es = []"
    using assms by (induction es) (auto simp: published_def fetched_def own_event_def split: agent_event.splits)
  then show "published es = []" and "fetched es = []" by simp_all
qed

lemma session_step_srv:
  assumes "session_step b rm L ask s es js s'"
  shows "es = [] \<and> srv s' = srv s \<or> (\<exists>e. es = [e] \<and> agent_step b rm (srv s) e (srv s'))"
  using assms by cases (simp_all add: srv_moves_def cli_moves_def)

lemma mset_published_update:
  assumes "k < length ls"
  shows "mset (concat (map (\<lambda>l. published (happened l)) (ls[k := l'])))
     + mset (published (happened (ls ! k))) = mset (concat (map (\<lambda>l. published (happened l)) ls)) + mset (published (happened l'))"
  using assms by (induction ls arbitrary: k) (auto split: nat.split simp: nth_Cons ac_simps)

lemma dispatch_serving:
  assumes "dispatch s = Some s'" and "pool_task s = Serving p pid h" and "work_chan (base s) = d # ds"
  obtains r where "pool_decode d p = Some r"
    and "s' = s\<lparr>base := (base s)\<lparr>work_chan := ds\<rparr>, pool_task := (case r of Inl e \<Rightarrow> Ended | Inr p \<Rightarrow> Serving p pid h)\<rparr>"
  using assms by (auto simp: dispatch_def)

lemma dispatch_Some:
  assumes "dispatch s = Some s'"
  obtains p pid h d ds where "pool_task s = Serving p pid h" and "work_chan (base s) = d # ds"
  using assms by (auto simp: dispatch_def split: pool_task.splits list.splits)

text \<open>A piece that is handed out is published to the selected client.\<close>

lemma hand_publishes:
  assumes "pool_decode d p = Some (Inr p')" and "select_client (clients p) = Inr (Some k)"
    and "clients p = map (\<lambda>l. Some (srv (wire l))) ls" and "clients p' ! k = Some a"
  shows "k < length ls \<and> publish_task d (srv (wire (ls ! k))) = Some (Inr a) \<and> clients p' = (clients p)[k := Some a]"
proof -
  have k: "k < length (clients p)"
  proof -
    have ex: "first_free cs i = Inr (Some j) \<Longrightarrow> i \<le> j \<and> j < i + length cs" for cs i j
      by (induction cs i rule: first_free.induct) (fastforce simp: res_simps split: if_splits)+
    from assms(2) show ?thesis using ex [of "clients p" 0 k]
      by (cases "clients p") (auto simp: select_client_def res_simps split: option.splits if_splits)
  qed
  with assms show ?thesis by (auto simp: pool_decode_def map_sum_Inr_iff)
qed

lemma link_ok_moves:
  assumes "link_ok b rm Lc ask w0 l" and "session_step b rm Lc ask (wire l) es js s" and "fetched es = []"
  shows "link_ok b rm Lc ask w0 (link_moves s es js l)"
  using assms ss_next [OF _ assms(2)] by (simp add: link_ok_def link_moves_def fetched_append)

lemma link_ok_publish:
  assumes "link_ok b rm Lc ask w0 l" and "publish_task d (srv (wire l)) = Some (Inr a)"
  shows "link_ok b rm Lc ask w0 (publish_on a d l)"
proof -
  have "session_step b rm Lc ask (wire l) [Publish d] [] (srv_moves a (wire l))"
    by (rule st_server) (use assms(2) in simp_all)
  from link_ok_moves [OF assms(1) this] show ?thesis by (simp add: link_moves_def publish_on_def)
qed

lemma links_update:
  assumes "clients p = map (\<lambda>l. Some (srv (wire l))) ls" and "srv (wire l) = a"
  shows "(clients p)[k := Some a] = map (\<lambda>l. Some (srv (wire l))) (ls[k := l])"
  using assms by (simp add: map_update)

lemma links_inv_step:
  assumes inv: "links_inv b rm Lc ask w0 f" and step: "net_step b L rm Lc ask w0 f f'"
  shows "links_inv b rm Lc ask w0 f'"
  using step
proof cases
  case (n_feed i buff sz go s)
  then have "pool_task s = pool_task (hub f)" by (auto simp: server_processor_def res_simps)
  with inv n_feed show ?thesis by (simp add: links_inv_def split: pool_task.splits)
next
  case (n_split i s)
  then have "pool_task s = pool_task (hub f)" by (auto simp: server_split_def map_sum_Inr_iff)
  with inv n_split show ?thesis by (simp add: links_inv_def split: pool_task.splits)
next
  case (n_start ip_addr bound)
  with inv show ?thesis
    by (auto simp: links_inv_def start_pool_def start_server_def split: pool_task.splits option.splits)
next
  case (n_hand p pid h d ds k s p' a)
  from dispatch_serving [OF n_hand(5) n_hand(2,3)] n_hand(6) obtain r where r: "pool_decode d p = Some r"
    "s = (hub f)\<lparr>base := (base (hub f))\<lparr>work_chan := ds\<rparr>, pool_task := (case r of Inl e \<Rightarrow> Ended | Inr p \<Rightarrow> Serving p pid h)\<rparr>" by blast
  with n_hand(6) have dec: "pool_decode d p = Some (Inr p')" by (cases r) auto
  have I: "clients p = map (\<lambda>l. Some (srv (wire l))) (links f)" "\<forall>l \<in> set (links f). link_ok b (rm pid h) Lc ask w0 l"
    "mset (given f) = mset (early f) + mset (concat (map (\<lambda>l. published (happened l)) (links f)))"
    using inv n_hand(2) by (simp_all add: links_inv_def)
  note k = hand_publishes [OF dec n_hand(4) I(1) n_hand(7)]
  let ?l = "publish_on a d (links f ! k)"
  have ok: "link_ok b (rm pid h) Lc ask w0 ?l" using link_ok_publish I(2) k by (metis nth_mem)
  have "clients p' = map (\<lambda>l. Some (srv (wire l))) ((links f)[k := ?l])"
    using links_update [OF I(1), of ?l a k] k by (simp add: publish_on_def srv_moves_def)
  moreover have "\<forall>l \<in> set ((links f)[k := ?l]). link_ok b (rm pid h) Lc ask w0 l"
    using I(2) ok by (auto dest!: set_update_cases)
  moreover have "mset (concat (map (\<lambda>l. published (happened l)) ((links f)[k := ?l])))
      = mset (concat (map (\<lambda>l. published (happened l)) (links f))) + {#d#}"
    using mset_published_update [of k "links f" ?l] k by (simp add: publish_on_def published_def ac_simps)
  ultimately show ?thesis using n_hand(1,6) I(3) by (simp add: links_inv_def)
next
  case (n_drop p pid h d ds s)
  from dispatch_serving [OF n_drop(5) n_drop(2,3)] obtain r where r: "pool_decode d p = Some r"
    "s = (hub f)\<lparr>base := (base (hub f))\<lparr>work_chan := ds\<rparr>, pool_task := (case r of Inl e \<Rightarrow> Ended | Inr p \<Rightarrow> Serving p pid h)\<rparr>" by blast
  have "pool_decode d p = Some (Inr p)" using n_drop(4) by (simp add: pool_decode_def)
  with r have "pool_task s = Serving p pid h" by auto
  with inv n_drop(1,2) show ?thesis by (simp add: links_inv_def)
next
  case (n_accept p pid h)
  have "link_ok b (rm pid h) Lc ask w0 (new_link w0)" using ss_start by (simp add: link_ok_def new_link_def fetched_def)
  moreover have "clients (accept p) = clients p @ [Some (srv (wire (new_link w0)))]"
    using n_accept(3) by (simp add: accept_def Let_def new_link_def session_start_def)
  moreover have "published (happened (new_link w0)) = []" by (simp add: new_link_def published_def)
  ultimately show ?thesis using inv n_accept(1,2) by (auto simp: links_inv_def)
next
  case (n_link p pid h k es js s)
  have I: "clients p = map (\<lambda>l. Some (srv (wire l))) (links f)" "\<forall>l \<in> set (links f). link_ok b (rm pid h) Lc ask w0 l"
    "mset (given f) = mset (early f) + mset (concat (map (\<lambda>l. published (happened l)) (links f)))"
    using inv n_link(2) by (simp_all add: links_inv_def)
  let ?l = "link_moves s es js (links f ! k)"
  note own = own_event_frame [OF n_link(5)]
  have "link_ok b (rm pid h) Lc ask w0 ?l"
    using link_ok_moves [OF _ n_link(4) own(2)] I(2) nth_mem [OF n_link(3)] by blast
  then have "\<forall>l \<in> set ((links f)[k := ?l]). link_ok b (rm pid h) Lc ask w0 l"
    using I(2) by (auto dest!: set_update_cases)
  moreover have "(clients p)[k := Some (srv s)] = map (\<lambda>l. Some (srv (wire l))) ((links f)[k := ?l])"
    by (rule links_update [OF I(1)]) (simp add: link_moves_def)
  moreover have "mset (concat (map (\<lambda>l. published (happened l)) ((links f)[k := ?l])))
      = mset (concat (map (\<lambda>l. published (happened l)) (links f)))"
    using mset_published_update [OF n_link(3), of ?l] own(1) by (simp add: link_moves_def)
  ultimately show ?thesis using n_link(1) I(3) by (simp add: links_inv_def)
qed (use inv in \<open>auto simp: links_inv_def server_set_ids_def split: pool_task.splits\<close>)

lemma server_env_fields:
  assumes "server_create_env b n clock file_size dk = Inr s"
  shows "pool_task s = Spawned" and "PD (base s) = replicate n ProcessorData_new" and "work_chan (base s) = []"
  using assms by (auto simp: server_create_env_def Let_def res_simps split: prod.splits if_splits)

lemma links_inv_reach: "net_reach b L rm Lc ask w0 f \<Longrightarrow> links_inv b rm Lc ask w0 f"
proof (induction rule: net_reach.induct)
  case (nr_start cpu_nums clock file_size dk s)
  then show ?case using server_env_fields(1) by (fastforce simp: links_inv_def)
qed (rule links_inv_step)

section \<open>The server in it is that of \<open>Server\<close>\<close>

lemma net_server_step:
  assumes inv: "links_inv b rm Lc ask w0 f" and step: "net_step b L rm Lc ask w0 f f'"
  shows "hub f' = hub f \<or> server_step b L rm (hub f) (hub f')"
  using step
proof cases
  case (n_link p pid h k es js s)
  have I: "clients p = map (\<lambda>l. Some (srv (wire l))) (links f)" using inv n_link(2) by (simp add: links_inv_def)
  let ?cs = "take k (clients p)" and ?ds = "drop (Suc k) (clients p)"
  have split: "clients p = ?cs @ Some (srv (wire (links f ! k))) # ?ds"
    using id_take_nth_drop [of k "clients p"] n_link(3) by (simp add: I)
  have upd: "(clients p)[k := Some (srv s)] = ?cs @ Some (srv s) # ?ds"
    using n_link(3) by (simp add: I upd_conv_take_nth_drop)
  from session_step_srv [OF n_link(4)] show ?thesis
  proof (elim disjE exE conjE)
    assume "srv s = srv (wire (links f ! k))"
    then have "(clients p)[k := Some (srv s)] = clients p" unfolding upd using split by simp
    then show ?thesis using n_link(1,2) by simp
  next
    fix e assume e: "es = [e]" "agent_step b (rm pid h) (srv (wire (links f ! k))) e (srv s)"
    with n_link(5) have "own_event e" by simp
    from server_step.client [where b = b and L = L and rm = rm and cs = ?cs and ds = ?ds,
        OF n_link(2) split this e(2)] show ?thesis using n_link(1) upd by simp
  qed
qed (auto intro: server_step.intros)

lemma net_server_reach: "net_reach b L rm Lc ask w0 f \<Longrightarrow> server_reach b L rm (hub f)"
proof (induction rule: net_reach.induct)
  case (nr_step f f')
  from net_server_step [OF links_inv_reach [OF nr_step(1)] nr_step(2)] nr_step(3) show ?case
    using sr_step by metis
qed (auto intro: sr_start)

section \<open>The pieces\<close>

definition cut_inv :: "(bytes \<Rightarrow> nat list) \<Rightarrow> nat \<Rightarrow> (nat \<Rightarrow> bytes list) \<Rightarrow> bytes list \<Rightarrow> unit online \<Rightarrow> bool" where
  "cut_inv offs n fd gv st \<longleftrightarrow> length (PD st) = n \<and> (\<forall>i. [] \<notin> set (fd i)) \<and> (\<exists>handled.
     (\<forall>i < n. fd i = handled i @ tx_queue (PD st ! i)
        \<and> assemed_data (PD st ! i) = rest_of (concat (handled i)) (offs (concat (handled i))))
     \<and> mset (concat (map (\<lambda>i. segs offs (handled i)) [0..<n])) = mset gv + mset (work_chan st))"

lemma cut_inv_feed:
  assumes "cut_inv offs n fd gv st" and "processor i buff sz st = Inr (go, st')"
  shows "cut_inv offs n (fd(i := fd i @ (if sz > 0 then [take sz buff] else []))) gv st'"
proof (cases "sz > 0")
  case True
  with assms(2) have i: "i < length (PD st)" "sz \<le> length buff"
    and st': "st' = st\<lparr>PD := (PD st)[i := (PD st ! i)\<lparr>tx_queue := tx_queue (PD st ! i) @ [take sz buff]\<rparr>]\<rparr>"
    by (auto simp: processor_def index_at_def slice_def res_simps split: if_splits)
  from assms(1) obtain handled where h: "length (PD st) = n" "\<forall>i. [] \<notin> set (fd i)"
    "\<forall>i < n. fd i = handled i @ tx_queue (PD st ! i)
        \<and> assemed_data (PD st ! i) = rest_of (concat (handled i)) (offs (concat (handled i)))"
    "mset (concat (map (\<lambda>i. segs offs (handled i)) [0..<n])) = mset gv + mset (work_chan st)"
    unfolding cut_inv_def by blast
  have "take sz buff \<noteq> []" using True i(2) by auto
  with h(2) have "\<forall>j. [] \<notin> set ((fd(i := fd i @ [take sz buff])) j)" by simp
  moreover have "\<forall>j < n. (fd(i := fd i @ [take sz buff])) j = handled j @ tx_queue (PD st' ! j)
      \<and> assemed_data (PD st' ! j) = rest_of (concat (handled j)) (offs (concat (handled j)))"
    using h(1,3) by (simp add: st' nth_list_update)
  moreover have "length (PD st') = n" "work_chan st' = work_chan st" using h(1) by (simp_all add: st')
  ultimately show ?thesis using h(4) True unfolding cut_inv_def by auto
next
  case False
  with assms show ?thesis by (auto simp: processor_def index_at_def res_simps split: if_splits)
qed

lemma cut_inv_split:
  assumes inv: "cut_inv offs n fd gv st" and L: "syncs_at L offs" "sync_points offs"
    and step: "split_with L True i st = Some (Inr st')" and small: "\<forall>i < n. length (concat (fd i)) < 2 ^ 64"
  shows "cut_inv offs n fd gv st'"
proof (cases "i < n \<and> tx_queue (PD st ! i) \<noteq> []")
  case False
  with inv step show ?thesis by (auto simp: split_with_def cut_inv_def split: if_splits)
next
  case True
  then obtain d ds where q: "i < n" "tx_queue (PD st ! i) = d # ds" by (cases "tx_queue (PD st ! i)") auto
  from inv obtain handled where h: "length (PD st) = n" "\<forall>i. [] \<notin> set (fd i)"
    "\<forall>i < n. fd i = handled i @ tx_queue (PD st ! i)
        \<and> assemed_data (PD st ! i) = rest_of (concat (handled i)) (offs (concat (handled i)))"
    "mset (concat (map (\<lambda>i. segs offs (handled i)) [0..<n])) = mset gv + mset (work_chan st)"
    unfolding cut_inv_def by blast
  have fd: "fd i = handled i @ d # ds" using h(3) q by simp
  then have "d \<in> set (fd i)" by simp
  with h(2) have "d \<noteq> []" by metis
  moreover have "length (concat (handled i) @ d) < 2 ^ 64" using small [rule_format, OF q(1)] by (simp add: fd)
  moreover have "assemed_data (PD st ! i) = rest_of (concat (handled i)) (offs (concat (handled i)))" "i < length (PD st)"
    using h(1,3) q(1) by simp_all
  ultimately obtain new where new: "st' = st\<lparr>PD := (PD st)[i := (PD st ! i)\<lparr>tx_queue := ds,
        assemed_data := rest_of (concat (handled i @ [d])) (offs (concat (handled i @ [d])))\<rparr>], work_chan := work_chan st @ new\<rparr>"
    "segs offs (handled i @ [d]) = segs offs (handled i) @ new"
    using split_with_cuts [OF L _ q(2), of "handled i"] step by auto
  let ?handled = "handled(i := handled i @ [d])"
  have upd: "map (\<lambda>j. segs offs (?handled j)) [0..<n] = map ((\<lambda>j. segs offs (handled j))(i := segs offs (handled i) @ new)) [0..<n]"
    using new(2) by auto
  have "mset (concat (map (\<lambda>j. segs offs (?handled j)) [0..<n])) =
      mset (concat (map (\<lambda>j. segs offs (handled j)) [0..<n])) + mset new"
    unfolding upd by (rule mset_concat_update [OF q(1)])
  then have "mset (concat (map (\<lambda>j. segs offs (?handled j)) [0..<n])) = mset gv + mset (work_chan st @ new)"
    using h(4) by simp
  moreover have "\<forall>j < n. fd j = ?handled j @ tx_queue (PD st' ! j)
        \<and> assemed_data (PD st' ! j) = rest_of (concat (?handled j)) (offs (concat (?handled j)))"
    using h(1,3) fd q(1) by (auto simp: new(1) nth_list_update)
  ultimately show ?thesis using h(1,2) unfolding cut_inv_def
    by (intro conjI exI [of _ ?handled]) (simp_all add: new(1))
qed

lemma cut_inv_give:
  "cut_inv offs n fd gv st \<Longrightarrow> work_chan st = d # ds \<Longrightarrow> cut_inv offs n fd (gv @ [d]) (st\<lparr>work_chan := ds\<rparr>)"
  unfolding cut_inv_def by auto

lemma cut_inv_frame [simp]:
  "cut_inv offs n fd gv (st\<lparr>G_STOP := g\<rparr>) = cut_inv offs n fd gv st"
  "cut_inv offs n fd gv (st\<lparr>DEV_HANDLE := x, PID := y\<rparr>) = cut_inv offs n fd gv st"
  by (simp_all add: cut_inv_def)

lemma start_pool_base [simp]: "base (start_pool ip bound s) = base s"
  by (simp add: start_pool_def split: pool_task.split option.split sum.split)

lemma cut_inv_step:
  assumes inv: "cut_inv offs n (fed_to f) (given f) (base (hub f))" and step: "net_step b L rm Lc ask w0 f f'"
    and L: "syncs_at L offs" "sync_points offs" and live: "pool_task (hub f') \<noteq> Ended"
    and small: "\<forall>i < n. length (concat (fed_to f i)) < 2 ^ 64"
  shows "cut_inv offs n (fed_to f') (given f') (base (hub f'))"
  using step
proof cases
  case (n_feed i buff sz go s)
  then obtain st where st: "processor i buff sz (base (hub f)) = Inr (go, st)" "base s = st"
    by (auto simp: server_processor_def res_simps)
  from cut_inv_feed [OF inv st(1)] n_feed(1) st(2) show ?thesis by simp
next
  case (n_split i s)
  then obtain st where st: "split_with L (rx_open (hub f)) i (base (hub f)) = Some (Inr st)" "base s = st" "pool_task s = pool_task (hub f)"
    by (auto simp: server_split_def map_sum_Inr_iff)
  with live n_split(1) have "split_with L True i (base (hub f)) = Some (Inr st)" by (simp add: rx_open_def)
  from cut_inv_split [OF inv L this small] n_split(1) st(2) show ?thesis by simp
next
  case (n_hand p pid h d ds k s p' a)
  from dispatch_serving [OF n_hand(5) n_hand(2,3)] have "base s = (base (hub f))\<lparr>work_chan := ds\<rparr>" by fastforce
  with cut_inv_give [OF inv n_hand(3)] n_hand(1) show ?thesis by simp
next
  case (n_drop p pid h d ds s)
  from dispatch_serving [OF n_drop(5) n_drop(2,3)] have "base s = (base (hub f))\<lparr>work_chan := ds\<rparr>" by fastforce
  with cut_inv_give [OF inv n_drop(3)] n_drop(1) show ?thesis by simp
qed (use inv live in \<open>simp_all add: server_set_ids_def\<close>)

lemma net_step_fed:
  "net_step b L rm Lc ask w0 f f' \<Longrightarrow> length (concat (fed_to f i)) \<le> length (concat (fed_to f' i))"
  by (cases rule: net_step.cases) auto

lemma net_step_cpus:
  assumes "net_step b L rm Lc ask w0 f f'"
  shows "length (PD (base (hub f'))) = length (PD (base (hub f)))"
  using assms
proof cases
  case (n_feed i buff sz go s)
  then show ?thesis by (auto simp: server_processor_def processor_def res_simps split: if_splits)
next
  case (n_split i s)
  then show ?thesis
    by (auto simp: server_split_def split_with_def map_sum_Inr_iff split: if_splits list.splits)
next
  case (n_hand p pid h d ds k s p' a)
  with dispatch_serving [OF n_hand(5) n_hand(2,3)] show ?thesis by fastforce
next
  case (n_drop p pid h d ds s)
  with dispatch_serving [OF n_drop(5) n_drop(2,3)] show ?thesis by fastforce
next
  case (n_panic s)
  obtain p pid h d ds where pool: "pool_task (hub f) = Serving p pid h" "work_chan (base (hub f)) = d # ds"
    by (rule dispatch_Some [OF n_panic(2)])
  with dispatch_serving [OF n_panic(2) pool] n_panic(1) show ?thesis by fastforce
qed (simp_all add: server_set_ids_def)

lemma net_step_ended:
  assumes "net_step b L rm Lc ask w0 f f'" and "pool_task (hub f) = Ended"
  shows "pool_task (hub f') = Ended"
  using assms
proof cases
  case (n_feed i buff sz go s)
  with assms(2) show ?thesis by (auto simp: server_processor_def res_simps)
next
  case (n_split i s)
  with assms(2) show ?thesis by (auto simp: server_split_def map_sum_Inr_iff)
qed (use assms(2) in \<open>simp_all add: server_set_ids_def start_pool_def\<close>)

lemma cut_inv_reach:
  assumes "net_reach b L rm Lc ask w0 f" and L: "syncs_at L offs" "sync_points offs" and "pool_task (hub f) \<noteq> Ended"
    and "\<forall>i < length (PD (base (hub f))). length (concat (fed_to f i)) < 2 ^ 64"
  shows "cut_inv offs (length (PD (base (hub f)))) (fed_to f) (given f) (base (hub f))"
  using assms(1,4,5)
proof (induction rule: net_reach.induct)
  case (nr_start cpu_nums clock file_size dk s)
  have "offs [] = []" using sync_pointsD(2) [OF L(2), of _ "[]"] by (cases "offs []") auto
  then show ?case using server_env_fields [OF nr_start(1)]
    by (auto simp: cut_inv_def segs_def rest_of_def ProcessorData_new_def intro!: exI [of _ "\<lambda>i. []"])
next
  case (nr_step f f')
  have live: "pool_task (hub f) \<noteq> Ended" using net_step_ended [OF nr_step(2)] nr_step(4) by blast
  have "length (PD (base (hub f'))) = length (PD (base (hub f)))" by (rule net_step_cpus [OF nr_step(2)])
  moreover from this nr_step(5) have "\<forall>i < length (PD (base (hub f))). length (concat (fed_to f i)) < 2 ^ 64"
    using net_step_fed [OF nr_step(2)] le_less_trans by metis
  ultimately show ?case using cut_inv_step [OF nr_step.IH nr_step(2) L nr_step(4)] live by simp
qed

section \<open>Where the pieces and the counts are\<close>

definition under_way :: "'w session \<Rightarrow> bytes list" where
  "under_way s = task_chan (srv s) @ data_reqs (to_client s) @ queued (proc_queue (cli s))"

definition failed_sends :: "agent_event list \<Rightarrow> bytes list" where
  "failed_sends es = concat (map (\<lambda>e. case e of SendFails d \<Rightarrow> [d] | _ \<Rightarrow> []) es)"

definition counts_held :: "'w session \<Rightarrow> u64 \<Rightarrow> usize" where
  "counts_held s x = count_at (rst_data (srv s)) x + (\<Sum>t \<leftarrow> replies (to_server s). sparse_count_at t x)"

lemma mset_taken: "mset (taken es) = mset (forwarded es) + mset (failed_sends es)"
  by (induction es) (auto simp: taken_def forwarded_def failed_sends_def split: agent_event.split)

lemma link_pieces:
  assumes "link_ok b rm Lc ask w0 l"
  shows "mset (published (happened l)) =
     mset (failed_sends (happened l)) + mset (under_way (wire l)) + mset (map fst (decoded_jobs l))"
proof -
  from assms have ok: "session_ok b rm Lc ask (happened l) (decoded_jobs l) (wire l)"
    using session_inv by (auto simp: link_ok_def)
  then have "published (happened l) = taken (happened l) @ task_chan (srv (wire l))"
    using agent_pieces by (auto simp: session_ok_def)
  then show ?thesis using ok mset_taken [of "happened l"] by (simp add: session_ok_def under_way_def)
qed

lemma link_counts:
  assumes "link_ok b rm Lc ask w0 l" and "RecvPanics \<notin> set (happened l)"
  shows "\<exists>runs. list_all2 (worker_ran b Lc ask) (map fst (decoded_jobs l)) runs
     \<and> (\<forall>x. counts_held (wire l) x = of_nat (count_list (concat runs) x))"
  using session_counts [OF _ assms(2)] assms(1) by (fastforce simp: link_ok_def counts_held_def)

definition decoded :: "'w network \<Rightarrow> bytes list" where
  "decoded f = concat (map (\<lambda>l. map fst (decoded_jobs l)) (links f))"

lemma links_pieces:
  assumes "\<forall>l \<in> set ls. link_ok b rm Lc ask w0 l"
  shows "mset (concat (map (\<lambda>l. published (happened l)) ls)) =
     mset (concat (map (\<lambda>l. failed_sends (happened l)) ls)) + mset (concat (map (\<lambda>l. under_way (wire l)) ls))
     + mset (concat (map (\<lambda>l. map fst (decoded_jobs l)) ls))"
  using assms by (induction ls) (auto simp: link_pieces)

lemma links_counts:
  assumes "\<forall>l \<in> set ls. link_ok b rm Lc ask w0 l \<and> RecvPanics \<notin> set (happened l)"
  shows "\<exists>runs. list_all2 (worker_ran b Lc ask) (concat (map (\<lambda>l. map fst (decoded_jobs l)) ls)) runs
     \<and> (\<forall>x. (\<Sum>l \<leftarrow> ls. counts_held (wire l) x) = of_nat (count_list (concat runs) x))"
  using assms
proof (induction ls)
  case (Cons l ls)
  then obtain runs where runs: "list_all2 (worker_ran b Lc ask) (concat (map (\<lambda>l. map fst (decoded_jobs l)) ls)) runs"
    "\<forall>x. (\<Sum>l \<leftarrow> ls. counts_held (wire l) x) = of_nat (count_list (concat runs) x)" by auto
  from Cons.prems link_counts obtain rs where rs: "list_all2 (worker_ran b Lc ask) (map fst (decoded_jobs l)) rs"
    "\<forall>x. counts_held (wire l) x = of_nat (count_list (concat rs) x)" by (metis list.set_intros(1))
  from runs rs show ?case by (intro exI [of _ "rs @ runs"]) (simp add: list_all2_appendI)
qed simp

section \<open>Properties\<close>


text \<open>
  Also: a piece that reaches the pool before the first client has connected is
  taken from the channel and given to nobody.
\<close>

theorem early_pieces_lost:
  assumes "pool_task s = Serving p pid h" and "clients p = []" and "work_chan (base s) = d # ds"
  shows "dispatch s = Some (s\<lparr>base := (base s)\<lparr>work_chan := ds\<rparr>\<rparr>)"
  using assms by (cases s) (simp add: dispatch_def pool_decode_def select_client_def)

theorem early_pieces_lost_witness:
  "\<exists>s. pool_task s = Serving empty_pool 5 1 \<and> (\<exists>s'. dispatch s = Some s' \<and> work_chan (base s') = [])"
proof -
  obtain s0 where "server_create_env Debug 1 (\<lambda>_. 0) [] no_files = Inr s0" using server_env_ok by blast
  let ?s = "s0\<lparr>base := (base s0)\<lparr>work_chan := [[1]]\<rparr>, pool_task := Serving empty_pool 5 1\<rparr>"
  have "pool_task ?s = Serving empty_pool 5 1" "work_chan (base ?s) = [1] # []" "clients empty_pool = []"
    by (simp_all add: empty_pool_def)
  from early_pieces_lost [OF this(1,3,2)] show ?thesis by (intro exI [of _ ?s]) simp
qed

text \<open>A server with one client, which has been given the first piece of a trace.\<close>

lemma small_network:
  "\<exists>f. net_reach Release one_lib no_rm quiet_lib (\<lambda>_ _ w :: unit. (NoTaker, w)) () f
     \<and> pool_task (hub f) = Serving (pool_of [Some (ClientAgent_new\<lparr>task_chan := [psb @ [1]]\<rparr>)]) 0 0
     \<and> work_chan (base (hub f)) = [psb @ [2]] \<and> early f = [] \<and> decoded f = [] \<and> length (PD (base (hub f))) = 1
     \<and> fed_to f 0 = [demo_trace] \<and> tx_queue (PD (base (hub f)) ! 0) = []
     \<and> concat (map (\<lambda>l. failed_sends (happened l)) (links f)) = []
     \<and> concat (map (\<lambda>l. under_way (wire l)) (links f)) = [psb @ [1]]
     \<and> (\<forall>l \<in> set (links f). RecvPanics \<notin> set (happened l))"
proof -
  let ?reach = "net_reach Release one_lib no_rm quiet_lib (\<lambda>_ _ w :: unit. (NoTaker, w)) ()"
  obtain s0 where s0: "server_create_env Release 1 (\<lambda>_. 0) [] no_files = Inr s0" using server_env_ok by blast
  note fields = server_env_fields [OF s0]
  have ids: "PID (base s0) = 0" "DEV_HANDLE (base s0) = 0"
    using s0 by (auto simp: server_create_env_def Let_def res_simps split: prod.splits if_splits)
  let ?s1 = "start_pool (Some ''ip'') (\<lambda>a. True) s0"
  let ?f1 = "\<lparr>hub = ?s1, links = [], given = [], early = [], fed_to = (\<lambda>i. [])\<rparr> :: unit network"
  have p1: "pool_task ?s1 = Serving empty_pool 0 0"
    by (simp add: start_pool_def fields(1) start_server_def empty_pool_def ids)
  have "?reach ?f1" using nr_step [OF nr_start [OF s0] n_start] by simp
  let ?s2 = "?s1\<lparr>pool_task := Serving (accept empty_pool) 0 0\<rparr>" and ?l = "new_link () :: unit link"
  let ?f2 = "?f1\<lparr>hub := ?s2, links := [?l]\<rparr>"
  have "?reach ?f2"
    using nr_step [OF \<open>?reach ?f1\<close> n_accept [where p = empty_pool and pid = 0 and h = 0]] p1 by (simp add: empty_pool_def)
  let ?st = "(base s0)\<lparr>PD := [ProcessorData_new\<lparr>tx_queue := [demo_trace]\<rparr>]\<rparr>"
  have "server_processor 0 demo_trace 50 (hub ?f2) = Inr (\<not> G_STOP (base s0), ?s2\<lparr>base := ?st\<rparr>)"
    by (simp add: server_processor_def processor_def fields(2) index_at_def slice_def demo_trace(2) ProcessorData_new_def)
  note fed = nr_step [OF \<open>?reach ?f2\<close> n_feed [OF this]]
  let ?f3 = "?f2\<lparr>hub := ?s2\<lparr>base := ?st\<rparr>, fed_to := (\<lambda>i. [])(0 := [demo_trace])\<rparr>"
  have r3: "?reach ?f3" using fed by (simp add: demo_trace(2))
  have offs: "occurrences psb [] = []" using sync_pointsD(2) [OF psb_points, of _ "[]"] by (cases "occurrences psb []") auto
  have ne: "demo_trace \<noteq> []" "length (concat [] @ demo_trace) < 2 ^ 64" using demo_trace(2) by auto
  have "0 < length (PD ?st)" "tx_queue (PD ?st ! 0) = demo_trace # []"
    "assemed_data (PD ?st ! 0) = rest_of (concat []) (occurrences psb (concat []))"
    by (simp_all add: ProcessorData_new_def rest_of_def offs)
  from split_with_cuts [OF one_lib_syncs psb_points this ne] obtain new st4 where
    split: "split_with one_lib True 0 ?st = Some (Inr st4)" "work_chan st4 = new" "length (PD st4) = 1" "tx_queue (PD st4 ! 0) = []"
    and new: "segs (occurrences psb) [demo_trace] = segs (occurrences psb) [] @ new"
    by (auto simp: fields(3))
  have new': "new = [psb @ [1], psb @ [2]]" using new demo_pieces demo_trace(1) by (simp add: segs_def offs)
  have "server_split one_lib 0 (hub ?f3) = Some (Inr (?s2\<lparr>base := st4\<rparr>))"
    using split(1) by (simp add: server_split_def rx_open_def)
  note cut = nr_step [OF r3 n_split [OF this]]
  let ?f4 = "?f3\<lparr>hub := ?s2\<lparr>base := st4\<rparr>\<rparr>"
  have r4: "?reach ?f4" by (rule cut)
  have acc: "clients (accept empty_pool) = [Some ClientAgent_new]" by (simp add: accept_def empty_pool_def Let_def)
  have sel: "select_client (clients (accept empty_pool)) = Inr (Some 0)"
    unfolding acc by (simp add: select_client_def is_full_def ClientAgent_new_def)
  let ?a = "ClientAgent_new\<lparr>task_chan := [psb @ [1]]\<rparr>"
  let ?p = "(accept empty_pool)\<lparr>clients := [Some ?a]\<rparr>"
  have pub: "publish_task (psb @ [1]) ClientAgent_new = Some (Inr ?a)"
    by (simp add: publish_task_def ClientAgent_new_def)
  have dec: "pool_decode (psb @ [1]) (accept empty_pool) = Some (Inr ?p)"
    using sel pub by (simp add: pool_decode_def acc)
  have disp: "dispatch (hub ?f4) = Some ((hub ?f4)\<lparr>base := st4\<lparr>work_chan := [psb @ [2]]\<rparr>, pool_task := Serving ?p 0 0\<rparr>)"
    using dec by (simp add: dispatch_def split(2) new')
  have "pool_task (hub ?f4) = Serving (accept empty_pool) 0 0" "work_chan (base (hub ?f4)) = (psb @ [1]) # [psb @ [2]]"
    by (simp_all add: split(2) new')
  note handed = nr_step [OF r4 n_hand [OF this sel disp, of ?p ?a]]
  let ?f5 = "?f4\<lparr>hub := (hub ?f4)\<lparr>base := st4\<lparr>work_chan := [psb @ [2]]\<rparr>, pool_task := Serving ?p 0 0\<rparr>,
      given := [psb @ [1]], links := [publish_on ?a (psb @ [1]) ?l]\<rparr>"
  have r5: "?reach ?f5" using handed by simp
  have "?p = pool_of [Some ?a]" by (simp add: pool_of_def accept_def empty_pool_def Let_def)
  then have "pool_task (hub ?f5) = Serving (pool_of [Some ?a]) 0 0" by simp
  moreover have "concat (map (\<lambda>l. under_way (wire l)) (links ?f5)) = [psb @ [1]]"
    by (simp add: under_way_def publish_on_def new_link_def srv_moves_def session_start_def newly_sent_def ServerAgent_connect_def)
  ultimately show ?thesis using r5
    by (intro exI [of _ ?f5] conjI) (simp_all add: decoded_def publish_on_def new_link_def failed_sends_def split)
qed


end
