(* ===== verification/CaptureSteps.thy ===== *)
theory CaptureSteps
  imports FetchSteps Tracing
begin

text \<open>
  The capture loop of \<open>setup_pt_no_pmi\<close> (\<open>src/src/pt_ctrl/mod.rs\<close>) for all rings, with the
  hardware writing to any of them between any two memory accesses of the loop. \<open>Capture\<close> takes the
  visit of a ring as one step; here a step is one access of \<open>fetch_data\<close> (\<open>FetchSteps\<close>), or what
  the loop does when a fetch is over: advance the position, call the callback, look at the flags
  and go on to the next ring, or return.
\<close>

section \<open>State and steps\<close>

text \<open>
  \<open>busy\<close> is the fetch from ring \<open>current\<close>; the cells it works on are those of \<open>mem_rings\<close>, and its
  own field for them is left empty. Between fetches it holds the buffer all fetches share.
\<close>

record 'p racing =
  mem_rings :: "bytes list"
  hw_counts :: "nat list"
  positions :: "nat list"
  current :: nat
  flags :: "bool list"
  busy :: fetching
  cb_state :: 'p
  calls :: nat
  returned :: bool

definition racing_start :: "nat \<Rightarrow> nat \<Rightarrow> bytes \<Rightarrow> 'p \<Rightarrow> 'p racing" where
  "racing_start n len out st = \<lparr>mem_rings = replicate n (replicate len 0xFF), hw_counts = replicate n 0,
     positions = replicate n 0, current = 0, flags = replicate n False, busy = fetch_start [] 0 out,
     cb_state = st, calls = 0, returned = False\<rparr>"

text \<open>The fetch is over: the rest of the body of the inner loop, and the start of the next.\<close>

definition hand_over :: "'p processor \<Rightarrow> 'p racing \<Rightarrow> 'p racing res" where
  "hand_over pr s =
     (let i = current s; read_size = rst_size (busy s); tmp = out_buff (busy s); n = length (mem_rings s) in
      res_bind (index_at (mem_rings s) i) (\<lambda>mem.
      res_bind (index_at (positions s) i) (\<lambda>pos.
      if length mem = 0 then Inl RemByZero else
      res_bind (update_at (positions s) i ((pos + read_size) mod length mem)) (\<lambda>positions'.
      let (go_on, st) = pr (calls s) i tmp read_size (cb_state s);
          flags' = (if go_on then flags s else (flags s)[i := True]);
          last = (Suc i = n); nxt = (if last then 0 else Suc i)
      in Inr (s\<lparr>positions := positions', current := nxt, flags := (if last then replicate n False else flags'),
           busy := fetch_start [] (positions' ! nxt) tmp, cb_state := st, calls := calls s + 1,
           returned := \<not> go_on \<and> list_all (\<lambda>d. d = True) flags'\<rparr>)))))"

definition fetch_here :: "'p racing \<Rightarrow> fetching" where
  "fetch_here s = (busy s)\<lparr>ring_cells := mem_rings s ! current s\<rparr>"

definition accessed :: "fetching \<Rightarrow> 'p racing \<Rightarrow> 'p racing" where
  "accessed f s = s\<lparr>busy := f\<lparr>ring_cells := []\<rparr>, mem_rings := (mem_rings s)[current s := ring_cells f]\<rparr>"

definition capture_go :: "'p processor \<Rightarrow> 'p racing \<Rightarrow> 'p racing res" where
  "capture_go pr s =
     (if returned s then Inr s
      else if fetch_pc (busy s) = Stop then hand_over pr s
      else if current s < length (mem_rings s)
      then res_bind (fetch_step (fetch_here s)) (\<lambda>f. Inr (accessed f s))
      else Inl OutOfBounds)"

datatype capture_event = HwWrite nat u8 | Go

definition hw_write :: "nat \<Rightarrow> u8 \<Rightarrow> 'p racing \<Rightarrow> 'p racing" where
  "hw_write i x s = (if i < length (mem_rings s)
     then s\<lparr>mem_rings := (mem_rings s)[i := (mem_rings s ! i)[hw_counts s ! i mod length (mem_rings s ! i) := x]],
       hw_counts := (hw_counts s)[i := hw_counts s ! i + 1]\<rparr>
     else s)"

fun capture_step :: "'p processor \<Rightarrow> capture_event \<Rightarrow> 'p racing \<Rightarrow> 'p racing res" where
  "capture_step pr (HwWrite i x) s = Inr (hw_write i x s)"
| "capture_step pr Go s = capture_go pr s"

definition capture_events :: "'p processor \<Rightarrow> capture_event list \<Rightarrow> 'p racing \<Rightarrow> 'p racing res" where
  "capture_events pr es s = res_fold (capture_step pr) es s"

definition ring_written :: "nat \<Rightarrow> capture_event list \<Rightarrow> bytes" where
  "ring_written i es = concat (map (\<lambda>e. case e of HwWrite j x \<Rightarrow> if j = i then [x] else [] | Go \<Rightarrow> []) es)"

section \<open>The shape of the state\<close>

definition shape :: "nat \<Rightarrow> nat \<Rightarrow> nat \<Rightarrow> 'p racing \<Rightarrow> bool" where
  "shape n len m s \<longleftrightarrow> length (mem_rings s) = n \<and> length (hw_counts s) = n \<and> length (positions s) = n
     \<and> length (flags s) = n \<and> current s < n \<and> 0 < len \<and> (\<forall>i < n. length (mem_rings s ! i) = len)
     \<and> length (out_buff (busy s)) = m \<and> ring_cells (busy s) = []
     \<and> (fetch_pc (busy s) \<noteq> Stop \<longrightarrow> idx (busy s) < m)"

lemma fetch_start_fields [simp]: "ring_cells (fetch_start b p out) = b" "from_pos (fetch_start b p out) = p"
    "out_buff (fetch_start b p out) = out" "rst_size (fetch_start b p out) = 0" "idx (fetch_start b p out) = 0"
    "fetch_pc (fetch_start b p out) = (if 0 < length out then Check 0 else Stop)"
  by (simp_all add: fetch_start_def)

lemma fetch_here_simps [simp]: "fetch_pc (fetch_here s) = fetch_pc (busy s)" "idx (fetch_here s) = idx (busy s)"
    "out_buff (fetch_here s) = out_buff (busy s)" "from_pos (fetch_here s) = from_pos (busy s)"
    "rst_size (fetch_here s) = rst_size (busy s)" "ring_cells (fetch_here s) = mem_rings s ! current s"
  by (simp_all add: fetch_here_def)

lemma fetch_step_shape:
  assumes "idx f < length (out_buff f)" and "0 < length (ring_cells f)" and "fetch_pc f \<noteq> Stop"
  shows "\<exists>f'. fetch_step f = Inr f' \<and> length (out_buff f') = length (out_buff f)
     \<and> length (ring_cells f') = length (ring_cells f) \<and> from_pos f' = from_pos f
     \<and> (fetch_pc f' \<noteq> Stop \<longrightarrow> idx f' < length (out_buff f'))"
  using assms by (cases "fetch_pc f") (auto simp: fetch_step_def Let_def update_at_def)

lemma shape_start: "0 < n \<Longrightarrow> 0 < len \<Longrightarrow> shape n len (length out) (racing_start n len out st)"
  by (simp add: shape_def racing_start_def)

lemma shape_hw: "shape n len m s \<Longrightarrow> shape n len m (hw_write i x s)"
  by (auto simp: shape_def hw_write_def nth_list_update)

lemma shape_access:
  assumes sh: "shape n len m s" and pc: "fetch_pc (busy s) \<noteq> Stop"
  shows "\<exists>f. fetch_step (fetch_here s) = Inr f \<and> shape n len m (accessed f s)
     \<and> from_pos f = from_pos (busy s) \<and> length (out_buff f) = m"
proof -
  have "idx (fetch_here s) < length (out_buff (fetch_here s))" "0 < length (ring_cells (fetch_here s))" "fetch_pc (fetch_here s) \<noteq> Stop"
    using sh pc by (auto simp: shape_def)
  from fetch_step_shape [OF this] obtain f where f: "fetch_step (fetch_here s) = Inr f" "length (out_buff f) = m"
    "length (ring_cells f) = len" "from_pos f = from_pos (busy s)" "fetch_pc f \<noteq> Stop \<longrightarrow> idx f < m"
    using sh by (auto simp: shape_def)
  with sh have "shape n len m (accessed f s)" by (auto simp: shape_def accessed_def nth_list_update)
  with f show ?thesis by blast
qed

text \<open>What handing over does, with the callback's answer.\<close>

lemma hand_over_ok:
  assumes sh: "shape n len m s"
  obtains go_on st s' where "pr (calls s) (current s) (out_buff (busy s)) (rst_size (busy s)) (cb_state s) = (go_on, st)"
    and "hand_over pr s = Inr s'" and "shape n len m s'"
    and "mem_rings s' = mem_rings s" "hw_counts s' = hw_counts s"
    and "positions s' = (positions s)[current s := (positions s ! current s + rst_size (busy s)) mod len]"
    and "current s' = (if Suc (current s) = n then 0 else Suc (current s))"
    and "busy s' = fetch_start [] (positions s' ! current s') (out_buff (busy s))"
    and "cb_state s' = st" "calls s' = Suc (calls s)"
    and "flags s' = (if Suc (current s) = n then replicate n False
        else if go_on then flags s else (flags s)[current s := True])"
    and "returned s' = (\<not> go_on \<and> list_all (\<lambda>d. d = True) ((flags s)[current s := True]))"
proof -
  obtain go_on st where pr: "pr (calls s) (current s) (out_buff (busy s)) (rst_size (busy s)) (cb_state s) = (go_on, st)"
    by (cases "pr (calls s) (current s) (out_buff (busy s)) (rst_size (busy s)) (cb_state s)")
  have len: "length (mem_rings s ! current s) = len" "0 < len" "current s < n" "length (mem_rings s) = n" "length (positions s) = n"
    using sh by (auto simp: shape_def)
  then have ne: "mem_rings s ! current s \<noteq> []" by auto
  let ?ps = "(positions s)[current s := (positions s ! current s + rst_size (busy s)) mod len]"
  let ?nxt = "if Suc (current s) = n then 0 else Suc (current s)"
  let ?s' = "s\<lparr>positions := ?ps, current := ?nxt,
     flags := (if Suc (current s) = n then replicate n False else if go_on then flags s else (flags s)[current s := True]),
     busy := fetch_start [] (?ps ! ?nxt) (out_buff (busy s)), cb_state := st, calls := calls s + 1,
     returned := \<not> go_on \<and> list_all (\<lambda>d. d = True) ((flags s)[current s := True])\<rparr>"
  have "hand_over pr s = Inr ?s'"
    using len ne by (simp add: hand_over_def index_at_def update_at_def pr Let_def)
  moreover have "shape n len m ?s'" using sh by (auto simp: shape_def)
  ultimately show ?thesis by (rule that [OF pr]) simp_all
qed

section \<open>Each ring by itself\<close>

text \<open>
  What the loop does to ring \<open>i\<close> is a run of \<open>FetchSteps\<close>: the ring with the fetch that works on
  it, or with the one that will come next.
\<close>

definition ring_view :: "nat \<Rightarrow> ('p \<times> deliveries) racing \<Rightarrow> race" where
  "ring_view i s = \<lparr>fetch = (if i = current s then fetch_here s
       else fetch_start (mem_rings s ! i) (positions s ! i) (out_buff (busy s))),
     hw_count = hw_counts s ! i, handed = delivered i (snd (cb_state s))\<rparr>"

definition racing_inv :: "nat \<Rightarrow> nat \<Rightarrow> nat \<Rightarrow> (nat \<Rightarrow> bytes) \<Rightarrow> ('p \<times> deliveries) racing \<Rightarrow> bool" where
  "racing_inv n len m ws s \<longleftrightarrow> shape n len m s \<and> from_pos (busy s) = positions s ! current s
     \<and> (\<forall>i < n. \<exists>pending. race_inv (ring_view i s) (ws i) pending)"

text \<open>The hardware does not write a cell whose byte has not been taken.\<close>

definition has_room :: "nat \<Rightarrow> ('p \<times> deliveries) racing \<Rightarrow> bool" where
  "has_room i s \<longleftrightarrow> hw_counts s ! i < length (mem_rings s ! i) + length (delivered i (snd (cb_state s)))
     + (if i = current s then rst_size (busy s) else 0)"

fun keeps_ahead :: "'p processor \<Rightarrow> capture_event list \<Rightarrow> ('p \<times> deliveries) racing \<Rightarrow> bool" where
  "keeps_ahead pr [] s = True"
| "keeps_ahead pr (e # es) s \<longleftrightarrow>
     (case e of HwWrite i x \<Rightarrow> i < length (mem_rings s) \<longrightarrow> has_room i s | Go \<Rightarrow> True)
     \<and> (case capture_step (logged pr) e s of Inl err \<Rightarrow> True | Inr s' \<Rightarrow> keeps_ahead pr es s')"

lemma race_inv_fresh:
  assumes "race_inv \<lparr>fetch = fetch_start b p out, hw_count = h, handed = d\<rparr> ws pending" and "length out' = length out"
  shows "race_inv \<lparr>fetch = fetch_start b p out', hw_count = h, handed = d\<rparr> ws pending"
  using assms by (auto simp: race_inv_def Let_def split: if_splits)

lemma racing_hw:
  assumes inv: "racing_inv n len m ws s" and room: "i < length (mem_rings s) \<longrightarrow> has_room i s"
  shows "racing_inv n len m (\<lambda>j. ws j @ (if j = i then [x] else [])) (hw_write i x s)
     \<or> length (mem_rings s) \<le> i"
proof (cases "i < length (mem_rings s)")
  case True
  from inv have sh: "shape n len m s" and pos: "from_pos (busy s) = positions s ! current s" by (simp_all add: racing_inv_def)
  then have n: "length (mem_rings s) = n" "length (hw_counts s) = n" by (simp_all add: shape_def)
  have "\<exists>pending. race_inv (ring_view j (hw_write i x s)) (ws j @ (if j = i then [x] else [])) pending" if j: "j < n" for j
  proof -
    obtain pending where p: "race_inv (ring_view j s) (ws j) pending" using inv j by (auto simp: racing_inv_def)
    show ?thesis
    proof (cases "j = i")
      case False
      then have "ring_view j (hw_write i x s) = ring_view j s"
        using True by (simp add: ring_view_def hw_write_def fetch_here_def)
      with p False show ?thesis by auto
    next
      case eq: True
      have "hw_count (ring_view j s) < length (ring_cells (fetch (ring_view j s))) + length (handed (ring_view j s)) + rst_size (fetch (ring_view j s))"
        using room True eq by (auto simp: ring_view_def has_room_def)
      from race_hw [OF p this, of x] have "race_inv (ring_view j s\<lparr>fetch := (fetch (ring_view j s))\<lparr>ring_cells := (ring_cells (fetch (ring_view j s)))
              [hw_count (ring_view j s) mod length (ring_cells (fetch (ring_view j s))) := x]\<rparr>, hw_count := hw_count (ring_view j s) + 1\<rparr>)
          (ws j @ [x]) (pending @ [x])" by simp
      also have "ring_view j s\<lparr>fetch := (fetch (ring_view j s))\<lparr>ring_cells := (ring_cells (fetch (ring_view j s)))
              [hw_count (ring_view j s) mod length (ring_cells (fetch (ring_view j s))) := x]\<rparr>, hw_count := hw_count (ring_view j s) + 1\<rparr>
          = ring_view j (hw_write i x s)"
        using True n eq by (simp add: ring_view_def hw_write_def fetch_here_def fetch_start_def)
      finally show ?thesis using eq by auto
    qed
  qed
  with shape_hw [OF sh, of i x] pos show ?thesis by (simp add: racing_inv_def) (simp add: hw_write_def)
qed simp

lemma racing_access:
  assumes inv: "racing_inv n len m ws s" and pc: "fetch_pc (busy s) \<noteq> Stop" and nr: "\<not> returned s"
  shows "\<exists>s'. capture_go pr s = Inr s' \<and> racing_inv n len m ws s' \<and> cb_state s' = cb_state s
     \<and> calls s' = calls s \<and> returned s' = returned s"
proof -
  from inv have sh: "shape n len m s" and pos: "from_pos (busy s) = positions s ! current s" by (simp_all add: racing_inv_def)
  from shape_access [OF sh pc] obtain f where f: "fetch_step (fetch_here s) = Inr f" "shape n len m (accessed f s)"
    "from_pos f = from_pos (busy s)" "length (out_buff f) = m" by blast
  have cur: "current s < length (mem_rings s)" "length (mem_rings s) = n" "length (out_buff (busy s)) = m" using sh by (simp_all add: shape_def)
  have "\<exists>pending. race_inv (ring_view j (accessed f s)) (ws j) pending" if j: "j < n" for j
  proof -
    obtain pending where p: "race_inv (ring_view j s) (ws j) pending" using inv j by (auto simp: racing_inv_def)
    show ?thesis
    proof (cases "j = current s")
      case False
      have "race_inv (ring_view j (accessed f s)) (ws j) pending"
        using race_inv_fresh [of "mem_rings s ! j" "positions s ! j" "out_buff (busy s)" _ _ _ _ "out_buff f"] p False f(4) cur
        by (simp add: ring_view_def accessed_def)
      then show ?thesis by blast
    next
      case True
      from race_access [OF p] f(1) True obtain pending' where
        "race_inv (ring_view j s\<lparr>fetch := f\<rparr>) (ws j) pending'" by (auto simp: ring_view_def)
      moreover have "ring_view j s\<lparr>fetch := f\<rparr> = ring_view j (accessed f s)"
        using True cur by (simp add: ring_view_def accessed_def fetch_here_def)
      ultimately show ?thesis by auto
    qed
  qed
  with f pos have "racing_inv n len m ws (accessed f s)" by (simp add: racing_inv_def) (simp add: accessed_def)
  moreover have "cb_state (accessed f s) = cb_state s" "calls (accessed f s) = calls s" "returned (accessed f s) = returned s"
    by (simp_all add: accessed_def)
  ultimately show ?thesis using f(1) pc nr cur by (simp add: capture_go_def)
qed

text \<open>
  What every call of the callback keeps, with the time and whether the loop has returned, which
  it does only when the callback refuses.
\<close>

definition calls_keep :: "nat \<Rightarrow> nat \<Rightarrow> 'p processor \<Rightarrow> (nat \<Rightarrow> bool \<Rightarrow> 'p \<Rightarrow> bool) \<Rightarrow> bool" where
  "calls_keep n m pr P \<longleftrightarrow> (\<forall>t i tmp k p r. i < n \<longrightarrow> length tmp = m \<longrightarrow> k \<le> m \<longrightarrow> P t False p
     \<longrightarrow> (r \<longrightarrow> \<not> fst (pr t i tmp k p)) \<longrightarrow> P (Suc t) r (snd (pr t i tmp k p)))"

lemma calls_keep_all [simp]: "calls_keep n m pr (\<lambda>_ _ _. True)"
  by (simp add: calls_keep_def)

lemma racing_hand_over:
  assumes inv: "racing_inv n len m ws s" and pc: "fetch_pc (busy s) = Stop" and nr: "\<not> returned s"
    and keep: "calls_keep n m (logged pr) P" "P (calls s) (returned s) (cb_state s)"
  shows "\<exists>s'. capture_go (logged pr) s = Inr s' \<and> racing_inv n len m ws s' \<and> P (calls s') (returned s') (cb_state s')"
proof -
  from inv have sh: "shape n len m s" and pos: "from_pos (busy s) = positions s ! current s" by (simp_all add: racing_inv_def)
  then have n: "current s < n" "length (mem_rings s) = n" "length (positions s) = n" "length (mem_rings s ! current s) = len"
    by (simp_all add: shape_def)
  obtain go_on st s' where
    pr: "logged pr (calls s) (current s) (out_buff (busy s)) (rst_size (busy s)) (cb_state s) = (go_on, st)"
    and s': "hand_over (logged pr) s = Inr s'" "shape n len m s'" "mem_rings s' = mem_rings s" "hw_counts s' = hw_counts s"
      "positions s' = (positions s)[current s := (positions s ! current s + rst_size (busy s)) mod len]"
      "current s' = (if Suc (current s) = n then 0 else Suc (current s))"
      "busy s' = fetch_start [] (positions s' ! current s') (out_buff (busy s))" "cb_state s' = st" "calls s' = Suc (calls s)"
      "flags s' = (if Suc (current s) = n then replicate n False else if go_on then flags s else (flags s)[current s := True])"
      "returned s' = (\<not> go_on \<and> list_all (\<lambda>d. d = True) ((flags s)[current s := True]))"
    by (rule hand_over_ok [OF sh, where pr = "logged pr"])
  have log: "snd st = snd (cb_state s) @ [(current s, take (rst_size (busy s)) (out_buff (busy s)))]"
    using pr by (auto simp: logged_def split: prod.splits)
  have view: "ring_view j s' = \<lparr>fetch = fetch_start (mem_rings s ! j) (positions s' ! j) (out_buff (busy s)),
      hw_count = hw_counts s ! j, handed = delivered j (snd st)\<rparr>" for j
    using s'(3,4,7,8) by (auto simp: ring_view_def fetch_here_def fetch_start_def)
  have "\<exists>pending. race_inv (ring_view j s') (ws j) pending" if j: "j < n" for j
  proof -
    obtain pending where p: "race_inv (ring_view j s) (ws j) pending" using inv j by (auto simp: racing_inv_def)
    show ?thesis
    proof (cases "j = current s")
      case False
      with p view [of j] show ?thesis by (auto simp: ring_view_def s'(5) log)
    next
      case True
      have "0 < len" using sh by (simp add: shape_def)
      with race_again [OF p] True pc n have "race_inv (ring_view j s\<lparr>fetch := fetch_start (mem_rings s ! j) ((from_pos (busy s) + rst_size (busy s)) mod len) (out_buff (busy s)),
          handed := delivered j (snd (cb_state s)) @ take (rst_size (busy s)) (out_buff (busy s))\<rparr>) (ws j) pending"
        by (auto simp: ring_view_def)
      moreover have "ring_view j s' = ring_view j s\<lparr>fetch := fetch_start (mem_rings s ! j) ((from_pos (busy s) + rst_size (busy s)) mod len) (out_buff (busy s)),
          handed := delivered j (snd (cb_state s)) @ take (rst_size (busy s)) (out_buff (busy s))\<rparr>"
        unfolding view using True n by (simp add: s'(5) log pos) (simp add: ring_view_def)
      ultimately show ?thesis by auto
    qed
  qed
  with s'(2,7) have inv': "racing_inv n len m ws s'" by (simp add: racing_inv_def)
  obtain pending where "race_inv (ring_view (current s) s) (ws (current s)) pending"
    using inv n(1) by (auto simp: racing_inv_def)
  then have "rst_size (busy s) \<le> length (out_buff (busy s))" by (auto simp: race_inv_def Let_def ring_view_def)
  then have "rst_size (busy s) \<le> m" "length (out_buff (busy s)) = m" using sh by (simp_all add: shape_def)
  moreover have "returned s' \<longrightarrow> \<not> fst (logged pr (calls s) (current s) (out_buff (busy s)) (rst_size (busy s)) (cb_state s))"
    by (simp add: pr s'(11))
  moreover have "P (calls s) False (cb_state s)" using keep(2) nr by simp
  ultimately have "P (Suc (calls s)) (returned s')
      (snd (logged pr (calls s) (current s) (out_buff (busy s)) (rst_size (busy s)) (cb_state s)))"
    using keep(1) n(1) unfolding calls_keep_def by blast
  then have "P (calls s') (returned s') (cb_state s')" by (simp add: pr s'(8,9))
  with inv' show ?thesis using s'(1) pc nr by (simp add: capture_go_def)
qed

lemma racing_run:
  assumes "racing_inv n len m ws s" and "keeps_ahead pr es s" and "P (calls s) (returned s) (cb_state s)"
    and "calls_keep n m (logged pr) P"
  shows "\<exists>s'. capture_events (logged pr) es s = Inr s' \<and> racing_inv n len m (\<lambda>i. ws i @ ring_written i es) s'
     \<and> P (calls s') (returned s') (cb_state s')"
  using assms(1-3)
proof (induction es arbitrary: s ws)
  case Nil
  then show ?case by (simp add: capture_events_def ring_written_def)
next
  case (Cons e es)
  have "\<exists>s1. capture_step (logged pr) e s = Inr s1 \<and> racing_inv n len m (\<lambda>i. ws i @ ring_written i [e]) s1
     \<and> P (calls s1) (returned s1) (cb_state s1)"
  proof (cases e)
    case (HwWrite i x)
    have "cb_state (hw_write i x s) = cb_state s" "calls (hw_write i x s) = calls s" "returned (hw_write i x s) = returned s"
      by (simp_all add: hw_write_def)
    note P = Cons.prems(3) [folded this]
    show ?thesis
    proof (cases "i < length (mem_rings s)")
      case True
      with racing_hw [OF Cons.prems(1), of i x] Cons.prems(2) HwWrite P show ?thesis
        by (simp add: ring_written_def) (simp only: eq_commute)
    next
      case False
      with Cons.prems(1) have "\<forall>j < n. j \<noteq> i" by (auto simp: racing_inv_def shape_def)
      with Cons.prems(1,3) False HwWrite show ?thesis by (auto simp: hw_write_def racing_inv_def ring_written_def)
    qed
  next
    case Go
    have "\<exists>s1. capture_go (logged pr) s = Inr s1 \<and> racing_inv n len m ws s1 \<and> P (calls s1) (returned s1) (cb_state s1)"
    proof (cases "returned s")
      case True
      with Cons.prems(1,3) show ?thesis by (simp add: capture_go_def)
    next
      case False
      with racing_access [OF Cons.prems(1) _ False, of "logged pr"] racing_hand_over [OF Cons.prems(1) _ False assms(4) Cons.prems(3)]
      show ?thesis using Cons.prems(3) by (cases "fetch_pc (busy s) = Stop") auto
    qed
    with Go show ?thesis by (simp add: ring_written_def)
  qed
  then obtain s1 where s1: "capture_step (logged pr) e s = Inr s1" "racing_inv n len m (\<lambda>i. ws i @ ring_written i [e]) s1"
    "P (calls s1) (returned s1) (cb_state s1)" by blast
  with Cons.prems(2) have "keeps_ahead pr es s1" by simp
  from Cons.IH [OF s1(2) this s1(3)] s1(1) show ?case by (simp add: capture_events_def ring_written_def)
qed

lemma racing_start_inv:
  assumes "0 < n" and "0 < len"
  shows "racing_inv n len (length out) (\<lambda>_. []) (racing_start n len out (st, []))" (is "racing_inv _ _ _ _ ?s")
proof -
  have "ring_view i ?s = race_start len out" if "i < n" for i
    using that assms(1) by (simp add: ring_view_def racing_start_def race_start_def fetch_here_def fetch_start_def)
  with race_start_inv [OF assms(2)] have "\<forall>i < n. \<exists>pending. race_inv (ring_view i ?s) [] pending" by metis
  moreover have "from_pos (busy ?s) = positions ?s ! current ?s" using assms(1) by (simp add: racing_start_def)
  ultimately show ?thesis
    using shape_start [OF assms, of out "(st, [])"] unfolding racing_inv_def by blast
qed

lemma racing_inv_written:
  assumes "racing_inv n len m ws s"
  shows "\<forall>i < n. \<exists>pending. ws i = delivered i (snd (cb_state s))
          @ (if i = current s then take (rst_size (busy s)) (out_buff (busy s)) else []) @ pending
        \<and> length pending \<le> len"
proof (intro allI impI)
  fix i assume i: "i < n"
  from assms i obtain pending where p: "race_inv (ring_view i s) (ws i) pending" by (auto simp: racing_inv_def)
  have "length (mem_rings s ! i) = len" using assms i by (simp add: racing_inv_def shape_def)
  with p show "\<exists>pending. ws i = delivered i (snd (cb_state s))
          @ (if i = current s then take (rst_size (busy s)) (out_buff (busy s)) else []) @ pending \<and> length pending \<le> len"
    by (intro exI [of _ pending]) (auto simp: race_inv_def Let_def ring_view_def)
qed

text \<open>Hardware that writes no more than a ring full never laps.\<close>

lemma capture_go_keeps:
  assumes "shape n len m s"
  shows "\<exists>s'. capture_go pr s = Inr s' \<and> shape n len m s' \<and> hw_counts s' = hw_counts s"
proof (cases "returned s")
  case False
  show ?thesis
  proof (cases "fetch_pc (busy s) = Stop")
    case True
    from hand_over_ok [OF assms, of pr] obtain s' where "hand_over pr s = Inr s'" "shape n len m s'" "hw_counts s' = hw_counts s" by metis
    with True False show ?thesis by (simp add: capture_go_def)
  next
    case running: False
    from shape_access [OF assms running] obtain f where "fetch_step (fetch_here s) = Inr f" "shape n len m (accessed f s)" by blast
    moreover have "current s < length (mem_rings s)" using assms by (simp add: shape_def)
    ultimately show ?thesis using running False
      by (intro exI [of _ "accessed f s"]) (simp add: capture_go_def, simp add: accessed_def)
  qed
qed (use assms in \<open>simp add: capture_go_def\<close>)

lemma keeps_ahead_once:
  assumes "shape n len m s" and "\<forall>i < n. hw_counts s ! i + length (ring_written i es) \<le> len"
  shows "keeps_ahead pr es s"
  using assms
proof (induction es arbitrary: s)
  case (Cons e es)
  show ?case
  proof (cases e)
    case (HwWrite i x)
    have "has_room i s" if "i < n"
      using Cons.prems spec [OF Cons.prems(2), of i] that HwWrite by (simp add: has_room_def shape_def ring_written_def)
    moreover have "\<forall>j < n. hw_counts (hw_write i x s) ! j + length (ring_written j es) \<le> len"
      using Cons.prems HwWrite by (auto simp: hw_write_def ring_written_def shape_def nth_list_update)
    from Cons.IH [OF shape_hw [OF Cons.prems(1)] this] have "keeps_ahead pr es (hw_write i x s)" .
    ultimately show ?thesis using Cons.prems(1) HwWrite by (simp add: shape_def)
  next
    case Go
    from capture_go_keeps [OF Cons.prems(1), of "logged pr"] obtain s' where
      s': "capture_go (logged pr) s = Inr s'" "shape n len m s'" "hw_counts s' = hw_counts s" by blast
    with Cons.IH [OF s'(2)] Cons.prems(2) Go show ?thesis by (simp add: ring_written_def)
  qed
qed simp

section \<open>The loop ends\<close>

text \<open>
  A fetch makes at most thirteen steps for each byte of the buffer: ten reads, the answer to
  them, the copy and the mark. \<open>to_go\<close> bounds what is left of one.
\<close>

definition to_go :: "fetching \<Rightarrow> nat" where
  "to_go f = (let left = 13 * (length (out_buff f) - idx f) in
     case fetch_pc f of Check j \<Rightarrow> left - min j 10 | Copy \<Rightarrow> left - 11 | Mark \<Rightarrow> left - 12 | Stop \<Rightarrow> 0)"

definition progress :: "nat \<Rightarrow> 'p racing \<Rightarrow> nat" where
  "progress m s = (13 * m + 1) * calls s + (13 * m - to_go (busy s))"

lemma to_go_le: "to_go f \<le> 13 * length (out_buff f)"
  by (auto simp: to_go_def Let_def split: fetch_pc.split)

lemma to_go_fields [simp]: "to_go (f\<lparr>ring_cells := b\<rparr>) = to_go f" "to_go (fetch_here s) = to_go (busy s)"
  by (simp_all add: to_go_def)

lemma to_go_step:
  assumes "fetch_step f = Inr f'" and "fetch_pc f \<noteq> Stop" and "idx f < length (out_buff f)"
  shows "Suc (to_go f') \<le> to_go f"
proof -
  have le: "13 * (length (out_buff f) - idx f) = 13 + 13 * (length (out_buff f) - Suc (idx f))"
    using assms(3) by (simp add: Suc_diff_Suc [symmetric])
  show ?thesis
  proof (cases "fetch_pc f")
    case (Check j)
    then have "f' = f\<lparr>fetch_pc := Stop\<rparr> \<and> 10 \<le> j \<or> f' = f\<lparr>fetch_pc := Copy\<rparr> \<and> j < 10
        \<or> f' = f\<lparr>fetch_pc := Check (j + 1)\<rparr> \<and> j < 10"
      using assms(1) by (auto simp: fetch_step_def Let_def split: if_splits)
    with Check le show ?thesis by (auto simp: to_go_def)
  next
    case Copy
    then have "fetch_pc f' = Mark" "idx f' = idx f" "length (out_buff f') = length (out_buff f)"
      using assms(1) by (auto simp: fetch_step_def Let_def update_at_def res_simps split: if_splits)
    with Copy le show ?thesis by (simp add: to_go_def)
  next
    case Mark
    then have "fetch_pc f' = Check 0 \<or> fetch_pc f' = Stop" "idx f' = Suc (idx f)" "out_buff f' = out_buff f"
      using assms(1) by (auto simp: fetch_step_def Let_def split: if_splits)
    with Mark le show ?thesis by (auto simp: to_go_def)
  qed (use assms(2) in simp)
qed

text \<open>
  While the loop has not returned: the round it is in began before the callback refused
  everything, or all it has visited in this round were refused. \<open>calls s - current s\<close> is the
  number of calls made when the round began.
\<close>

definition not_over :: "nat \<Rightarrow> nat \<Rightarrow> (nat \<Rightarrow> 'p \<Rightarrow> bool) \<Rightarrow> 'p racing \<Rightarrow> bool" where
  "not_over n T S s \<longleftrightarrow> S (calls s) (cb_state s) \<and> current s \<le> calls s \<and> calls s - current s < T + n
     \<and> (T \<le> calls s - current s \<longrightarrow> (\<forall>k < current s. flags s ! k))"

lemma not_over_hand:
  assumes sh: "shape n len m s" and ok: "not_over n T S s" and rf: "refuses_from T S pr" and pc: "fetch_pc (busy s) = Stop"
  shows "\<exists>s'. hand_over pr s = Inr s' \<and> shape n len m s' \<and> (returned s' \<or> not_over n T S s') \<and> calls s' = Suc (calls s)
     \<and> progress m s < progress m s'"
proof -
  obtain go_on st s' where
    pr: "pr (calls s) (current s) (out_buff (busy s)) (rst_size (busy s)) (cb_state s) = (go_on, st)"
    and s': "hand_over pr s = Inr s'" "shape n len m s'" "mem_rings s' = mem_rings s" "hw_counts s' = hw_counts s"
      "positions s' = (positions s)[current s := (positions s ! current s + rst_size (busy s)) mod len]"
      "current s' = (if Suc (current s) = n then 0 else Suc (current s))"
      "busy s' = fetch_start [] (positions s' ! current s') (out_buff (busy s))" "cb_state s' = st" "calls s' = Suc (calls s)"
      "flags s' = (if Suc (current s) = n then replicate n False else if go_on then flags s else (flags s)[current s := True])"
      "returned s' = (\<not> go_on \<and> list_all (\<lambda>d. d = True) ((flags s)[current s := True]))"
    by (rule hand_over_ok [OF sh, where pr = pr])
  have n: "current s < n" "length (flags s) = n" "length (out_buff (busy s)) = m" using sh by (simp_all add: shape_def)
  have st: "S (Suc (calls s)) st" and refuse: "T \<le> calls s \<Longrightarrow> \<not> go_on"
    using rf ok pr unfolding refuses_from_def not_over_def by (metis fst_conv snd_conv)+
  have "not_over n T S s'" if nr: "\<not> returned s'"
  proof (cases "Suc (current s) = n")
    case True
    have "\<not> T \<le> calls s - current s"
    proof
      assume T: "T \<le> calls s - current s"
      with ok have "\<forall>k < current s. flags s ! k" by (simp add: not_over_def)
      with True n have "list_all (\<lambda>d. d = True) ((flags s)[current s := True])"
        by (auto simp: list_all_length nth_list_update less_Suc_eq)
      with nr refuse T s'(11) show False by simp
    qed
    with True ok st s' show ?thesis by (auto simp: not_over_def)
  next
    case False
    have "\<forall>k < Suc (current s). flags s' ! k" if T: "T \<le> calls s - current s"
    proof -
      from T ok have "\<forall>k < current s. flags s ! k" by (simp add: not_over_def)
      with refuse T False n s'(10) show ?thesis by (auto simp: nth_list_update less_Suc_eq)
    qed
    with False ok st s' show ?thesis by (auto simp: not_over_def)
  qed
  moreover have "progress m s < progress m s'"
    using pc s'(7,9) n(3) by (simp add: progress_def to_go_def)
  ultimately show ?thesis using s' by blast
qed

lemma not_over_go:
  assumes sh: "shape n len m s" and ok: "not_over n T S s" and rf: "refuses_from T S pr" and nr: "\<not> returned s"
  shows "\<exists>s'. capture_go pr s = Inr s' \<and> shape n len m s' \<and> (returned s' \<or> not_over n T S s')
     \<and> progress m s < progress m s' \<and> calls s' \<le> Suc (calls s)"
proof (cases "fetch_pc (busy s) = Stop")
  case True
  from not_over_hand [OF sh ok rf True] True nr show ?thesis by (auto simp: capture_go_def)
next
  case False
  from shape_access [OF sh False] obtain f where f: "fetch_step (fetch_here s) = Inr f" "shape n len m (accessed f s)"
    "length (out_buff f) = m" by blast
  have cur: "current s < length (mem_rings s)" "length (out_buff (busy s)) = m" "idx (busy s) < m" using sh False by (simp_all add: shape_def)
  have "Suc (to_go f) \<le> to_go (busy s)" using to_go_step [OF f(1)] False cur by simp
  with to_go_le [of "busy s"] cur(2) have "progress m s < progress m (accessed f s)" by (simp add: progress_def accessed_def)
  moreover have "not_over n T S (accessed f s)" using ok by (simp add: not_over_def accessed_def)
  ultimately show ?thesis using f False nr cur(1)
    by (intro exI [of _ "accessed f s"]) (simp add: capture_go_def, simp add: accessed_def)
qed

lemma not_over_hw [simp]: "not_over n T S (hw_write i x s) = not_over n T S s" "progress m (hw_write i x s) = progress m s"
    "returned (hw_write i x s) = returned s" "calls (hw_write i x s) = calls s"
  by (simp_all add: not_over_def progress_def hw_write_def)

lemma progress_bound: "not_over n T S s \<Longrightarrow> shape n len m s \<Longrightarrow> progress m s < (13 * m + 1) * (T + 2 * n)"
proof -
  assume ok: "not_over n T S s" and sh: "shape n len m s"
  then have "Suc (calls s) \<le> T + 2 * n" by (auto simp: not_over_def shape_def)
  then have "(13 * m + 1) * Suc (calls s) \<le> (13 * m + 1) * (T + 2 * n)" by (rule mult_le_mono2)
  then show ?thesis by (simp add: progress_def)
qed

lemma capture_events_ends:
  assumes "refuses_from T S pr" and "shape n len m s" and "\<not> returned s \<longrightarrow> not_over n T S s" and "calls s \<le> T + 2 * n"
  shows "\<exists>s'. capture_events pr es s = Inr s' \<and> calls s' \<le> T + 2 * n
     \<and> (returned s' \<or> (not_over n T S s' \<and> shape n len m s' \<and> progress m s + length (filter (\<lambda>e. e = Go) es) \<le> progress m s'))"
  using assms(2-4)
proof (induction es arbitrary: s)
  case Nil
  then show ?case by (auto simp: capture_events_def)
next
  case (Cons e es)
  show ?case
  proof (cases e)
    case (HwWrite i x)
    with Cons.IH [of "hw_write i x s"] shape_hw [OF Cons.prems(1)] Cons.prems show ?thesis
      by (simp add: capture_events_def)
  next
    case Go
    show ?thesis
    proof (cases "returned s")
      case True
      then have "\<exists>s'. capture_events pr es s = Inr s' \<and> returned s' \<and> calls s' \<le> T + 2 * n" if "calls s \<le> T + 2 * n"
        using that
      proof (induction es arbitrary: s)
        case (Cons e es)
        then show ?case by (cases e) (auto simp: capture_events_def capture_go_def)
      qed (simp add: capture_events_def)
      with Cons.prems True Go show ?thesis by (auto simp: capture_events_def capture_go_def)
    next
      case False
      with Cons.prems have ok: "not_over n T S s" by blast
      then have "Suc (calls s) \<le> T + 2 * n" using Cons.prems(1) by (auto simp: not_over_def shape_def)
      with not_over_go [OF Cons.prems(1) ok assms(1) False] obtain s1 where
        s1: "capture_go pr s = Inr s1" "shape n len m s1" "returned s1 \<or> not_over n T S s1" "progress m s < progress m s1"
          "calls s1 \<le> T + 2 * n" by auto
      from Cons.IH [of s1] s1 Go show ?thesis by (auto simp: capture_events_def)
    qed
  qed
qed

lemma capture_ends:
  assumes "0 < n" and "0 < len" and "refuses_from T S pr" and "S 0 st"
    and "(13 * length out + 1) * (T + 2 * n) \<le> length (filter (\<lambda>e. e = Go) es)"
  shows "\<exists>s. capture_events pr es (racing_start n len out st) = Inr s \<and> returned s \<and> calls s \<le> T + 2 * n"
proof -
  let ?s = "racing_start n len out st" and ?m = "length out"
  have "not_over n T S ?s" and "calls ?s \<le> T + 2 * n" using assms(1,4) by (simp_all add: not_over_def racing_start_def)
  with capture_events_ends [OF assms(3) shape_start [OF assms(1,2)]] obtain s where
    s: "capture_events pr es ?s = Inr s" "calls s \<le> T + 2 * n"
      "returned s \<or> (not_over n T S s \<and> shape n len ?m s \<and> progress ?m ?s + length (filter (\<lambda>e. e = Go) es) \<le> progress ?m s)"
    by blast
  have "returned s"
  proof (rule ccontr)
    assume "\<not> returned s"
    with s(3) progress_bound [of n T S s len ?m] assms(5) show False by linarith
  qed
  with s show ?thesis by blast
qed

section \<open>Without the hardware a visit is one step\<close>

lemma accessed_accessed [simp]:
  "accessed f (accessed g s) = accessed f s" "returned (accessed g s) = returned s" "current (accessed g s) = current s"
  by (simp_all add: accessed_def)

lemma fetch_here_accessed: "current s < length (mem_rings s) \<Longrightarrow> fetch_here (accessed f s) = f"
  by (simp add: fetch_here_def accessed_def)

lemma go_steps:
  assumes "shape n len m s" and "\<not> returned s" and "fetch_steps k (fetch_here s) = Inr f"
  shows "\<exists>k'. capture_events pr (replicate k' Go) s = Inr (accessed f s) \<and> shape n len m (accessed f s)"
  using assms
proof (induction k arbitrary: s)
  case 0
  then have "accessed f s = s" by (auto simp: accessed_def fetch_here_def shape_def)
  with 0 show ?case by (intro exI [of _ 0]) (simp add: capture_events_def)
next
  case (Suc k)
  show ?case
  proof (cases "fetch_pc (busy s) = Stop")
    case True
    with Suc.prems(3) have "fetch_steps k (fetch_here s) = Inr f" by (simp add: fetch_step_def)
    from Suc.IH [OF Suc.prems(1,2) this] show ?thesis .
  next
    case False
    from shape_access [OF Suc.prems(1) False] obtain f1 where f1: "fetch_step (fetch_here s) = Inr f1"
      "shape n len m (accessed f1 s)" by blast
    have cur: "current s < length (mem_rings s)" using Suc.prems(1) by (simp add: shape_def)
    with f1 Suc.prems(3) have "fetch_steps k (fetch_here (accessed f1 s)) = Inr f" by (simp add: fetch_here_accessed)
    from Suc.IH [OF f1(2) _ this] Suc.prems(2) obtain k' where
      "capture_events pr (replicate k' Go) (accessed f1 s) = Inr (accessed f s)" "shape n len m (accessed f s)" by auto
    then show ?thesis using False f1(1) Suc.prems(2) cur
      by (intro exI [of _ "Suc k'"]) (simp add: capture_events_def capture_go_def)
  qed
qed

text \<open>The state of the capture between two visits, and that of the loop before the first access.\<close>

definition between_visits :: "PtSetupRst \<Rightarrow> 'p capture \<Rightarrow> 'p racing \<Rightarrow> bool" where
  "between_visits rsp c s \<longleftrightarrow> read_pos c = positions s \<and> tmp_buff c = out_buff (busy s) \<and> proc_st c = cb_state s
     \<and> tick c = calls s \<and> busy s = fetch_start [] (positions s ! current s) (out_buff (busy s))
     \<and> (\<forall>i < length (mem_rings s). take (unat (out_buffer_len rsp)) (mapped c (out_buffer_info rsp ! i)) = mem_rings s ! i)"

section \<open>Properties\<close>

text \<open>
  C7: as long as the hardware is quiet, the accesses the loop makes for a ring
  and what it does when they are over are the one step \<open>visit\<close> of the capture loop in
  \<open>Capture\<close>: the same positions, buffer, rings and callback state, the flag and the next ring
  accordingly, and the loop returns when the last ring was refused as all before it were.
\<close>

theorem visit_is_accesses:
  assumes "shape n (unat (out_buffer_len rsp)) m s" and "between_visits rsp c s" and "\<not> returned s"
    and "n \<le> length (out_buffer_info rsp)" and "distinct (take n (out_buffer_info rsp))"
  shows "\<exists>k go_on c' s'. visit (\<lambda>_ mem. mem) pr rsp (current s) c = Inr (go_on, c')
     \<and> capture_events pr (replicate k Go) s = Inr s' \<and> between_visits rsp c' s'
     \<and> current s' = Suc (current s) mod n
     \<and> returned s' = (\<not> go_on \<and> list_all (\<lambda>d. d = True) ((flags s)[current s := True]))"
proof -
  let ?i = "current s" and ?len = "unat (out_buffer_len rsp)"
  let ?a = "out_buffer_info rsp ! ?i" and ?pos = "positions s ! ?i"
  note sh = assms(1)
  from sh have n: "length (mem_rings s) = n" "?i < n" "0 < ?len" "length (mem_rings s ! ?i) = ?len" "length (positions s) = n"
    by (simp_all add: shape_def)
  from assms(2) have c: "read_pos c = positions s" "tmp_buff c = out_buff (busy s)" "proc_st c = cb_state s" "tick c = calls s"
    and fresh: "busy s = fetch_start [] ?pos (out_buff (busy s))"
    and rings: "\<And>i. i < n \<Longrightarrow> take ?len (mapped c (out_buffer_info rsp ! i)) = mem_rings s ! i"
    using n(1) by (simp_all add: between_visits_def)
  have long: "\<not> length (mapped c ?a) < ?len" using arg_cong [OF rings [OF n(2)], of length] n(4) by simp
  have "0 < length (mem_rings s ! ?i)" using n by simp
  from fetch_steps_fetch_data [OF this, of ?pos "out_buff (busy s)"] obtain k j out' buff' sz where
    fd: "fetch_data (mem_rings s ! ?i) ?pos (out_buff (busy s)) = Inr (sz, out', buff')"
    and fs: "fetch_steps k (fetch_start (mem_rings s ! ?i) ?pos (out_buff (busy s))) =
      Inr \<lparr>ring_cells = buff', from_pos = ?pos, idx = j, fetch_pc = Stop, out_buff = out', rst_size = sz\<rparr>" (is "_ = Inr ?f") by blast
  have "fetch_here s = fetch_start (mem_rings s ! ?i) ?pos (out_buff (busy s))"
    unfolding fetch_here_def by (subst fresh) (simp add: fetch_start_def)
  from go_steps [OF sh assms(3), of k ?f pr] fs this obtain k' where
    go: "capture_events pr (replicate k' Go) s = Inr (accessed ?f s)" and sh1: "shape n ?len m (accessed ?f s)" by auto
  let ?s1 = "accessed ?f s"
  have s1: "calls ?s1 = calls s" "current ?s1 = ?i" "busy ?s1 = ?f\<lparr>ring_cells := []\<rparr>" "cb_state ?s1 = cb_state s"
    "positions ?s1 = positions s" "flags ?s1 = flags s" "mem_rings ?s1 = (mem_rings s)[?i := buff']" "\<not> returned ?s1"
    using assms(3) by (simp_all add: accessed_def)
  have buff': "length buff' = ?len" using fetch_data_size(2) [OF fd] n by simp
  obtain go_on st s' where
    pr: "pr (calls ?s1) (current ?s1) (out_buff (busy ?s1)) (rst_size (busy ?s1)) (cb_state ?s1) = (go_on, st)"
    and s': "hand_over pr ?s1 = Inr s'" "shape n ?len m s'" "mem_rings s' = mem_rings ?s1" "hw_counts s' = hw_counts ?s1"
      "positions s' = (positions ?s1)[current ?s1 := (positions ?s1 ! current ?s1 + rst_size (busy ?s1)) mod ?len]"
      "current s' = (if Suc (current ?s1) = n then 0 else Suc (current ?s1))"
      "busy s' = fetch_start [] (positions s' ! current s') (out_buff (busy ?s1))" "cb_state s' = st" "calls s' = Suc (calls ?s1)"
      "flags s' = (if Suc (current ?s1) = n then replicate n False else if go_on then flags ?s1 else (flags ?s1)[current ?s1 := True])"
      "returned s' = (\<not> go_on \<and> list_all (\<lambda>d. d = True) ((flags ?s1)[current ?s1 := True]))"
    by (rule hand_over_ok [OF sh1, where pr = pr])
  let ?c' = "\<lparr>read_pos = (positions s)[?i := (?pos + sz) mod ?len], tmp_buff = out',
     mapped = (mapped c)(?a := buff' @ drop ?len (mapped c ?a)), proc_st = st, tick = calls s + 1\<rparr>"
  have "visit (\<lambda>_ mem. mem) pr rsp ?i c = Inr (go_on, ?c')"
    using n assms(4) c long rings fd pr s1 by (simp add: visit_def index_at_def update_at_def Let_def)
  moreover have "capture_events pr (replicate k' Go @ [Go]) s = Inr s'"
    using go s'(1) s1 by (simp add: capture_events_def res_fold_append capture_go_def)
  then have "capture_events pr (replicate (Suc k') Go) s = Inr s'" by (simp add: replicate_append_same)
  moreover have "out_buffer_info rsp ! i \<noteq> ?a" if "i < n" "i \<noteq> ?i" for i
    using nth_eq_iff_index_eq [OF assms(5), of i ?i] that n(2) assms(4) by simp
  then have "between_visits rsp ?c' s'"
    using s' s1 n rings buff' by (auto simp: between_visits_def nth_list_update)
  moreover have "current s' = Suc ?i mod n" using s'(6) s1 n(2) by auto
  ultimately show ?thesis using s'(11) s1(2,6) by (metis (no_types, lifting))
qed

text \<open>One ring of two bytes that nothing is written to, and a callback that refuses at once.\<close>

theorem visit_is_accesses_witness:
  "\<exists>k s'. capture_events (\<lambda>t i d n p. (False, p)) (replicate k Go) (racing_start 1 2 [0, 0] ()) = Inr s' \<and> returned s'"
proof -
  let ?rsp = "PtSetupRst_default\<lparr>out_buff_num := 1, out_buffer_len := 2\<rparr>"
  let ?s = "racing_start 1 2 [0, 0] ()"
  let ?c = "\<lparr>read_pos = [0], tmp_buff = [0, 0], mapped = \<lambda>_. [0xFF, 0xFF], proc_st = (), tick = 0\<rparr>"
  have len: "unat (out_buffer_len ?rsp) = 2" and info: "1 \<le> length (out_buffer_info ?rsp)"
    by (simp_all add: PtSetupRst_default_def MAX_CPU_NUM_def)
  have sh: "shape 1 (unat (out_buffer_len ?rsp)) (length [0, 0 :: u8]) ?s"
    unfolding len by (rule shape_start) simp_all
  moreover have "between_visits ?rsp ?c ?s"
    unfolding between_visits_def len by (simp add: racing_start_def numeral_2_eq_2)
  moreover have "\<not> returned ?s" by (simp add: racing_start_def)
  moreover have "distinct (take 1 (out_buffer_info ?rsp))" by (cases "out_buffer_info ?rsp") simp_all
  ultimately obtain k go_on c' s' where "visit (\<lambda>_ mem. mem) (\<lambda>t i d n p. (False, p)) ?rsp (current ?s) ?c = Inr (go_on, c')"
    "capture_events (\<lambda>t i d n p. (False, p)) (replicate k Go) ?s = Inr s'"
    "returned s' = (\<not> go_on \<and> list_all (\<lambda>d. d = True) ((flags ?s)[current ?s := True]))"
    using visit_is_accesses [where n = 1 and rsp = ?rsp and s = ?s and c = ?c and pr = "\<lambda>t i d n p. (False, p)"
      and m = "length [0, 0 :: u8]"] info by blast
  moreover from this(1) have "\<not> go_on" by (auto dest: visit_InrD simp: Let_def)
  ultimately show ?thesis by (auto simp: racing_start_def)
qed


text \<open>Two rings of two bytes; the first is written to while it is read, the second is half read.\<close>

definition busy_rings :: "capture_event list" where
  "busy_rings = [HwWrite 0 7, Go, HwWrite 1 3, Go, HwWrite 0 9, Go, Go, Go, HwWrite 0 5, Go, Go, HwWrite 1 4, Go, Go, Go]"




end
