(* ===== verification/OnlineSteps.thy ===== *)
theory OnlineSteps
  imports OnlineMain CaptureSteps
begin

text \<open>
  The online processor (\<open>src/src/bin/online_proc.rs\<close>) with the capture loop at the granularity of
  its memory accesses: its callback runs inside the loop of \<open>CaptureSteps\<close>, while the hardware
  writes to the rings between any two accesses and the other threads take steps between any two
  calls. \<open>OnlineMain\<close> has the same result for the capture that visits a ring in one step.
\<close>

section \<open>The callback in the loop\<close>

lemma online_calls_keep:
  assumes "\<forall>t. no_feeds (others t)"
  shows "calls_keep n m (logged (online_callback b L ctl_code ioctl ptr others))
    (\<lambda>t r p. \<exists>es. follows b L ctl_code ioctl ptr n st0 es p)"
proof (unfold calls_keep_def, intro allI impI)
  fix t i k p and tmp :: bytes
  assume "i < n" "length tmp = m" "k \<le> m" "\<exists>es. follows b L ctl_code ioctl ptr n st0 es p"
  then obtain es where fol: "follows b L ctl_code ioctl ptr n st0 es (fst p, snd p)" by auto
  let ?cb = "online_callback b L ctl_code ioctl ptr others t i tmp k (fst p)"
  from follows_snoc [OF fol assms, of "fst ?cb" "snd ?cb" t i tmp k] \<open>i < n\<close> \<open>length tmp = m\<close> \<open>k \<le> m\<close>
  show "\<exists>es. follows b L ctl_code ioctl ptr n st0 es (snd (logged (online_callback b L ctl_code ioctl ptr others) t i tmp k p))"
    by (simp add: logged_def case_prod_unfold Let_def)
qed

lemma online_racing:
  assumes se: "online_setting L offs nxt ctl_code ioctl ptr h pid mem"
    and env: "create_env b n clock file_size h pid dk w = Inr st0" and n: "2 \<le> n" "n < 2 ^ 64" and len: "0 < len"
    and others: "\<forall>t. no_feeds (others t)" "CtrlC \<in> set (others T)"
    and ahead: "keeps_ahead (online_callback b L ctl_code ioctl ptr others) es (racing_start n len out (Some (Inr st0), []))"
    and steps: "(13 * length out + 1) * (T + 2 * n) \<le> length (filter (\<lambda>e. e = Go) es)"
    and fe: "feasible_traces L offs nxt ips_of n (\<lambda>i. ring_written i es)"
  shows "\<exists>s os st seen. capture_events (logged (online_callback b L ctl_code ioctl ptr others)) es
        (racing_start n len out (Some (Inr st0), [])) = Inr s \<and> returned s \<and> fst (cb_state s) = Some (Inr st)
     \<and> online_run b L ctl_code ioctl ptr os st0 = Some (Inr st) \<and> feasible L offs nxt ips_of n os
     \<and> all_pieces offs n os = trace_pieces offs n seen
     \<and> (\<forall>i < n. \<exists>unread. ring_written i es = seen i @ unread)"
proof -
  let ?pr = "online_callback b L ctl_code ioctl ptr others"
  let ?s = "racing_start n len out (Some (Inr st0), [] :: deliveries)"
  have n0: "0 < n" using n by simp
  have "follows b L ctl_code ioctl ptr n st0 [] (Some (Inr st0), [])" by (simp add: follows_def)
  then have "\<exists>os. follows b L ctl_code ioctl ptr n st0 os (cb_state ?s)" unfolding racing_start_def by auto
  from racing_run [OF racing_start_inv [OF n0 len] ahead this online_calls_keep [OF others(1)]] obtain s os where
    run: "capture_events (logged ?pr) es ?s = Inr s" and inv: "racing_inv n len (length out) (\<lambda>i. ring_written i es) s"
    and fol: "follows b L ctl_code ioctl ptr n st0 os (cb_state s)" by auto
  define dl where "dl = snd (cb_state s)"
  from capture_ends [OF n0 len logged_refuses [OF online_client.client_refuses [where T = T and others = others
      and b = b and L = L and ctl_code = ctl_code and ioctl = ioctl and ptr = ptr]] _ steps,
      where st = "(Some (Inr st0), [])"] others(2) run have ret: "returned s" by auto
  from fol have os: "online_run b L ctl_code ioctl ptr os st0 = fst (cb_state s)"
    "\<And>i. \<exists>rest. blocks_of i dl = fed i os @ rest" "\<forall>e \<in> set os. ok_event n e"
    and all: "\<And>st i. fst (cb_state s) = Some (Inr st) \<Longrightarrow> blocks_of i dl = fed i os"
    by (auto simp: follows_def dl_def case_prod_unfold)
  have del: "\<exists>unread. ring_written i es = delivered i dl @ unread" if "i < n" for i
    using racing_inv_written [OF inv] that unfolding dl_def by blast
  have "\<exists>rest. ring_written i es = concat (fed i os) @ rest" if "i < n" for i
    using del [OF that] os(2) [of i] by (auto simp: delivered_def)
  then have "feasible_traces L offs nxt ips_of n (\<lambda>i. concat (fed i os))"
    using feasible_traces_prefix [OF _ fe] se by (simp add: online_setting_def)
  with os(3) have feas: "feasible L offs nxt ips_of n os" by (simp add: feasible_iff_traces)
  from online_reach [OF se env n this] os(1) obtain st where st: "fst (cb_state s) = Some (Inr st)" by auto
  have "all_pieces offs n os = trace_pieces offs n (\<lambda>i. delivered i dl)"
    unfolding all_pieces_traces delivered_def all [OF st] ..
  with run ret st os(1) feas del show ?thesis
    by (intro exI [of _ s] exI [of _ os] exI [of _ st] exI [of _ "\<lambda>i. delivered i dl"]) simp
qed

section \<open>Properties\<close>


text \<open>
  The machine of \<open>OnlineMain\<close>: the hardware writes \<open>demo_trace\<close> to the first of two rings of 64
  bytes, the last bytes of it after the loop has begun to read.
\<close>

definition demo_race :: "capture_event list" where
  "demo_race = map (HwWrite 0) (butlast demo_trace) @ [Go] @ [HwWrite 0 (last demo_trace)] @ replicate 56 Go"

lemma ring_written_simps: "ring_written i (es @ fs) = ring_written i es @ ring_written i fs"
    "ring_written i (map (HwWrite j) xs) = (if j = i then xs else [])" "ring_written i (replicate k Go) = []"
    "ring_written i [Go] = []" "ring_written i [HwWrite j x] = (if j = i then [x] else [])"
  by (induction xs) (simp_all add: ring_written_def)

lemma demo_race_written: "ring_written i demo_race = (if i = 0 then demo_trace else [])"
proof -
  have "demo_trace \<noteq> []" using demo_trace(2) by auto
  then show ?thesis unfolding demo_race_def ring_written_simps by simp
qed

lemma demo_race_ahead: "keeps_ahead pr demo_race (racing_start 2 64 [0] st)"
proof (rule keeps_ahead_once [OF shape_start])
  show "\<forall>i < 2. hw_counts (racing_start 2 64 [0] st) ! i + length (ring_written i demo_race) \<le> 64"
    by (simp add: demo_race_written demo_trace(2) racing_start_def)
qed simp_all


end
