(* ===== verification/CollectorSteps.thy ===== *)
theory CollectorSteps
  imports CollectorFiles OnlineSteps
begin

text \<open>
  The collector (\<open>src/src/bin/collector.rs\<close>) with the capture loop at the granularity of its
  memory accesses: the callback runs inside the loop of \<open>CaptureSteps\<close>, with the hardware writing
  to the rings between any two accesses, and the tasks of the writers between any two calls.
\<close>

section \<open>The callback in the loop\<close>

text \<open>Before call \<open>t\<close>: the loop has not returned, the writers are in time and hold what was delivered.\<close>

definition collects ::
    "system \<Rightarrow> string \<Rightarrow> nat \<Rightarrow> usize \<Rightarrow> (nat \<Rightarrow> nat) \<Rightarrow> (nat \<Rightarrow> nat \<Rightarrow> nat)
     \<Rightarrow> nat \<Rightarrow> bool \<Rightarrow> collector res \<times> deliveries \<Rightarrow> bool" where
  "collects s0 dir n limit clock lag t r p \<longleftrightarrow> \<not> r \<and> (\<exists>st made cur es own. fst p = Inr st \<and> FILE_SIZE st = limit
     \<and> in_time dir n clock lag t made cur st \<and> collector_inv s0 dir es own (\<lambda>i. Tracing.delivered i (snd p)) st)"

lemma collector_calls_keep:
  assumes s0: "tasks s0 = []" "names_ok (disk_of s0)"
    and keep: "writers_keep_up n steps lag" and clk: "clock_ok n (unat limit) start clock"
    and fits: "unat limit + 819200 < 2 ^ 64" "n \<le> 2 ^ 32" and small: "rings \<le> n" "m \<le> 819200"
  shows "calls_keep rings m (logged (collector_callback b clock steps)) (collects s0 dir n limit clock lag)"
proof (unfold calls_keep_def, intro allI impI)
  fix t i k p r and tmp :: bytes
  let ?cb = "collector_callback b clock steps t i tmp k (fst p)" and ?lg = "logged (collector_callback b clock steps) t i tmp k p"
  assume i: "i < rings" and tmp: "length tmp = m" "k \<le> m" and P: "collects s0 dir n limit clock lag t False p"
    and r: "r \<longrightarrow> \<not> fst ?lg"
  from P obtain st made cur es own where st: "fst p = Inr st" "FILE_SIZE st = limit" "in_time dir n clock lag t made cur st"
    and inv: "collector_inv s0 dir es own (\<lambda>i. Tracing.delivered i (snd p)) st" unfolding collects_def by blast
  have "i < n" "k \<le> length tmp" "k \<le> 819200" using i tmp small by simp_all
  from collector_call_in_time [OF st(3) inv s0 keep clk [folded st(2)] fits(1) [folded st(2)] fits(2) this, of b]
  obtain made' cur' st' where cb: "collector_callback b clock steps t i tmp k (Inr st) = (True, Inr st')"
    "FILE_SIZE st' = limit" "in_time dir n clock lag (Suc t) made' cur' st'" using st(2) by auto
  from collector_callback_inv [OF cb(1) inv s0(1)] obtain es' own' where
    inv': "collector_inv s0 dir es' own' ((\<lambda>i. Tracing.delivered i (snd p))(i := Tracing.delivered i (snd p) @ take k tmp)) st'" by blast
  have lg: "?lg = (True, (Inr st', snd p @ [(i, take k tmp)]))"
    using cb(1) st(1) by (simp add: logged_def split_beta)
  have "(\<lambda>i. Tracing.delivered i (snd p))(i := Tracing.delivered i (snd p) @ take k tmp)
      = (\<lambda>j. Tracing.delivered j (snd p @ [(i, take k tmp)]))" by auto
  with inv' cb(2,3) r show "collects s0 dir n limit clock lag (Suc t) r (snd ?lg)"
    unfolding lg collects_def by auto
qed

section \<open>Properties\<close>



end
